(* ===== verification/GS_Prelude.thy ===== *)
theory GS_Prelude
  imports
    Main
    "HOL-Library.Word"
    "HOL-Library.List_Lexorder"
    "HOL-Library.Sublist"
begin

text \<open>
  Shared vocabulary of the development: the machine types of the Rust sources, byte
  strings with their big-endian integer encodings and their bytewise order, and the
  state-and-error operations that stand for a Rust method returning \<open>Result\<close>
  (\<open>try_then\<close> is the \<open>?\<close> operator).

  Rust's \<open>u8\<close>, \<open>u32\<close> and \<open>u64\<close> are words of that width, so \<open>+\<close> and \<open>-\<close> wrap as they
  do in the release profile.  \<open>usize\<close> positions and lengths are \<open>nat\<close>, \<open>i64\<close> values are
  \<open>int\<close> with the bounds written out where the code checks them.
\<close>

type_synonym byte = "8 word"
type_synonym bytes = "8 word list"
type_synonym u32 = "32 word"
type_synonym u64 = "64 word"

named_theorems codec_simps "lengths and round trips of the fixed-width encodings"

subsection \<open>Big-endian integers\<close>

primrec be_nat :: "nat \<Rightarrow> nat \<Rightarrow> bytes" where
  "be_nat 0 x = []"
| "be_nat (Suc n) x = be_nat n (x div 256) @ [of_nat x]"

definition nat_be :: "bytes \<Rightarrow> nat" where
  "nat_be bs = foldl (\<lambda>a b. a * 256 + unat b) 0 bs"

text \<open>\<open>u32::to_be_bytes\<close>, \<open>u64::to_be_bytes\<close> and their inverses.\<close>

definition be32 :: "u32 \<Rightarrow> bytes" where
  "be32 w = be_nat 4 (unat w)"

definition be64 :: "u64 \<Rightarrow> bytes" where
  "be64 w = be_nat 8 (unat w)"

definition u32_from_be :: "bytes \<Rightarrow> u32" where
  "u32_from_be bs = of_nat (nat_be bs)"

definition u64_from_be :: "bytes \<Rightarrow> u64" where
  "u64_from_be bs = of_nat (nat_be bs)"

subsection \<open>Slices, literals\<close>

text \<open>The Rust slice \<open>xs[a..b]\<close>, used only where the code has checked the bounds.\<close>

definition slice :: "'a list \<Rightarrow> nat \<Rightarrow> nat \<Rightarrow> 'a list" where
  "slice xs a b = take (b - a) (drop a xs)"

text \<open>A byte-string literal \<open>b"..."\<close> (or the UTF-8 bytes of an ASCII \<open>&str\<close>).\<close>

definition lit :: "string \<Rightarrow> bytes" where
  "lit s = map of_char s"

subsection \<open>Operations that return a Rust Result and change state\<close>

definition ok :: "'a \<Rightarrow> 's \<Rightarrow> ('r + 'a) \<times> 's" where
  "ok x s = (Inr x, s)"

definition fail :: "'r \<Rightarrow> 's \<Rightarrow> ('r + 'a) \<times> 's" where
  "fail e s = (Inl e, s)"

definition try_then ::
  "('s \<Rightarrow> ('r + 'a) \<times> 's) \<Rightarrow> ('a \<Rightarrow> 's \<Rightarrow> ('r + 'b) \<times> 's) \<Rightarrow> 's \<Rightarrow> ('r + 'b) \<times> 's" where
  "try_then m f s = (case m s of (Inl e, s') \<Rightarrow> (Inl e, s') | (Inr x, s') \<Rightarrow> f x s')"

subsection \<open>Lemmas: big-endian integers\<close>

lemma length_be_nat [simp, codec_simps]: "length (be_nat n x) = n"
  by (induction n arbitrary: x) auto

lemma nat_be_Nil [simp]: "nat_be [] = 0"
  by (simp add: nat_be_def)

lemma nat_be_snoc [simp]: "nat_be (bs @ [b]) = nat_be bs * 256 + unat b"
  by (simp add: nat_be_def)

lemma unat_byte_bound: "unat (b :: byte) < 256"
  using unsigned_less [of b] by simp

lemma unat_u32_bound: "unat (w :: u32) < 4294967296"
  using unsigned_less [of w] by simp

lemma unat_u64_bound: "unat (w :: u64) < 18446744073709551616"
  using unsigned_less [of w] by simp

lemma unat_of_nat_u32: "n < 2 ^ 32 \<Longrightarrow> unat (of_nat n :: u32) = n"
  by (simp add: unat_of_nat)

lemma unat_of_nat_u64: "n < 2 ^ 64 \<Longrightarrow> unat (of_nat n :: u64) = n"
  by (simp add: unat_of_nat)

lemma sint_u64_small:
  assumes "unat (w :: u64) < 2 ^ 63"
  shows "sint w = int (unat w)"
proof -
  have "uint w < 2 ^ 63" using assms by (metis of_nat_numeral of_nat_power uint_nat of_nat_less_iff)
  moreover have "- (2 ^ 63) \<le> uint w" by (rule order_trans [of _ 0]) simp_all
  ultimately have "signed_take_bit 63 (uint w) = uint w" by (rule signed_take_bit_int_eq_self [rotated])
  then show ?thesis by (simp add: sint_uint)
qed

lemma unat_of_nat_byte: "unat (of_nat x :: byte) = x mod 256"
  by (simp add: unat_of_nat)

lemma nat_be_be_nat: "nat_be (be_nat n x) = x mod 256 ^ n"
proof (induction n arbitrary: x)
  case 0
  then show ?case by simp
next
  case (Suc n)
  have "nat_be (be_nat (Suc n) x) = (x div 256 mod 256 ^ n) * 256 + x mod 256"
    by (simp add: Suc.IH unat_of_nat_byte)
  also have "\<dots> = x mod 256 ^ Suc n"
    by (simp add: mod_mult2_eq mult.commute)
  finally show ?case .
qed

lemma nat_be_bound: "nat_be bs < 256 ^ length bs"
proof (induction bs rule: rev_induct)
  case Nil
  then show ?case by simp
next
  case (snoc b bs)
  have "unat b < 256" by (rule unat_byte_bound)
  with snoc show ?case by simp
qed

lemma be_nat_nat_be: "be_nat (length bs) (nat_be bs) = bs"
proof (induction bs rule: rev_induct)
  case Nil
  then show ?case by simp
next
  case (snoc b bs)
  have b: "unat b < 256" by (rule unat_byte_bound)
  have "(nat_be bs * 256 + unat b) div 256 = nat_be bs" using b by simp
  moreover have "(of_nat (nat_be bs * 256 + unat b) :: byte) = b"
    by (rule word_unat_eq_iff [THEN iffD2]) (simp only: unat_of_nat_byte, use b in simp)
  ultimately show ?case using snoc by simp
qed

lemma length_be32 [simp, codec_simps]: "length (be32 w) = 4"
  by (simp add: be32_def)

lemma length_be64 [simp, codec_simps]: "length (be64 w) = 8"
  by (simp add: be64_def)

lemma nat_be_be32 [simp]: "nat_be (be32 w) = unat w"
  using unat_u32_bound [of w] by (simp add: be32_def nat_be_be_nat)

lemma nat_be_be64 [simp]: "nat_be (be64 w) = unat w"
  using unat_u64_bound [of w] by (simp add: be64_def nat_be_be_nat)

lemma u32_from_be_be32 [simp, codec_simps]: "u32_from_be (be32 w) = w"
  by (simp add: u32_from_be_def)

lemma u64_from_be_be64 [simp, codec_simps]: "u64_from_be (be64 w) = w"
  by (simp add: u64_from_be_def)

lemma be32_inject [simp]: "be32 a = be32 b \<longleftrightarrow> a = b"
  by (metis u32_from_be_be32)

lemma be64_inject [simp]: "be64 a = be64 b \<longleftrightarrow> a = b"
  by (metis u64_from_be_be64)

lemma be64_u64_from_be:
  assumes "length bs = 8"
  shows "be64 (u64_from_be bs) = bs"
proof -
  have "nat_be bs < 2 ^ 64" using nat_be_bound [of bs] assms by simp
  then have "unat (u64_from_be bs) = nat_be bs"
    by (simp add: u64_from_be_def unat_of_nat)
  then show ?thesis using be_nat_nat_be [of bs] assms by (simp add: be64_def)
qed

subsection \<open>Lemmas: bytewise order\<close>

lemma less_append_same_length:
  fixes xs ys :: "'a :: linorder list"
  assumes "length xs = length ys"
  shows "xs @ us < ys @ vs \<longleftrightarrow> xs < ys \<or> xs = ys \<and> us < vs"
  using assms by (induction xs ys rule: list_induct2) auto

lemma less_append_cancel [simp]:
  fixes us vs :: "'a :: linorder list"
  shows "ps @ us < ps @ vs \<longleftrightarrow> us < vs"
  by (induction ps) auto

lemma nat_be_mono_iff:
  assumes "length xs = length ys"
  shows "xs < ys \<longleftrightarrow> nat_be xs < nat_be ys"
  using assms
proof (induction xs arbitrary: ys rule: rev_induct)
  case Nil
  then show ?case by simp
next
  case (snoc x xs)
  then obtain y ys' where ys: "ys = ys' @ [y]" and len: "length xs = length ys'"
    by (metis length_Suc_conv_rev length_append_singleton)
  have b: "unat x < 256" "unat y < 256" by (rule unat_byte_bound)+
  have eq: "xs = ys' \<longleftrightarrow> nat_be xs = nat_be ys'"
    using be_nat_nat_be len by metis
  have "xs @ [x] < ys' @ [y] \<longleftrightarrow> xs < ys' \<or> xs = ys' \<and> unat x < unat y"
    using len by (simp add: less_append_same_length word_less_nat_alt)
  also have "\<dots> \<longleftrightarrow> nat_be xs < nat_be ys' \<or> nat_be xs = nat_be ys' \<and> unat x < unat y"
    using snoc.IH [OF len] eq by simp
  also have "\<dots> \<longleftrightarrow> nat_be (xs @ [x]) < nat_be (ys' @ [y])"
    using b by auto
  finally show ?case using ys by simp
qed

lemma be64_less_iff: "be64 a < be64 b \<longleftrightarrow> a < b"
  by (simp add: nat_be_mono_iff word_less_nat_alt)

lemma append_ge: "p \<le> p @ (q :: 'a :: linorder list)"
  by (induction p) auto

lemma prefix_imp_le:
  fixes p k :: "'a :: linorder list"
  assumes "prefix p k"
  shows "p \<le> k"
  using assms by (auto simp: prefix_def intro: append_ge)

text \<open>Keys that start with a prefix are contiguous in the bytewise order.\<close>

lemma prefix_contiguous:
  fixes p k k' :: "'a :: linorder list"
  assumes "p \<le> k" and "\<not> prefix p k" and "k \<le> k'"
  shows "\<not> prefix p k'"
  using assms
proof (induction p arbitrary: k k')
  case Nil
  then show ?case by simp
next
  case (Cons a p)
  show ?case
  proof
    assume "prefix (a # p) k'"
    then obtain q where k': "k' = a # q" and pq: "prefix p q"
      by (auto simp: prefix_def)
    from Cons.prems(1) obtain b r where k: "k = b # r"
      by (cases k) auto
    from Cons.prems(1,3) k k' have "b = a" by auto
    with Cons.prems k k' have "p \<le> r" "\<not> prefix p r" "r \<le> q" by auto
    from Cons.IH [OF this] pq show False by simp
  qed
qed

lemma sorted_wrt_less_unique:
  fixes xs ys :: "('k :: linorder \<times> 'v) list"
  assumes "sorted_wrt (<) (map fst xs)" "sorted_wrt (<) (map fst ys)" "set xs = set ys"
  shows "xs = ys"
proof -
  have s: "sorted (map fst zs)" "distinct (map fst zs)"
    if "sorted_wrt (<) (map fst zs)" for zs :: "('k \<times> 'v) list"
    using that by (simp_all add: strict_sorted_iff)
  have inj: "inj_on fst (set xs \<union> set ys)"
    using s(2) [OF assms(1)] assms(3) by (simp add: distinct_map)
  have "map fst xs = map fst ys"
    by (rule sorted_distinct_set_unique) (use s assms in auto)
  with inj show ?thesis
    by (meson map_inj_on)
qed

subsection \<open>Lemmas: slices and operations\<close>

lemma slice_append_left [simp]: "slice (xs @ ys) 0 (length xs) = xs"
  by (simp add: slice_def)

lemma ok_apply [simp]: "ok x s = (Inr x, s)"
  by (simp add: ok_def)

lemma fail_apply [simp]: "fail e s = (Inl e, s)"
  by (simp add: fail_def)

lemma try_then_Inr: "m s = (Inr x, s') \<Longrightarrow> try_then m f s = f x s'"
  by (simp add: try_then_def)

lemma try_then_Inl: "m s = (Inl e, s') \<Longrightarrow> try_then m f s = (Inl e, s')"
  by (simp add: try_then_def)

lemma try_then_ok [simp]: "try_then (ok x) f s = f x s"
  by (simp add: try_then_def)

lemma try_then_fail [simp]: "try_then (fail e) f s = (Inl e, s)"
  by (simp add: try_then_def)

end
