(* ===== verification/F64.thy ===== *)
theory F64
  imports GS_Prelude
begin

text \<open>
  Rust's \<open>f64\<close> as the engine uses it: a value is its IEEE-754 binary64 bit pattern
  (\<open>f64::to_bits\<close>), the comparison operators work on sign and magnitude, and NaN compares
  with nothing.  \<open>f64_units\<close> is the exact numeric value of a finite double as a multiple
  of \<open>2^-1074\<close>, the unit of the smallest subnormal; \<open>f64_lt_units\<close> and \<open>f64_eq_units\<close>
  show that comparing bit patterns is comparing these values.
\<close>

type_synonym f64 = "64 word"

definition f64_neg :: "f64 \<Rightarrow> bool" where
  "f64_neg b \<longleftrightarrow> 2 ^ 63 \<le> unat b"

definition f64_mag :: "f64 \<Rightarrow> nat" where
  "f64_mag b = unat b mod 2 ^ 63"

text \<open>The magnitude of an infinity: exponent all ones, mantissa zero.\<close>

definition f64_inf_mag :: nat where
  "f64_inf_mag = 2047 * 2 ^ 52"

definition f64_is_nan :: "f64 \<Rightarrow> bool" where
  "f64_is_nan b \<longleftrightarrow> f64_inf_mag < f64_mag b"

definition f64_is_infinite :: "f64 \<Rightarrow> bool" where
  "f64_is_infinite b \<longleftrightarrow> f64_mag b = f64_inf_mag"

definition f64_is_finite :: "f64 \<Rightarrow> bool" where
  "f64_is_finite b \<longleftrightarrow> f64_mag b < f64_inf_mag"

definition f64_ord :: "f64 \<Rightarrow> int" where
  "f64_ord b = (if f64_neg b then - int (f64_mag b) else int (f64_mag b))"

text \<open>The operators \<open><\<close>, \<open>==\<close> and \<open>>\<close>.\<close>

definition f64_lt :: "f64 \<Rightarrow> f64 \<Rightarrow> bool" where
  "f64_lt a b \<longleftrightarrow> \<not> f64_is_nan a \<and> \<not> f64_is_nan b \<and> f64_ord a < f64_ord b"

definition f64_eq :: "f64 \<Rightarrow> f64 \<Rightarrow> bool" where
  "f64_eq a b \<longleftrightarrow> \<not> f64_is_nan a \<and> \<not> f64_is_nan b \<and> f64_ord a = f64_ord b"

text \<open>The numeric value of a finite double in units of \<open>2^-1074\<close>.\<close>

definition mag_units :: "nat \<Rightarrow> nat" where
  "mag_units m =
     (let e = m div 2 ^ 52; f = m mod 2 ^ 52
      in if e = 0 then f else (2 ^ 52 + f) * 2 ^ (e - 1))"

definition f64_units :: "f64 \<Rightarrow> int" where
  "f64_units b = (if f64_neg b then - int (mag_units (f64_mag b)) else int (mag_units (f64_mag b)))"

lemma mag_units_eq: "mag_units m = (if m div 2 ^ 52 = 0 then m mod 2 ^ 52
    else (2 ^ 52 + m mod 2 ^ 52) * 2 ^ (m div 2 ^ 52 - 1))"
  by (simp add: mag_units_def Let_def)

lemma mag_units_upper: "mag_units m < 2 ^ 52 * 2 ^ (m div 2 ^ 52)"
proof (cases "m div 2 ^ 52")
  case 0
  then show ?thesis unfolding mag_units_eq by simp
next
  case (Suc e)
  have "(2 ^ 52 + m mod 2 ^ 52) * 2 ^ e < (2 ^ 52 + 2 ^ 52) * (2 :: nat) ^ e"
    by simp
  with Suc show ?thesis unfolding mag_units_eq by simp
qed

lemma mag_units_lower:
  assumes "0 < m div 2 ^ 52"
  shows "2 ^ 52 * 2 ^ (m div 2 ^ 52 - 1) \<le> mag_units m"
  using assms unfolding mag_units_eq by simp

lemma mag_units_strict_mono:
  assumes "m < n"
  shows "mag_units m < mag_units n"
proof (cases "m div 2 ^ 52 = n div 2 ^ 52")
  case True
  have "m mod 2 ^ 52 < n mod 2 ^ 52"
    using assms True by (metis div_mult_mod_eq nat_add_left_cancel_less)
  with True assms show ?thesis unfolding mag_units_eq by simp
next
  case False
  with assms have lt: "m div 2 ^ 52 < n div 2 ^ 52"
    using div_le_mono [of m n "2 ^ 52"] by simp
  have "mag_units m < 2 ^ 52 * 2 ^ (m div 2 ^ 52)" by (rule mag_units_upper)
  also have "\<dots> \<le> 2 ^ 52 * 2 ^ (n div 2 ^ 52 - 1)"
    using lt by (intro mult_left_mono power_increasing) auto
  also have "\<dots> \<le> mag_units n" using lt by (intro mag_units_lower) simp
  finally show ?thesis .
qed

lemma mag_units_less_iff: "mag_units m < mag_units n \<longleftrightarrow> m < n"
  using mag_units_strict_mono by (metis linorder_neqE_nat order_less_asym order_less_irrefl)

lemma mag_units_zero_iff: "mag_units m = 0 \<longleftrightarrow> m = 0"
proof -
  have "mag_units 0 = 0" by (simp add: mag_units_eq)
  then show ?thesis using mag_units_less_iff [of 0 m] by (cases "m = 0") auto
qed

lemma f64_units_less_iff: "f64_units a < f64_units b \<longleftrightarrow> f64_ord a < f64_ord b"
  using mag_units_less_iff [of "f64_mag a" "f64_mag b"] mag_units_less_iff [of "f64_mag b" "f64_mag a"]
    mag_units_zero_iff [of "f64_mag a"] mag_units_zero_iff [of "f64_mag b"]
  unfolding f64_units_def f64_ord_def
  by (cases "f64_neg a"; cases "f64_neg b") auto

lemma finite_not_nan: "f64_is_finite b \<Longrightarrow> \<not> f64_is_nan b"
  by (simp add: f64_is_finite_def f64_is_nan_def)

lemma f64_lt_units:
  "f64_is_finite a \<Longrightarrow> f64_is_finite b \<Longrightarrow> f64_lt a b \<longleftrightarrow> f64_units a < f64_units b"
  by (simp add: f64_lt_def f64_units_less_iff finite_not_nan)

lemma f64_eq_units:
  "f64_is_finite a \<Longrightarrow> f64_is_finite b \<Longrightarrow> f64_eq a b \<longleftrightarrow> f64_units a = f64_units b"
  using f64_units_less_iff [of a b] f64_units_less_iff [of b a]
  by (auto simp: f64_eq_def finite_not_nan)

lemma f64_not_lt_eq_gt:
  "\<not> f64_is_nan a \<Longrightarrow> \<not> f64_is_nan b \<Longrightarrow> f64_lt a b \<or> f64_eq a b \<or> f64_lt b a"
  by (auto simp: f64_lt_def f64_eq_def)

text \<open>Two equal doubles differ at most in the sign of a zero.\<close>

lemma f64_eq_cases:
  assumes "f64_eq a b"
  shows "a = b \<or> f64_mag a = 0 \<and> f64_mag b = 0"
proof -
  have dec: "unat w = f64_mag w + (if f64_neg w then 2 ^ 63 else 0)" for w :: f64
    using unat_u64_bound [of w] by (auto simp: f64_mag_def f64_neg_def mod_if)
  from assms have o: "f64_ord a = f64_ord b" by (simp add: f64_eq_def)
  show ?thesis
  proof (cases "f64_neg a = f64_neg b")
    case True
    with o have "f64_mag a = f64_mag b" by (simp add: f64_ord_def split: if_splits)
    with True have "unat a = unat b" by (simp add: dec)
    then show ?thesis by (simp add: word_unat_eq_iff)
  next
    case False
    with o show ?thesis by (auto simp: f64_ord_def split: if_splits)
  qed
qed

end
