(* ===== verification/Encoding.thy ===== *)
theory Encoding
  imports F64
begin

text \<open>
  The on-disk layout of \<open>crates/gamestore-engine/src/encoding.rs\<close>: metadata keys, versioned
  subkeys, the ZSet score index, List index fields, and the metadata record.  The lemmas
  show that every layout parses back, that the record families are disjoint and injective
  (so a prefix scan sees exactly one key at one version), and that the score and index
  encodings sort bytewise as the numbers do.
\<close>

unbundle bit_operations_syntax

definition META_PREFIX :: byte where
  "META_PREFIX = 0x01"

definition SUBKEY_PREFIX :: byte where
  "SUBKEY_PREFIX = 0x02"

definition ZSCORE_PREFIX :: byte where
  "ZSCORE_PREFIX = 0x03"

definition TYPE_STRING :: byte where
  "TYPE_STRING = 1"

definition TYPE_HASH :: byte where
  "TYPE_HASH = 2"

definition TYPE_SET :: byte where
  "TYPE_SET = 3"

definition TYPE_ZSET :: byte where
  "TYPE_ZSET = 4"

definition TYPE_LIST :: byte where
  "TYPE_LIST = 5"

definition META_HEADER_LEN :: nat where
  "META_HEADER_LEN = 1 + 8 + 8"

definition meta_key :: "bytes \<Rightarrow> bytes" where
  "meta_key user_key = META_PREFIX # user_key"

text \<open>The cast \<open>user_key.len() as u32\<close> truncates, as \<open>of_nat\<close> does.\<close>

definition subkey_prefix :: "bytes \<Rightarrow> u64 \<Rightarrow> bytes" where
  "subkey_prefix user_key ver =
     [SUBKEY_PREFIX] @ be32 (of_nat (length user_key)) @ user_key @ be64 ver"

definition subkey :: "bytes \<Rightarrow> u64 \<Rightarrow> bytes \<Rightarrow> bytes" where
  "subkey user_key ver field = subkey_prefix user_key ver @ field"

definition checked_add_usize :: "nat \<Rightarrow> nat \<Rightarrow> nat option" where
  "checked_add_usize a b = (if a + b < 2 ^ 64 then Some (a + b) else None)"

definition parse_versioned :: "bytes \<Rightarrow> byte \<Rightarrow> (bytes \<times> u64 \<times> bytes) option" where
  "parse_versioned raw pre =
     (if raw = [] \<or> raw ! 0 \<noteq> pre \<or> length raw < 1 + 4 + 8 then None
      else
        (let klen = unat (u32_from_be (slice raw 1 5)); key_start = 5
         in case checked_add_usize key_start klen of
              None \<Rightarrow> None
            | Some key_end \<Rightarrow>
                (case checked_add_usize key_end 8 of
                   None \<Rightarrow> None
                 | Some ver_end \<Rightarrow>
                     if length raw < ver_end then None
                     else Some (slice raw key_start key_end,
                                u64_from_be (slice raw key_end ver_end),
                                drop ver_end raw))))"

definition parse_subkey :: "bytes \<Rightarrow> (bytes \<times> u64 \<times> bytes) option" where
  "parse_subkey raw = parse_versioned raw SUBKEY_PREFIX"

definition parse_owner_version :: "bytes \<Rightarrow> (bytes \<times> u64) option" where
  "parse_owner_version raw =
     (case raw of
        [] \<Rightarrow> None
      | pre # _ \<Rightarrow>
          if pre \<noteq> SUBKEY_PREFIX \<and> pre \<noteq> ZSCORE_PREFIX then None
          else map_option (\<lambda>(uk, ver, _). (uk, ver)) (parse_versioned raw pre))"

definition encode_score :: "f64 \<Rightarrow> bytes" where
  "encode_score score =
     (let bits = score;
          ordered = (if bits AND push_bit 63 1 \<noteq> 0 then NOT bits else bits XOR push_bit 63 1)
      in be64 ordered)"

definition decode_score :: "bytes \<Rightarrow> f64" where
  "decode_score raw =
     (let ordered = u64_from_be raw
      in if ordered AND push_bit 63 1 \<noteq> 0 then ordered XOR push_bit 63 1 else NOT ordered)"

definition zscore_prefix :: "bytes \<Rightarrow> u64 \<Rightarrow> bytes" where
  "zscore_prefix user_key ver =
     [ZSCORE_PREFIX] @ be32 (of_nat (length user_key)) @ user_key @ be64 ver"

definition zscore_key :: "bytes \<Rightarrow> u64 \<Rightarrow> f64 \<Rightarrow> bytes \<Rightarrow> bytes" where
  "zscore_key user_key ver score member =
     zscore_prefix user_key ver @ encode_score score @ member"

definition split_score_suffix :: "bytes \<Rightarrow> (f64 \<times> bytes) option" where
  "split_score_suffix suf =
     (if length suf < 8 then None
      else Some (decode_score (take 8 suf), drop 8 suf))"

definition LIST_INITIAL_INDEX :: u64 where
  "LIST_INITIAL_INDEX = push_bit 63 1"

definition list_index_field :: "u64 \<Rightarrow> bytes" where
  "list_index_field index = be64 index"

record meta =
  type_id :: byte
  version :: u64
  expire_ms :: u64
  payload :: bytes

definition meta_encode :: "meta \<Rightarrow> bytes" where
  "meta_encode m = [type_id m] @ be64 (version m) @ be64 (expire_ms m) @ payload m"

definition meta_decode :: "bytes \<Rightarrow> meta option" where
  "meta_decode raw =
     (if length raw < META_HEADER_LEN then None
      else Some \<lparr>type_id = raw ! 0,
                 version = u64_from_be (slice raw 1 9),
                 expire_ms = u64_from_be (slice raw 9 17),
                 payload = drop META_HEADER_LEN raw\<rparr>)"

definition field_count :: "meta \<Rightarrow> u32" where
  "field_count m =
     (let counted = (type_id m = TYPE_HASH \<or> type_id m = TYPE_SET \<or> type_id m = TYPE_ZSET)
      in if counted \<and> 4 \<le> length (payload m) then u32_from_be (take 4 (payload m)) else 0)"

definition set_field_count :: "u32 \<Rightarrow> meta \<Rightarrow> meta" where
  "set_field_count n m = m\<lparr>payload := be32 n\<rparr>"

definition list_bounds :: "meta \<Rightarrow> (u64 \<times> u64) option" where
  "list_bounds m =
     (if type_id m \<noteq> TYPE_LIST \<or> length (payload m) < 16 then None
      else Some (u64_from_be (take 8 (payload m)), u64_from_be (slice (payload m) 8 16)))"

definition set_list_bounds :: "u64 \<Rightarrow> u64 \<Rightarrow> meta \<Rightarrow> meta" where
  "set_list_bounds head tail m = m\<lparr>payload := be64 head @ be64 tail\<rparr>"

text \<open>
  A user key whose length the 32-bit length field can hold.  The protocol layer bounds
  every argument by \<open>Limits::max_bulk_len\<close> (512 MiB), well below this.
\<close>

definition valid_key :: "bytes \<Rightarrow> bool" where
  "valid_key k \<longleftrightarrow> length k < 2 ^ 32"

lemmas prefix_defs = META_PREFIX_def SUBKEY_PREFIX_def ZSCORE_PREFIX_def
lemmas type_defs = TYPE_STRING_def TYPE_HASH_def TYPE_SET_def TYPE_ZSET_def TYPE_LIST_def

subsection \<open>Versioned record keys\<close>

lemma unat_key_len: "valid_key k \<Longrightarrow> unat (of_nat (length k) :: u32) = length k"
  by (simp add: valid_key_def unat_of_nat)

lemma parse_versioned_layout:
  assumes "valid_key k"
  shows "parse_versioned ([pre] @ be32 (of_nat (length k)) @ k @ be64 ver @ rest) pre
    = Some (k, ver, rest)"
  using assms
  by (simp add: parse_versioned_def checked_add_usize_def slice_def unat_key_len valid_key_def
      Let_def drop_Cons')

lemma parse_versioned_sound:
  assumes "parse_versioned raw pre = Some (k, ver, rest)"
  shows "raw = [pre] @ be32 (of_nat (length k)) @ k @ be64 ver @ rest" and "valid_key k"
proof -
  define klen where "klen = unat (u32_from_be (slice raw 1 5))"
  have kl: "klen < 2 ^ 32" unfolding klen_def using unat_u32_bound by simp
  from assms have g: "raw \<noteq> []" "raw ! 0 = pre" "13 \<le> length raw" "13 + klen \<le> length raw"
    and k: "k = slice raw 5 (5 + klen)" and v: "ver = u64_from_be (slice raw (5 + klen) (13 + klen))"
    and r: "rest = drop (13 + klen) raw"
    using kl unfolding parse_versioned_def klen_def [symmetric]
    by (auto simp: checked_add_usize_def Let_def add.commute split: if_splits)
  have lk: "length k = klen" using g k by (simp add: slice_def)
  then show "valid_key k" using kl by (simp add: valid_key_def)
  have "be32 (of_nat klen) = slice raw 1 5"
  proof -
    have "nat_be (slice raw 1 5) < 2 ^ 32"
      using nat_be_bound [of "slice raw 1 5"] g by (simp add: slice_def)
    then have "klen = nat_be (slice raw 1 5)"
      by (simp add: klen_def u32_from_be_def unat_of_nat)
    moreover have "length (slice raw 1 5) = 4" using g by (simp add: slice_def)
    ultimately show ?thesis using kl be_nat_nat_be [of "slice raw 1 5"]
      by (simp add: be32_def unat_of_nat)
  qed
  moreover have "be64 ver = slice raw (5 + klen) (13 + klen)"
    unfolding v by (rule be64_u64_from_be) (use g in \<open>simp add: slice_def\<close>)
  ultimately have "[pre] @ be32 (of_nat (length k)) @ k @ be64 ver @ rest
      = take 1 raw @ slice raw 1 5 @ slice raw 5 (5 + klen)
          @ slice raw (5 + klen) (13 + klen) @ drop (13 + klen) raw"
    using g lk k r by (cases raw) auto
  also have "\<dots> = raw"
    by (simp add: slice_def take_add [symmetric] append_take_drop_id
        flip: take_add append_assoc)
  finally show "raw = [pre] @ be32 (of_nat (length k)) @ k @ be64 ver @ rest" by simp
qed

lemma parse_subkey_subkey [codec_simps]:
  "valid_key k \<Longrightarrow> parse_subkey (subkey k ver field) = Some (k, ver, field)"
  using parse_versioned_layout [of k SUBKEY_PREFIX ver field]
  by (simp add: parse_subkey_def subkey_def subkey_prefix_def)

lemma parse_owner_version_subkey [codec_simps]:
  "valid_key k \<Longrightarrow> parse_owner_version (subkey k ver field) = Some (k, ver)"
  using parse_versioned_layout [of k SUBKEY_PREFIX ver field]
  by (simp add: parse_owner_version_def subkey_def subkey_prefix_def)

lemma parse_owner_version_zscore [codec_simps]:
  "valid_key k \<Longrightarrow> parse_owner_version (zscore_prefix k ver @ rest) = Some (k, ver)"
  using parse_versioned_layout [of k ZSCORE_PREFIX ver rest]
  by (simp add: parse_owner_version_def zscore_prefix_def)

lemma parse_owner_version_meta_key [simp]: "parse_owner_version (meta_key k) = None"
  by (simp add: parse_owner_version_def meta_key_def prefix_defs)

lemma parse_subkey_meta_key [simp]: "parse_subkey (meta_key k) = None"
  by (simp add: parse_subkey_def parse_versioned_def meta_key_def prefix_defs)

lemma parse_subkey_exact:
  assumes "parse_subkey raw = Some (k, ver, field)"
  shows "raw = subkey k ver field" and "valid_key k"
  using parse_versioned_sound [OF assms [unfolded parse_subkey_def]]
  by (simp_all add: subkey_def subkey_prefix_def)

lemma parse_owner_version_exact:
  assumes "parse_owner_version raw = Some (k, ver)"
  shows "(\<exists>rest. raw = subkey_prefix k ver @ rest) \<or> (\<exists>rest. raw = zscore_prefix k ver @ rest)"
    and "valid_key k"
proof -
  from assms obtain pre rest where
    p: "pre = SUBKEY_PREFIX \<or> pre = ZSCORE_PREFIX" "parse_versioned raw pre = Some (k, ver, rest)"
    by (auto simp: parse_owner_version_def split: list.splits if_splits)
  from parse_versioned_sound [OF p(2)] p(1)
  show "(\<exists>rest. raw = subkey_prefix k ver @ rest) \<or> (\<exists>rest. raw = zscore_prefix k ver @ rest)"
    and "valid_key k"
    by (auto simp: subkey_prefix_def zscore_prefix_def)
qed

lemma meta_key_inject [simp]: "meta_key k = meta_key k' \<longleftrightarrow> k = k'"
  by (simp add: meta_key_def)

lemma subkey_inject:
  assumes "valid_key k" "valid_key k'"
  shows "subkey k v f = subkey k' v' f' \<longleftrightarrow> k = k' \<and> v = v' \<and> f = f'"
  by (metis parse_subkey_subkey assms option.inject prod.inject)

lemma subkey_same_inject [simp]: "subkey k v f = subkey k v f' \<longleftrightarrow> f = f'"
  by (simp add: subkey_def)

lemma prefix_subkey_prefix:
  assumes "valid_key k" "valid_key k'"
  shows "prefix (subkey_prefix k v) (subkey k' v' f) \<longleftrightarrow> k = k' \<and> v = v'"
proof
  assume "prefix (subkey_prefix k v) (subkey k' v' f)"
  then obtain rest where "subkey k' v' f = subkey k v rest"
    by (auto simp: prefix_def subkey_def)
  then show "k = k' \<and> v = v'" using assms by (simp add: subkey_inject)
qed (simp add: subkey_def)

lemma key_families_disjoint [simp]:
  "meta_key k \<noteq> subkey k' v f" "subkey k' v f \<noteq> meta_key k"
  "meta_key k \<noteq> zscore_prefix k' v @ r" "zscore_prefix k' v @ r \<noteq> meta_key k"
  "subkey k v f \<noteq> zscore_prefix k' v' @ r" "zscore_prefix k' v' @ r \<noteq> subkey k v f"
  "meta_key k \<noteq> zscore_key k' v s m" "zscore_key k' v s m \<noteq> meta_key k"
  "subkey k v f \<noteq> zscore_key k' v' s m" "zscore_key k' v' s m \<noteq> subkey k v f"
  by (auto simp: meta_key_def subkey_def subkey_prefix_def zscore_prefix_def zscore_key_def prefix_defs)

lemma zscore_prefix_inject:
  assumes "valid_key k" "valid_key k'"
  shows "zscore_prefix k v @ r = zscore_prefix k' v' @ r' \<longleftrightarrow> k = k' \<and> v = v' \<and> r = r'"
proof
  assume "zscore_prefix k v @ r = zscore_prefix k' v' @ r'"
  then have "parse_versioned (zscore_prefix k v @ r) ZSCORE_PREFIX
      = parse_versioned (zscore_prefix k' v' @ r') ZSCORE_PREFIX" by simp
  then show "k = k' \<and> v = v' \<and> r = r'"
    using parse_versioned_layout [OF assms(1), of ZSCORE_PREFIX v r]
      parse_versioned_layout [OF assms(2), of ZSCORE_PREFIX v' r']
    by (simp add: zscore_prefix_def)
qed simp

subsection \<open>Metadata records\<close>

lemma meta_decode_encode [simp, codec_simps]: "meta_decode (meta_encode m) = Some m"
  by (simp add: meta_decode_def meta_encode_def META_HEADER_LEN_def slice_def)

lemma field_count_set_field_count [simp]:
  "type_id m = TYPE_HASH \<or> type_id m = TYPE_SET \<or> type_id m = TYPE_ZSET
    \<Longrightarrow> field_count (set_field_count n m) = n"
  by (auto simp: field_count_def set_field_count_def)

lemma list_bounds_set_list_bounds [simp]:
  "type_id m = TYPE_LIST \<Longrightarrow> list_bounds (set_list_bounds h t m) = Some (h, t)"
  by (simp add: list_bounds_def set_list_bounds_def slice_def)

lemma set_field_count_fields [simp]:
  "type_id (set_field_count n m) = type_id m" "version (set_field_count n m) = version m"
  "expire_ms (set_field_count n m) = expire_ms m"
  by (simp_all add: set_field_count_def)

lemma set_list_bounds_fields [simp]:
  "type_id (set_list_bounds h t m) = type_id m" "version (set_list_bounds h t m) = version m"
  "expire_ms (set_list_bounds h t m) = expire_ms m"
  by (simp_all add: set_list_bounds_def)

subsection \<open>Score encoding\<close>

text \<open>The order-preserving integer behind \<open>encode_score\<close>.\<close>

definition score_ordered :: "f64 \<Rightarrow> u64" where
  "score_ordered b = (if b AND push_bit 63 1 \<noteq> 0 then NOT b else b XOR push_bit 63 1)"

lemma encode_score_eq: "encode_score b = be64 (score_ordered b)"
  by (simp add: encode_score_def score_ordered_def Let_def)

lemma length_encode_score [simp, codec_simps]: "length (encode_score b) = 8"
  by (simp add: encode_score_eq)

lemma top_bit_iff: "(w :: u64) AND push_bit 63 1 = 0 \<longleftrightarrow> unat w < 2 ^ 63"
proof -
  have "w AND push_bit 63 1 = 0 \<longleftrightarrow> \<not> bit w 63"
    by (simp only: push_bit_of_1 and_exp_eq_0_iff_not_bit)
  also have "bit w 63 \<longleftrightarrow> odd (unat w div 2 ^ 63)"
    by (simp only: bit_unsigned_iff flip: bit_iff_odd) simp
  also have "unat w div 2 ^ 63 = (if unat w < 2 ^ 63 then 0 else 1)"
    using unat_u64_bound [of w] by (auto intro!: div_nat_eqI)
  finally show ?thesis by simp
qed

lemma unat_not_u64: "unat (NOT w :: u64) = 2 ^ 64 - 1 - unat w"
proof -
  have "uint (NOT w) = (- uint w - 1) mod 2 ^ 64"
    by (simp only: unsigned_not_eq take_bit_eq_mod) (simp add: not_eq_complement)
  also have "\<dots> = (2 ^ 64 - 1 - uint w) mod 2 ^ 64"
    using mod_add_self2 [of "- uint w - 1" "2 ^ 64"] by (simp add: algebra_simps)
  also have "\<dots> = 2 ^ 64 - 1 - uint w"
  proof (rule mod_pos_pos_trivial)
    show "0 \<le> 2 ^ 64 - 1 - uint w" using unsigned_less [where 'a = int and w = w] by simp
    have "0 \<le> uint w" by simp
    then show "2 ^ 64 - 1 - uint w < 2 ^ 64" by linarith
  qed
  finally have "int (unat (NOT w)) = 18446744073709551615 - int (unat w)" by simp
  then have "unat (NOT w) + unat w = 18446744073709551615" by linarith
  then show ?thesis by simp
qed

lemma xor_top:
  assumes "unat (w :: u64) < 2 ^ 63"
  shows "unat (w XOR push_bit 63 1) = unat w + 2 ^ 63"
proof -
  have "w XOR push_bit 63 1 = w + push_bit 63 1"
    using assms by (simp only: disjunctive_add_eq_xor top_bit_iff)
  then show ?thesis using assms by (simp add: unat_word_ariths)
qed

lemma unat_score_ordered:
  "unat (score_ordered b) = (if f64_neg b then 2 ^ 63 - 1 - f64_mag b else 2 ^ 63 + f64_mag b)"
proof (cases "f64_neg b")
  case True
  then have "f64_mag b = unat b - 2 ^ 63"
    using unat_u64_bound [of b] by (simp add: f64_mag_def f64_neg_def mod_if)
  with True show ?thesis
    by (simp only: score_ordered_def top_bit_iff f64_neg_def not_less if_True unat_not_u64) simp
next
  case False
  then have "f64_mag b = unat b" by (simp add: f64_mag_def f64_neg_def)
  with False show ?thesis
    by (simp only: score_ordered_def top_bit_iff f64_neg_def not_less not_le if_False if_True
        simp_thms xor_top) simp
qed

lemma f64_mag_bound: "f64_mag b < 2 ^ 63"
  by (simp add: f64_mag_def)

lemma decode_encode_score [simp, codec_simps]: "decode_score (encode_score b) = b"
proof -
  have "(score_ordered b AND push_bit 63 1 \<noteq> 0) = (\<not> f64_neg b)"
    by (simp only: top_bit_iff unat_score_ordered) (use f64_mag_bound [of b] in auto)
  moreover have "(b AND push_bit 63 1 \<noteq> 0) = f64_neg b"
    by (simp only: top_bit_iff f64_neg_def) auto
  ultimately show ?thesis
    by (simp only: decode_score_def encode_score_eq u64_from_be_be64 Let_def)
      (simp only: score_ordered_def, simp add: xor.assoc)
qed

lemma encode_score_less_iff:
  "encode_score a < encode_score b \<longleftrightarrow>
     f64_ord a < f64_ord b \<or> f64_ord a = f64_ord b \<and> f64_neg a \<and> \<not> f64_neg b"
  using f64_mag_bound [of a] f64_mag_bound [of b]
  by (simp add: encode_score_eq be64_less_iff word_less_nat_alt unat_score_ordered f64_ord_def) auto

lemma encode_score_inject [simp]: "encode_score a = encode_score b \<longleftrightarrow> a = b"
  by (metis decode_encode_score)

lemma split_score_suffix_zscore [simp, codec_simps]:
  "split_score_suffix (encode_score s @ member) = Some (s, member)"
  by (simp add: split_score_suffix_def)

subsection \<open>Properties of the layout\<close>

text \<open>C21: A byte string parses as a subkey of \<open>(user_key, version, field)\<close> exactly when it is the
  encoding of that triple for a key the length field can hold: the parser inverts the encoder
  and accepts nothing else.\<close>

theorem parse_subkey_iff:
  "parse_subkey raw = Some (k, ver, field) \<longleftrightarrow> valid_key k \<and> raw = subkey k ver field"
  using parse_subkey_exact [of raw k ver field] by (auto simp: codec_simps)

text \<open>A prefix scan for one key at one version sees no record of any other key or version, in
  either versioned record family, and never a metadata record.\<close>

theorem scan_prefix_isolation:
  assumes "valid_key k" and "valid_key k'"
  shows "(prefix (subkey_prefix k v) (subkey k' v' f) \<longleftrightarrow> k = k' \<and> v = v')
    \<and> (prefix (zscore_prefix k v) (zscore_key k' v' s m) \<longleftrightarrow> k = k' \<and> v = v')
    \<and> \<not> prefix (subkey_prefix k v) (zscore_key k' v' s m)
    \<and> \<not> prefix (zscore_prefix k v) (subkey k' v' f)
    \<and> \<not> prefix (subkey_prefix k v) (meta_key k')
    \<and> \<not> prefix (zscore_prefix k v) (meta_key k')"
proof (intro conjI)
  show "prefix (subkey_prefix k v) (subkey k' v' f) \<longleftrightarrow> k = k' \<and> v = v'"
    by (rule prefix_subkey_prefix [OF assms])
  show "prefix (zscore_prefix k v) (zscore_key k' v' s m) \<longleftrightarrow> k = k' \<and> v = v'"
    using zscore_prefix_inject [OF assms(2,1)] by (auto simp: prefix_def zscore_key_def)
qed (auto simp: prefix_def subkey_prefix_def zscore_prefix_def zscore_key_def subkey_def
      meta_key_def prefix_defs)

theorem scan_prefix_isolation_witness:
  "\<not> prefix (subkey_prefix [107] 7) (subkey [107] 8 [102])
    \<and> prefix (subkey_prefix [107] 7) (subkey [107] 7 [102])"
  using scan_prefix_isolation [where k = "[107]" and k' = "[107]" and v = 7 and v' = 8 and f = "[102]"]
    scan_prefix_isolation [where k = "[107]" and k' = "[107]" and v = 7 and v' = 7 and f = "[102]"]
  by (simp add: valid_key_def)

text \<open>Decoding a metadata record succeeds exactly on the bytes that encoding it produces, so
  no two records share bytes and a buffer shorter than the header is rejected.\<close>

theorem meta_decode_iff: "meta_decode raw = Some m \<longleftrightarrow> raw = meta_encode m"
proof
  assume d: "meta_decode raw = Some m"
  then have l: "17 \<le> length raw"
    by (simp add: meta_decode_def META_HEADER_LEN_def split: if_splits)
  have m: "m = \<lparr>type_id = raw ! 0, version = u64_from_be (slice raw 1 9),
      expire_ms = u64_from_be (slice raw 9 17), payload = drop 17 raw\<rparr>"
    using d l by (simp add: meta_decode_def META_HEADER_LEN_def)
  have "meta_encode m = take 1 raw @ slice raw 1 9 @ slice raw 9 17 @ drop 17 raw"
    using l unfolding m meta_encode_def
    by (simp add: be64_u64_from_be slice_def) (cases raw, auto)
  also have "\<dots> = raw"
    by (simp add: slice_def flip: take_add append_assoc)
  finally show "raw = meta_encode m" by simp
qed simp

text \<open>C13: The score encoding is lossless and order preserving: numerically smaller scores have
  bytewise smaller index keys whatever the members are, and bytewise order never contradicts
  numeric order.\<close>

theorem zscore_key_order:
  assumes "\<not> f64_is_nan s" and "\<not> f64_is_nan s'"
  shows "decode_score (encode_score s) = s
    \<and> (f64_lt s s' \<longrightarrow> zscore_key k v s m < zscore_key k v s' m')
    \<and> (zscore_key k v s m < zscore_key k v s' m' \<longrightarrow> \<not> f64_lt s' s)
    \<and> (zscore_key k v s m < zscore_key k v s m' \<longleftrightarrow> m < m')"
  using assms
  by (auto simp: zscore_key_def less_append_same_length encode_score_less_iff f64_lt_def)

text \<open>The witness compares \<open>-1.0\<close> with \<open>2.0\<close>.\<close>

theorem zscore_key_order_witness:
  "zscore_key [107] 1 0xBFF0000000000000 [98] < zscore_key [107] 1 0x4000000000000000 [97]"
  using zscore_key_order [where s = "0xBFF0000000000000" and s' = "0x4000000000000000"
      and k = "[107]" and v = 1 and m = "[98]" and m' = "[97]"]
  by (simp add: f64_is_nan_def f64_mag_def f64_inf_mag_def f64_lt_def f64_ord_def f64_neg_def)

text \<open>The records of one list sort by index.\<close>

lemma list_index_order:
  "subkey k v (list_index_field i) < subkey k v (list_index_field j) \<longleftrightarrow> i < j"
  by (simp add: subkey_def list_index_field_def be64_less_iff)

end
