(* ===== verification/Gc.thy ===== *)
theory Gc
  imports Encoding
begin

text \<open>
  The in-memory version map of \<open>crates/gamestore-engine/src/gc.rs\<close> and the
  compaction-filter predicate it drives.  The Rust map sits behind an \<open>Arc<RwLock<..>>\<close>;
  its value at one moment is a partial function from user keys to their current
  structure version.
\<close>

type_synonym version_map = "bytes \<rightharpoonup> u64"

definition vm_new :: version_map where
  "vm_new = Map.empty"

definition vm_set :: "bytes \<Rightarrow> u64 \<Rightarrow> version_map \<Rightarrow> version_map" where
  "vm_set user_key ver vm = vm(user_key \<mapsto> ver)"

definition vm_remove :: "bytes \<Rightarrow> version_map \<Rightarrow> version_map" where
  "vm_remove user_key vm = vm(user_key := None)"

definition vm_get :: "bytes \<Rightarrow> version_map \<Rightarrow> u64 option" where
  "vm_get user_key vm = vm user_key"

definition vm_clear :: "version_map \<Rightarrow> version_map" where
  "vm_clear vm = Map.empty"

definition vm_len :: "version_map \<Rightarrow> nat" where
  "vm_len vm = card (dom vm)"

definition vm_is_empty :: "version_map \<Rightarrow> bool" where
  "vm_is_empty vm \<longleftrightarrow> vm_len vm = 0"

definition should_keep :: "version_map \<Rightarrow> bytes \<Rightarrow> bool" where
  "should_keep vm key =
     (case parse_owner_version key of
        None \<Rightarrow> True
      | Some (user_key, ver) \<Rightarrow>
          (case vm_get user_key vm of
             Some current \<Rightarrow> ver = current
           | None \<Rightarrow> False))"

text \<open>\<open>impl GcPredicate for VersionMap\<close>: the record's value is not consulted.\<close>

definition gc_should_keep :: "version_map \<Rightarrow> bytes \<Rightarrow> bytes \<Rightarrow> bool" where
  "gc_should_keep vm key value = should_keep vm key"

named_theorems vm_simps "lookups in an updated version map"

lemma vm_get_set [vm_simps]: "vm_get k (vm_set k' v vm) = (if k = k' then Some v else vm_get k vm)"
  by (simp add: vm_get_def vm_set_def)

lemma vm_get_remove [vm_simps]: "vm_get k (vm_remove k' vm) = (if k = k' then None else vm_get k vm)"
  by (simp add: vm_get_def vm_remove_def)

lemma vm_get_clear [vm_simps]: "vm_get k (vm_clear vm) = None" "vm_get k vm_new = None"
  by (simp_all add: vm_get_def vm_clear_def vm_new_def)

lemma should_keep_meta_key [simp]: "should_keep vm (meta_key k)"
  by (simp add: should_keep_def)

lemma should_keep_subkey:
  "valid_key k \<Longrightarrow> should_keep vm (subkey k v f) \<longleftrightarrow> vm_get k vm = Some v"
  by (auto simp: should_keep_def codec_simps split: option.splits)

lemma should_keep_zscore:
  "valid_key k \<Longrightarrow> should_keep vm (zscore_prefix k v @ r) \<longleftrightarrow> vm_get k vm = Some v"
  by (auto simp: should_keep_def codec_simps split: option.splits)

text \<open>C14: The compaction filter keeps a subkey or score-index record exactly while its owner is
  tracked at the record's version, so setting a new version orphans every older record, removing
  the owner orphans all of them, other owners are unaffected, and metadata is never dropped.\<close>

theorem should_keep_lifecycle:
  assumes "valid_key k"
  shows "(should_keep (vm_set k v vm) (subkey k w f) \<longleftrightarrow> w = v)
    \<and> (should_keep (vm_set k v vm) (zscore_key k w s m) \<longleftrightarrow> w = v)
    \<and> \<not> should_keep (vm_remove k vm) (subkey k w f)
    \<and> \<not> should_keep (vm_remove k vm) (zscore_key k w s m)
    \<and> (valid_key k' \<and> k' \<noteq> k \<longrightarrow>
         should_keep (vm_set k v vm) (subkey k' w f) = should_keep vm (subkey k' w f)
         \<and> should_keep (vm_remove k vm) (subkey k' w f) = should_keep vm (subkey k' w f))
    \<and> should_keep vm (meta_key k')"
  using assms by (auto simp: zscore_key_def should_keep_subkey should_keep_zscore vm_simps)

theorem should_keep_lifecycle_witness:
  "should_keep (vm_set [107] 5 vm_new) (subkey [107] 5 [102])
    \<and> \<not> should_keep (vm_set [107] 5 vm_new) (subkey [107] 4 [102])"
  using should_keep_lifecycle [of "[107]" 5 vm_new 5 "[102]"]
    should_keep_lifecycle [of "[107]" 5 vm_new 4 "[102]"]
  by (simp add: valid_key_def)

end
