(* ===== verification/Engine.thy ===== *)
theory Engine
  imports Gc
begin

text \<open>
  The storage-engine abstraction of \<open>crates/gamestore-engine/src/engine.rs\<close> and
  \<open>error.rs\<close>: write batches, the operations of the \<open>GeneralEngine\<close> trait as a record of
  functions over an engine state, and the contract its clients rely on as locales.

  \<open>general_engine\<close> states what the trait documents for operations that succeed, and that a
  failed write or compaction leaves the contents unchanged.  \<open>reliable_engine\<close> adds that
  the backend reports no error; the functional theorems about the store are proved there.
  The abstraction \<open>view\<close> reads an engine state as a finite map from keys to values, and
  \<open>gc_on\<close> tells whether a GC predicate has been installed.
\<close>

datatype engine_error = Backend string | Corruption string | WrongType

datatype write_op = Put bytes bytes | Delete bytes

record write_batch =
  ops :: "write_op list"

definition batch_new :: write_batch where
  "batch_new = \<lparr>ops = []\<rparr>"

definition batch_put :: "bytes \<Rightarrow> bytes \<Rightarrow> write_batch \<Rightarrow> write_batch" where
  "batch_put key val b = b\<lparr>ops := ops b @ [Put key val]\<rparr>"

definition batch_delete :: "bytes \<Rightarrow> write_batch \<Rightarrow> write_batch" where
  "batch_delete key b = b\<lparr>ops := ops b @ [Delete key]\<rparr>"

definition batch_len :: "write_batch \<Rightarrow> nat" where
  "batch_len b = length (ops b)"

definition batch_is_empty :: "write_batch \<Rightarrow> bool" where
  "batch_is_empty b \<longleftrightarrow> ops b = []"

record key_range =
  range_start :: "bytes option"
  range_end :: "bytes option"

definition range_default :: key_range where
  "range_default = \<lparr>range_start = None, range_end = None\<rparr>"

definition in_range :: "key_range \<Rightarrow> bytes \<Rightarrow> bool" where
  "in_range r k \<longleftrightarrow>
     (case range_start r of None \<Rightarrow> True | Some a \<Rightarrow> a \<le> k)
     \<and> (case range_end r of None \<Rightarrow> True | Some b \<Rightarrow> k < b)"

type_synonym kv = "bytes \<rightharpoonup> bytes"
type_synonym scan_item = "engine_error + bytes \<times> bytes"
type_synonym gc_predicate = "bytes \<Rightarrow> bytes \<Rightarrow> bool"

text \<open>
  The \<open>GeneralEngine\<close> trait.  \<open>eng_compact_range\<close> takes what the installed predicate
  answers at that moment, because the predicate shares the store's version map.
\<close>

record 'e engine_ops =
  eng_get :: "'e \<Rightarrow> bytes \<Rightarrow> engine_error + bytes option"
  eng_write :: "'e \<Rightarrow> write_batch \<Rightarrow> (engine_error + unit) \<times> 'e"
  eng_scan_prefix :: "'e \<Rightarrow> bytes \<Rightarrow> scan_item list"
  eng_compact_range :: "gc_predicate \<Rightarrow> 'e \<Rightarrow> key_range option \<Rightarrow> (engine_error + unit) \<times> 'e"
  eng_install_gc :: "'e \<Rightarrow> 'e"
  eng_stats :: "'e \<Rightarrow> (string \<times> u64) list"

text \<open>The meaning of a batch: its operations in order.\<close>

fun apply_op :: "write_op \<Rightarrow> kv \<Rightarrow> kv" where
  "apply_op (Put k v) m = m(k \<mapsto> v)"
| "apply_op (Delete k) m = m(k := None)"

definition apply_ops :: "write_op list \<Rightarrow> kv \<Rightarrow> kv" where
  "apply_ops os m = fold apply_op os m"

text \<open>\<open>xs\<close> lists exactly the records of \<open>m\<close> whose key starts with \<open>p\<close>, in key order.\<close>

definition scans :: "kv \<Rightarrow> bytes \<Rightarrow> (bytes \<times> bytes) list \<Rightarrow> bool" where
  "scans m p xs \<longleftrightarrow>
     sorted_wrt (<) (map fst xs) \<and> set xs = {(k, v). m k = Some v \<and> prefix p k}"

text \<open>Effect of a compaction whose filter drops the records that \<open>keep\<close> rejects.\<close>

definition compacts :: "(bytes \<Rightarrow> bytes \<Rightarrow> bool) \<Rightarrow> key_range \<Rightarrow> kv \<Rightarrow> kv \<Rightarrow> bool" where
  "compacts keep r m m' \<longleftrightarrow>
     m' \<subseteq>\<^sub>m m
     \<and> (\<forall>k v. m k = Some v \<longrightarrow> keep k v \<longrightarrow> m' k = Some v)
     \<and> (\<forall>k v. m k = Some v \<longrightarrow> \<not> keep k v \<longrightarrow> in_range r k \<longrightarrow> m' k = None)"

definition range_or_all :: "key_range option \<Rightarrow> key_range" where
  "range_or_all r = (case r of None \<Rightarrow> range_default | Some r' \<Rightarrow> r')"

named_theorems engine_simps "effect of engine operations on the view"

subsection \<open>Batches\<close>

lemma ops_batch [simp]:
  "ops batch_new = []"
  "ops (batch_put k v b) = ops b @ [Put k v]"
  "ops (batch_delete k b) = ops b @ [Delete k]"
  by (simp_all add: batch_new_def batch_put_def batch_delete_def)

lemma batch_is_empty_simps [simp]:
  "batch_is_empty batch_new" "\<not> batch_is_empty (batch_put k v b)" "\<not> batch_is_empty (batch_delete k b)"
  by (simp_all add: batch_is_empty_def)

lemma apply_ops_simps [simp]:
  "apply_ops [] m = m"
  "apply_ops (x # xs) m = apply_ops xs (apply_op x m)"
  "apply_ops (xs @ ys) m = apply_ops ys (apply_ops xs m)"
  by (simp_all add: apply_ops_def)

fun op_key :: "write_op \<Rightarrow> bytes" where
  "op_key (Put k v) = k"
| "op_key (Delete k) = k"

lemma apply_ops_other: "k \<notin> op_key ` set os \<Longrightarrow> apply_ops os m k = m k"
proof (induction os arbitrary: m)
  case Nil
  then show ?case by simp
next
  case (Cons x os)
  then show ?case by (cases x) auto
qed

lemma finite_dom_apply_ops: "finite (dom m) \<Longrightarrow> finite (dom (apply_ops os m))"
proof (induction os arbitrary: m)
  case Nil
  then show ?case by simp
next
  case (Cons x os)
  have "dom (apply_op x m) \<subseteq> insert (op_key x) (dom m)"
    by (cases x) (auto split: if_splits)
  then have "finite (dom (apply_op x m))"
    using Cons.prems by (meson finite_insert finite_subset)
  then show ?case using Cons.IH by simp
qed

lemma scans_unique: "scans m p xs \<Longrightarrow> scans m p ys \<Longrightarrow> xs = ys"
  unfolding scans_def by (rule sorted_wrt_less_unique) simp_all

lemma in_range_default [simp]: "in_range range_default k"
  by (simp add: in_range_def range_default_def)

subsection \<open>The engine contract\<close>

locale general_engine =
  fixes E :: "'e engine_ops"
    and view :: "'e \<Rightarrow> kv"
    and gc_on :: "'e \<Rightarrow> bool"
  assumes view_finite: "finite (dom (view e))"
    and get_sound: "eng_get E e k = Inr res \<Longrightarrow> res = view e k"
    and write_sound: "eng_write E e b = (Inr (), e') \<Longrightarrow> view e' = apply_ops (ops b) (view e)"
    and write_failed: "eng_write E e b = (Inl x, e') \<Longrightarrow> view e' = view e"
    and write_gc: "gc_on (snd (eng_write E e b)) = gc_on e"
    and scan_sound: "eng_scan_prefix E e p = map Inr xs \<Longrightarrow> scans (view e) p xs"
    and compact_sound: "eng_compact_range E keep e rng = (Inr (), e') \<Longrightarrow>
      compacts (\<lambda>k v. \<not> gc_on e \<or> keep k v) (range_or_all rng) (view e) (view e')"
    and compact_failed: "eng_compact_range E keep e rng = (Inl x, e') \<Longrightarrow> view e' = view e"
    and compact_gc: "gc_on (snd (eng_compact_range E keep e rng)) = gc_on e"
    and install_view: "view (eng_install_gc E e) = view e"
    and install_gc: "gc_on (eng_install_gc E e)"

locale reliable_engine = general_engine +
  assumes get_total: "\<exists>res. eng_get E e k = Inr res"
    and write_total: "fst (eng_write E e b) = Inr ()"
    and scan_total: "\<exists>xs. eng_scan_prefix E e p = map Inr xs"
    and compact_total: "fst (eng_compact_range E keep e rng) = Inr ()"
begin

lemma get_eq [engine_simps]: "eng_get E e k = Inr (view e k)"
  using get_total get_sound by metis

lemma view_write [engine_simps]: "view (snd (eng_write E e b)) = apply_ops (ops b) (view e)"
  using write_total write_sound by (metis prod.collapse)

lemma write_eq: "eng_write E e b = (Inr (), snd (eng_write E e b))"
  using write_total by (metis prod.collapse)

lemma scan_eq: "\<exists>xs. eng_scan_prefix E e p = map Inr xs \<and> scans (view e) p xs"
  using scan_total scan_sound by metis

lemma compact_eq:
  "eng_compact_range E keep e rng = (Inr (), snd (eng_compact_range E keep e rng))"
  using compact_total by (metis prod.collapse)

lemma compact_view:
  "compacts (\<lambda>k v. \<not> gc_on e \<or> keep k v) (range_or_all rng) (view e)
     (view (snd (eng_compact_range E keep e rng)))"
  using compact_total compact_sound by (metis prod.collapse)

end

end
