(* ===== verification/Rocks.thy ===== *)
theory Rocks
  imports Engine "HOL-Library.AList"
begin

text \<open>
  The RocksDB-backed engine of \<open>crates/gamestore-engine/src/rocks.rs\<close>.  The \<open>rocksdb\<close>
  crate is not part of the repository, so the calls the engine makes into it are the record
  \<open>rocksdb\<close> of functions over a database state, a parameter of every definition here.
  What RocksDB documents about them is the locale \<open>rocksdb_api\<close> (point reads and atomic
  batches, iteration in bytewise key order from the seek key, a compaction filter applied to
  the compacted range); \<open>rocksdb_reliable\<close> adds the absence of I/O errors.  The engine is
  shown to meet the \<open>GeneralEngine\<close> contract in both settings.

  \<open>mem_db\<close> is an association-list database that satisfies the documented behaviour; it
  supplies the concrete inputs of the witnesses.
\<close>

record engine_config =
  cfg_create_if_missing :: bool
  cfg_bloom_bits_per_key :: "f64 option"
  cfg_block_cache_bytes :: "nat option"
  cfg_write_buffer_bytes :: "nat option"
  cfg_rate_limit_bytes_per_sec :: "int option"

text \<open>\<open>10.0\<close> is the bit pattern \<open>0x4024000000000000\<close>.\<close>

definition engine_config_default :: engine_config where
  "engine_config_default =
     \<lparr>cfg_create_if_missing = True,
      cfg_bloom_bits_per_key = Some 0x4024000000000000,
      cfg_block_cache_bytes = Some (64 * 1024 * 1024),
      cfg_write_buffer_bytes = Some (64 * 1024 * 1024),
      cfg_rate_limit_bytes_per_sec = None\<rparr>"

text \<open>The options handed to \<open>DB::open\<close>.\<close>

datatype compaction_style = Level

record rocks_options =
  opt_create_if_missing :: bool
  opt_compaction_style :: "compaction_style option"
  opt_write_buffer_size :: "nat option"
  opt_ratelimiter :: "(int \<times> nat \<times> nat) option"
  opt_block_cache :: "nat option"
  opt_bloom_filter :: "(f64 \<times> bool) option"
  opt_compaction_filter :: "string option"

datatype batch_entry = BatchPut bytes bytes | BatchDelete bytes

record 'd rocksdb =
  db_open :: "rocks_options \<Rightarrow> string \<Rightarrow> string + 'd"
  db_get :: "'d \<Rightarrow> bytes \<Rightarrow> string + bytes option"
  db_write :: "'d \<Rightarrow> batch_entry list \<Rightarrow> (string + unit) \<times> 'd"
  db_iterator :: "'d \<Rightarrow> bytes \<Rightarrow> (string + bytes \<times> bytes) list"
  db_flush :: "'d \<Rightarrow> (string + unit) \<times> 'd"
  db_compact_range_opt :: "gc_predicate \<Rightarrow> 'd \<Rightarrow> bytes option \<Rightarrow> bytes option \<Rightarrow> 'd"
  db_property_int_value :: "'d \<Rightarrow> string \<Rightarrow> string + u64 option"

text \<open>
  \<open>RocksEngine\<close>: the database and the GC slot.  The one predicate ever installed is the
  store's shared version map, so the slot only records whether it is there; what it answers
  comes as an argument of the compaction.
\<close>

record 'd rocks_engine =
  db :: 'd
  gc :: "unit option"

definition rocks_build_options :: "engine_config \<Rightarrow> rocks_options" where
  "rocks_build_options config =
     \<lparr>opt_create_if_missing = cfg_create_if_missing config,
      opt_compaction_style = Some Level,
      opt_write_buffer_size = cfg_write_buffer_bytes config,
      opt_ratelimiter =
        map_option (\<lambda>rate. (rate, 100000, 10)) (cfg_rate_limit_bytes_per_sec config),
      opt_block_cache = cfg_block_cache_bytes config,
      opt_bloom_filter = map_option (\<lambda>bits. (bits, False)) (cfg_bloom_bits_per_key config),
      opt_compaction_filter = Some ''gamestore-subkey-gc''\<rparr>"

definition rocks_open ::
  "'d rocksdb \<Rightarrow> string \<Rightarrow> engine_config \<Rightarrow> engine_error + 'd rocks_engine" where
  "rocks_open D path config =
     (case db_open D (rocks_build_options config) path of
        Inl x \<Rightarrow> Inl (Backend x)
      | Inr d \<Rightarrow> Inr \<lparr>db = d, gc = None\<rparr>)"

text \<open>The compaction-filter trampoline: \<open>True\<close> is \<open>Decision::Keep\<close>.\<close>

definition rocks_filter :: "unit option \<Rightarrow> gc_predicate \<Rightarrow> gc_predicate" where
  "rocks_filter slot pred key val =
     (case slot of Some _ \<Rightarrow> pred key val | None \<Rightarrow> True)"

definition rocks_get :: "'d rocksdb \<Rightarrow> 'd rocks_engine \<Rightarrow> bytes \<Rightarrow> engine_error + bytes option" where
  "rocks_get D e key = (case db_get D (db e) key of Inl x \<Rightarrow> Inl (Backend x) | Inr v \<Rightarrow> Inr v)"

fun to_batch_entry :: "write_op \<Rightarrow> batch_entry" where
  "to_batch_entry (Put k v) = BatchPut k v"
| "to_batch_entry (Delete k) = BatchDelete k"

definition rocks_write ::
  "'d rocksdb \<Rightarrow> 'd rocks_engine \<Rightarrow> write_batch \<Rightarrow> (engine_error + unit) \<times> 'd rocks_engine" where
  "rocks_write D e batch =
     (case db_write D (db e) (map to_batch_entry (ops batch)) of
        (Inl x, d') \<Rightarrow> (Inl (Backend x), e\<lparr>db := d'\<rparr>)
      | (Inr u, d') \<Rightarrow> (Inr u, e\<lparr>db := d'\<rparr>))"

text \<open>\<open>PrefixScan\<close> and its \<open>Iterator::next\<close>; \<open>prefix_scan_collect\<close> drains it.\<close>

record prefix_scan =
  ps_iter :: "(string + bytes \<times> bytes) list"
  ps_prefix :: bytes
  ps_done :: bool

definition prefix_scan_next :: "prefix_scan \<Rightarrow> scan_item option \<times> prefix_scan" where
  "prefix_scan_next s =
     (if ps_done s then (None, s)
      else case ps_iter s of
        [] \<Rightarrow> (None, s)
      | Inr (k, v) # it \<Rightarrow>
          if prefix (ps_prefix s) k then (Some (Inr (k, v)), s\<lparr>ps_iter := it\<rparr>)
          else (None, s\<lparr>ps_iter := it, ps_done := True\<rparr>)
      | Inl x # it \<Rightarrow> (Some (Inl (Backend x)), s\<lparr>ps_iter := it, ps_done := True\<rparr>))"

function prefix_scan_collect :: "prefix_scan \<Rightarrow> scan_item list" where
  "prefix_scan_collect s =
     (case prefix_scan_next s of
        (None, _) \<Rightarrow> []
      | (Some item, s') \<Rightarrow> item # prefix_scan_collect s')"
  by pat_completeness auto
termination
  by (relation "measure (\<lambda>s. if ps_done s then 0 else Suc (length (ps_iter s)))")
    (auto simp: prefix_scan_next_def split: if_splits list.splits sum.splits)

definition rocks_scan_prefix :: "'d rocksdb \<Rightarrow> 'd rocks_engine \<Rightarrow> bytes \<Rightarrow> scan_item list" where
  "rocks_scan_prefix D e pre =
     prefix_scan_collect
       \<lparr>ps_iter = db_iterator D (db e) pre, ps_prefix = pre, ps_done = False\<rparr>"

definition rocks_compact_range ::
  "'d rocksdb \<Rightarrow> gc_predicate \<Rightarrow> 'd rocks_engine \<Rightarrow> key_range option
     \<Rightarrow> (engine_error + unit) \<times> 'd rocks_engine" where
  "rocks_compact_range D pred e rng =
     (case db_flush D (db e) of
        (Inl x, d') \<Rightarrow> (Inl (Backend x), e\<lparr>db := d'\<rparr>)
      | (Inr _, d') \<Rightarrow>
          (let (start, stop) =
                 (case rng of Some r \<Rightarrow> (range_start r, range_end r) | None \<Rightarrow> (None, None))
           in (Inr (), e\<lparr>db := db_compact_range_opt D (rocks_filter (gc e) pred) d' start stop\<rparr>)))"

definition rocks_install_gc :: "'d rocks_engine \<Rightarrow> 'd rocks_engine" where
  "rocks_install_gc e = e\<lparr>gc := Some ()\<rparr>"

definition rocks_props :: "(string \<times> string) list" where
  "rocks_props =
     [(''rocksdb_estimate_num_keys'', ''rocksdb.estimate-num-keys''),
      (''rocksdb_block_cache_usage_bytes'', ''rocksdb.block-cache-usage''),
      (''rocksdb_cur_size_all_mem_tables_bytes'', ''rocksdb.cur-size-all-mem-tables''),
      (''rocksdb_total_sst_files_size_bytes'', ''rocksdb.total-sst-files-size''),
      (''rocksdb_estimate_pending_compaction_bytes'', ''rocksdb.estimate-pending-compaction-bytes''),
      (''rocksdb_num_running_compactions'', ''rocksdb.num-running-compactions''),
      (''rocksdb_num_running_flushes'', ''rocksdb.num-running-flushes''),
      (''rocksdb_actual_delayed_write_rate'', ''rocksdb.actual-delayed-write-rate''),
      (''rocksdb_is_write_stopped'', ''rocksdb.is-write-stopped'')]"

definition rocks_stats :: "'d rocksdb \<Rightarrow> 'd rocks_engine \<Rightarrow> (string \<times> u64) list" where
  "rocks_stats D e =
     List.map_filter
       (\<lambda>(name, prop). case db_property_int_value D (db e) prop of
            Inl _ \<Rightarrow> None
          | Inr v \<Rightarrow> map_option (\<lambda>x. (name, x)) v) rocks_props"

text \<open>\<open>impl GeneralEngine for RocksEngine\<close>.\<close>

definition rocks :: "'d rocksdb \<Rightarrow> 'd rocks_engine engine_ops" where
  "rocks D =
     \<lparr>eng_get = rocks_get D, eng_write = rocks_write D, eng_scan_prefix = rocks_scan_prefix D,
      eng_compact_range = rocks_compact_range D, eng_install_gc = rocks_install_gc,
      eng_stats = rocks_stats D\<rparr>"

subsection \<open>What RocksDB documents\<close>

fun apply_entry :: "batch_entry \<Rightarrow> kv \<Rightarrow> kv" where
  "apply_entry (BatchPut k v) m = m(k \<mapsto> v)"
| "apply_entry (BatchDelete k) m = m(k := None)"

definition lists_from :: "kv \<Rightarrow> bytes \<Rightarrow> (bytes \<times> bytes) list \<Rightarrow> bool" where
  "lists_from m from xs \<longleftrightarrow>
     sorted_wrt (<) (map fst xs) \<and> set xs = {(k, v). m k = Some v \<and> from \<le> k}"

locale rocksdb_api =
  fixes D :: "'d rocksdb" and contents :: "'d \<Rightarrow> kv"
  assumes contents_finite: "finite (dom (contents d))"
    and db_get_sound: "db_get D d k = Inr res \<Longrightarrow> res = contents d k"
    and db_write_ok: "db_write D d es = (Inr u, d') \<Longrightarrow> contents d' = fold apply_entry es (contents d)"
    and db_write_failed: "db_write D d es = (Inl x, d') \<Longrightarrow> contents d' = contents d"
    and db_iterator_sorted: "\<exists>zs. lists_from (contents d) from zs \<and>
      (db_iterator D d from = map Inr zs
       \<or> (\<exists>n x rest. db_iterator D d from = map Inr (take n zs) @ Inl x # rest))"
    and db_flush_contents: "contents (snd (db_flush D d)) = contents d"
    and db_compact_filter:
      "compacts keep \<lparr>range_start = a, range_end = b\<rparr> (contents d)
         (contents (db_compact_range_opt D keep d a b))"

locale rocksdb_reliable = rocksdb_api +
  assumes db_get_total: "\<exists>res. db_get D d k = Inr res"
    and db_write_total: "\<exists>d'. db_write D d es = (Inr (), d')"
    and db_iterator_total: "\<exists>zs. db_iterator D d from = map Inr zs"
    and db_flush_total: "\<exists>d'. db_flush D d = (Inr (), d')"

subsection \<open>The engine meets the contract\<close>

declare prefix_scan_collect.simps [simp del]

lemma prefix_scan_collect_Nil:
  "prefix_scan_collect \<lparr>ps_iter = [], ps_prefix = p, ps_done = False\<rparr> = []"
  by (subst prefix_scan_collect.simps) (simp add: prefix_scan_next_def)

lemma prefix_scan_collect_done:
  "prefix_scan_collect \<lparr>ps_iter = it, ps_prefix = p, ps_done = True\<rparr> = []"
  by (subst prefix_scan_collect.simps) (simp add: prefix_scan_next_def)

lemma prefix_scan_collect_Inl:
  "prefix_scan_collect \<lparr>ps_iter = Inl x # it, ps_prefix = p, ps_done = False\<rparr> = [Inl (Backend x)]"
  by (subst prefix_scan_collect.simps) (simp add: prefix_scan_next_def prefix_scan_collect_done)

lemma prefix_scan_collect_Inr:
  "prefix_scan_collect \<lparr>ps_iter = Inr (k, v) # it, ps_prefix = p, ps_done = False\<rparr>
    = (if prefix p k
       then Inr (k, v) # prefix_scan_collect \<lparr>ps_iter = it, ps_prefix = p, ps_done = False\<rparr> else [])"
  by (subst prefix_scan_collect.simps) (simp add: prefix_scan_next_def)

lemmas prefix_scan_collect_simps =
  prefix_scan_collect_Nil prefix_scan_collect_Inl prefix_scan_collect_Inr

lemma collect_all_ok:
  "prefix_scan_collect \<lparr>ps_iter = map Inr zs, ps_prefix = p, ps_done = False\<rparr>
     = map Inr (takeWhile (\<lambda>(k, v). prefix p k) zs)"
  by (induction zs) (auto simp: prefix_scan_collect_simps)

lemma collect_until_error:
  "prefix_scan_collect \<lparr>ps_iter = map Inr zs @ Inl x # it, ps_prefix = p, ps_done = False\<rparr>
     = (if \<forall>(k, v) \<in> set zs. prefix p k then map Inr zs @ [Inl (Backend x)]
        else map Inr (takeWhile (\<lambda>(k, v). prefix p k) zs))"
  by (induction zs) (auto simp: prefix_scan_collect_simps)

lemma takeWhile_take_if_stops:
  "\<not> (\<forall>x \<in> set (take n zs). P x) \<Longrightarrow> takeWhile P (take n zs) = takeWhile P zs"
  by (metis append_take_drop_id takeWhile_append1)

lemma scans_takeWhile:
  assumes "lists_from m p zs"
  shows "scans m p (takeWhile (\<lambda>(k, v). prefix p k) zs)"
proof -
  have srt: "sorted_wrt (<) (map fst zs)" and st: "set zs = {(k, v). m k = Some v \<and> p \<le> k}"
    using assms by (auto simp: lists_from_def)
  have "set (takeWhile (\<lambda>(k, v). prefix p k) zs) = {(k, v). (k, v) \<in> set zs \<and> prefix p k}"
    using srt st
  proof (induction zs arbitrary: m)
    case Nil
    then show ?case by simp
  next
    case (Cons z zs)
    obtain k v where z: "z = (k, v)" by (cases z)
    show ?case
    proof (cases "prefix p k")
      case True
      let ?m = "m(k := None)"
      have "k \<notin> fst ` set zs" using Cons.prems(1) z by auto
      then have "set zs = {(k, v). ?m k = Some v \<and> p \<le> k}"
        using Cons.prems(2) z by (auto split: if_splits) force+
      with Cons.IH [of ?m] Cons.prems(1) z True show ?thesis by auto
    next
      case False
      have "p \<le> k" using Cons.prems(2) z by auto
      have "\<not> prefix p k'" if "(k', v') \<in> set (z # zs)" for k' v'
      proof -
        have "k \<le> k'" using that Cons.prems(1) z by auto
        then show ?thesis using prefix_contiguous [OF \<open>p \<le> k\<close> False] by simp
      qed
      with False z show ?thesis by auto
    qed
  qed
  moreover have "sorted_wrt (<) (map fst (takeWhile (\<lambda>(k, v). prefix p k) zs))"
    using srt by (metis sorted_wrt_map sorted_wrt_append takeWhile_dropWhile_id)
  ultimately show ?thesis
    using st prefix_imp_le by (auto simp: scans_def)
qed

lemma fold_apply_entry: "fold apply_entry (map to_batch_entry os) m = apply_ops os m"
proof (induction os arbitrary: m)
  case Nil
  then show ?case by simp
next
  case (Cons x os)
  then show ?case by (cases x) (simp_all add: fun_upd_def)
qed

lemma key_range_eta [simp]: "\<lparr>range_start = range_start r, range_end = range_end r\<rparr> = r"
  by simp

lemma rocks_filter_eq: "rocks_filter slot pred = (\<lambda>k v. \<not> slot \<noteq> None \<or> pred k v)"
  by (auto simp: rocks_filter_def fun_eq_iff split: option.splits)

context rocksdb_api
begin

lemma rocks_scan_sound:
  assumes "rocks_scan_prefix D e p = map Inr xs"
  shows "scans (contents (db e)) p xs"
proof -
  obtain zs where zs: "lists_from (contents (db e)) p zs"
    and it: "db_iterator D (db e) p = map Inr zs
      \<or> (\<exists>n x rest. db_iterator D (db e) p = map Inr (take n zs) @ Inl x # rest)"
    using db_iterator_sorted by blast
  have "map Inr xs = (map Inr (takeWhile (\<lambda>(k, v). prefix p k) zs) :: scan_item list)"
  proof (cases "db_iterator D (db e) p = map Inr zs")
    case True
    then show ?thesis using assms by (simp add: rocks_scan_prefix_def collect_all_ok)
  next
    case False
    with it obtain n x rest where "db_iterator D (db e) p = map Inr (take n zs) @ Inl x # rest"
      by blast
    moreover have "map Inr (take n zs) @ [Inl y] \<noteq> map Inr xs" for y :: engine_error
      by (metis Inl_Inr_False append_is_Nil_conv last_map last_snoc list.map_disc_iff not_Cons_self2)
    ultimately show ?thesis
      using assms takeWhile_take_if_stops [of n zs "\<lambda>(k, v). prefix p k"]
      by (auto simp: rocks_scan_prefix_def collect_until_error split: if_splits)
  qed
  then have "xs = takeWhile (\<lambda>(k, v). prefix p k) zs"
    by (simp add: inj_map_eq_map inj_def)
  then show ?thesis using scans_takeWhile [OF zs] by simp
qed

end

sublocale rocksdb_api \<subseteq> rocks_general: general_engine "rocks D" "\<lambda>e. contents (db e)" "\<lambda>e. gc e \<noteq> None"
proof (unfold_locales, goal_cases)
  case 1
  show ?case by (rule contents_finite)
next
  case (2 e k res)
  then show ?case
    by (auto simp: rocks_def rocks_get_def split: sum.splits dest: db_get_sound)
next
  case (3 e b e')
  then show ?case
    by (auto simp: rocks_def rocks_write_def fold_apply_entry split: prod.splits sum.splits
        dest: db_write_ok)
next
  case (4 e b x e')
  then show ?case
    by (auto simp: rocks_def rocks_write_def split: prod.splits sum.splits dest: db_write_failed)
next
  case (5 e b)
  then show ?case by (simp add: rocks_def rocks_write_def split: prod.splits sum.splits)
next
  case (6 e p xs)
  then show ?case by (simp add: rocks_def rocks_scan_sound)
next
  case (7 keep e rng e')
  have "contents d' = contents (db e)" if "db_flush D (db e) = (r, d')" for r d'
    using db_flush_contents [of "db e"] that by simp
  moreover have "compacts (\<lambda>k v. \<not> gc e \<noteq> None \<or> keep k v) r (contents d)
      (contents (db_compact_range_opt D (rocks_filter (gc e) keep) d (range_start r) (range_end r)))"
    for r d
    using db_compact_filter [of "rocks_filter (gc e) keep" "range_start r" "range_end r" d]
    by (simp add: rocks_filter_eq)
  from this [of "range_or_all rng"]
  have "compacts (\<lambda>k v. \<not> gc e \<noteq> None \<or> keep k v) (range_or_all rng) (contents d)
      (contents (db_compact_range_opt D (rocks_filter (gc e) keep) d
        (range_start (range_or_all rng)) (range_end (range_or_all rng))))" for d
    .
  ultimately show ?case
    using 7 by (auto simp: rocks_def rocks_compact_range_def range_or_all_def range_default_def
        split: prod.splits sum.splits option.splits) metis+
next
  case (8 keep e rng x e')
  have "contents d' = contents (db e)" if "db_flush D (db e) = (r, d')" for r d'
    using db_flush_contents [of "db e"] that by simp
  then show ?case
    using 8
    by (auto simp: rocks_def rocks_compact_range_def Let_def split: prod.splits sum.splits)
next
  case (9 keep e rng)
  show ?case
    by (simp add: rocks_def rocks_compact_range_def Let_def split: prod.splits sum.splits)
next
  case (10 e)
  show ?case by (simp add: rocks_def rocks_install_gc_def)
next
  case (11 e)
  show ?case by (simp add: rocks_def rocks_install_gc_def)
qed

sublocale rocksdb_reliable \<subseteq> rocks_rel: reliable_engine "rocks D" "\<lambda>e. contents (db e)" "\<lambda>e. gc e \<noteq> None"
proof (unfold_locales, goal_cases)
  case (1 e k)
  show ?case using db_get_total [of "db e" k] by (auto simp: rocks_def rocks_get_def)
next
  case (2 e b)
  show ?case
    using db_write_total [of "db e" "map to_batch_entry (ops b)"]
    by (auto simp: rocks_def rocks_write_def)
next
  case (3 e p)
  obtain zs where "db_iterator D (db e) p = map Inr zs" using db_iterator_total by blast
  then show ?case by (auto simp: rocks_def rocks_scan_prefix_def collect_all_ok)
next
  case (4 keep e rng)
  show ?case
    using db_flush_total [of "db e"]
    by (auto simp: rocks_def rocks_compact_range_def split: prod.splits)
qed

context rocksdb_reliable
begin

lemma engine_contract:
  "reliable_engine (rocks D) (\<lambda>e. contents (db e)) (\<lambda>e. gc e \<noteq> None)"
  by unfold_locales

end

context rocksdb_api
begin

lemma engine_contract_with_failures:
  "general_engine (rocks D) (\<lambda>e. contents (db e)) (\<lambda>e. gc e \<noteq> None)"
  by unfold_locales

end

subsection \<open>An in-memory database with the documented behaviour\<close>

type_synonym mem = "(bytes \<times> bytes) list"

fun mem_entry :: "batch_entry \<Rightarrow> mem \<Rightarrow> mem" where
  "mem_entry (BatchPut k v) d = AList.update k v d"
| "mem_entry (BatchDelete k) d = AList.delete k d"

definition mem_list_from :: "mem \<Rightarrow> bytes \<Rightarrow> (bytes \<times> bytes) list" where
  "mem_list_from d from =
     map (\<lambda>k. (k, the (map_of d k))) (sort (remdups (filter (\<lambda>k. from \<le> k) (map fst d))))"

definition mem_db :: "mem rocksdb" where
  "mem_db =
     \<lparr>db_open = (\<lambda>_ _. Inr []),
      db_get = (\<lambda>d k. Inr (map_of d k)),
      db_write = (\<lambda>d es. (Inr (), fold mem_entry es d)),
      db_iterator = (\<lambda>d from. map Inr (mem_list_from d from)),
      db_flush = (\<lambda>d. (Inr (), d)),
      db_compact_range_opt = (\<lambda>keep d a b. filter (\<lambda>(k, v). keep k (the (map_of d k))) d),
      db_property_int_value = (\<lambda>_ _. Inr None)\<rparr>"

lemma map_of_mem_entry: "map_of (mem_entry x d) = apply_entry x (map_of d)"
  by (cases x) (auto simp: AList.update_conv' AList.delete_conv')

lemma map_of_fold_mem_entry: "map_of (fold mem_entry es d) = fold apply_entry es (map_of d)"
  by (induction es arbitrary: d) (simp_all add: map_of_mem_entry)

lemma lists_from_mem: "lists_from (map_of d) from (mem_list_from d from)"
proof -
  have "set (mem_list_from d from) = {(k, v). map_of d k = Some v \<and> from \<le> k}"
    by (auto simp: mem_list_from_def image_iff map_of_eq_None_iff dest: map_of_SomeD)
      (force simp: weak_map_of_SomeI dest: map_of_SomeD)+
  moreover have "sorted_wrt (<) (map fst (mem_list_from d from))"
    by (simp add: mem_list_from_def comp_def strict_sorted_iff)
  ultimately show ?thesis by (simp add: lists_from_def)
qed

lemma map_of_filter_key:
  "map_of (filter (\<lambda>(k, v). P k) d) k = (if P k then map_of d k else None)"
  by (induction d) auto

interpretation mem: rocksdb_reliable mem_db map_of
proof (unfold_locales, goal_cases)
  case (3 d es u d')
  then show ?case by (auto simp: mem_db_def map_of_fold_mem_entry)
next
  case (5 d p)
  show ?case using lists_from_mem by (auto simp: mem_db_def)
next
  case (7 keep a b d)
  show ?case
    using map_of_filter_key [of "\<lambda>k. keep k (the (map_of d k))" d]
    by (auto simp: compacts_def mem_db_def map_le_def dom_def split: if_splits)
qed (auto simp: mem_db_def finite_dom_map_of)

subsection \<open>Properties of the engine\<close>

text \<open>C22: Over a RocksDB that behaves as documented, \<open>RocksEngine\<close> implements the \<open>GeneralEngine\<close>
  contract: point reads, atomic batches, prefix scans that return exactly the records under the
  prefix in key order (although the underlying iterator runs on past it), and compactions that
  drop exactly what the installed predicate rejects.\<close>

theorem rocks_refines_general_engine:
  "(rocksdb_api D contents \<longrightarrow>
      general_engine (rocks D) (\<lambda>e. contents (db e)) (\<lambda>e. gc e \<noteq> None))
    \<and> (rocksdb_reliable D contents \<longrightarrow>
      reliable_engine (rocks D) (\<lambda>e. contents (db e)) (\<lambda>e. gc e \<noteq> None))"
  using rocksdb_api.engine_contract_with_failures rocksdb_reliable.engine_contract by blast

theorem rocks_refines_general_engine_witness:
  "rocksdb_reliable mem_db map_of
    \<and> reliable_engine (rocks mem_db) (\<lambda>e. map_of (db e)) (\<lambda>e. gc e \<noteq> None)"
  using rocks_refines_general_engine [of mem_db map_of] mem.rocksdb_reliable_axioms by blast

text \<open>C27: Draining a \<open>PrefixScan\<close> yields the records of the iterator up to the first key outside the
  prefix, or up to and including the first iterator error, and nothing after it.\<close>

theorem prefix_scan_drains:
  "prefix_scan_collect \<lparr>ps_iter = map Inr zs @ rest, ps_prefix = p, ps_done = False\<rparr>
    = (if \<forall>kv \<in> set zs. prefix p (fst kv)
       then map Inr zs
         @ prefix_scan_collect \<lparr>ps_iter = rest, ps_prefix = p, ps_done = False\<rparr>
       else map Inr (takeWhile (\<lambda>kv. prefix p (fst kv)) zs))
    \<and> prefix_scan_collect \<lparr>ps_iter = Inl x # rest, ps_prefix = p, ps_done = False\<rparr>
      = [Inl (Backend x)]"
proof (induction zs)
  case (Cons z zs)
  then show ?case by (cases z; cases "prefix p (fst z)") (auto simp: prefix_scan_collect_simps)
qed (simp add: prefix_scan_collect_simps)

theorem prefix_scan_drains_witness:
  "prefix_scan_collect \<lparr>ps_iter = map Inr [([1], [9]), ([2], [8])] @ [], ps_prefix = [1], ps_done = False\<rparr>
    = [Inr ([1], [9])]"
  using prefix_scan_drains [of "[([1], [9]), ([2], [8])]" "[]" "[1]"] by simp

end
