(* ===== verification/Store.thy ===== *)
theory Store
  imports Rocks
begin

text \<open>
  The Redis data model of \<open>crates/gamestore-engine/src/store.rs\<close> over any engine.  A store
  is the engine state, the shared version map, the process-wide \<open>VERSION_CLOCK\<close> and the
  readings the wall clock will give (\<open>time n\<close> is the \<open>n\<close>-th reading from now, in microseconds
  since the epoch): every call of \<open>now_ms\<close> or \<open>now_micros\<close> consumes one reading, so the code may see a different time
  at each call and nothing is assumed about the clock unless a theorem says so.

  An operation is a function from the store to a \<open>Result\<close> and the new store; \<open>try_then\<close>
  is \<open>?\<close>, and every early return of the Rust code is a branch.
\<close>

record 'e store =
  engine :: 'e
  versions :: version_map
  version_clock :: u64
  time :: "nat \<Rightarrow> nat"

type_synonym ('e, 'a) sop = "'e store \<Rightarrow> (engine_error + 'a) \<times> 'e store"

subsection \<open>Clocks\<close>

definition now_ms :: "'e store \<Rightarrow> u64 \<times> 'e store" where
  "now_ms s = (of_nat (time s 0 div 1000), s\<lparr>time := (\<lambda>n. time s (Suc n))\<rparr>)"

definition now_micros :: "'e store \<Rightarrow> u64 \<times> 'e store" where
  "now_micros s = (of_nat (time s 0), s\<lparr>time := (\<lambda>n. time s (Suc n))\<rparr>)"

text \<open>
  One uncontended turn of the compare-exchange loop; \<open>Version_Clock\<close> treats the loop under
  interference from other threads.
\<close>

definition version_candidate :: "u64 \<Rightarrow> u64 \<Rightarrow> u64" where
  "version_candidate prev now = max (prev + 1) now"

definition next_version :: "'e store \<Rightarrow> u64 \<times> 'e store" where
  "next_version s =
     (let prev = version_clock s; (now, s') = now_micros s;
          candidate = version_candidate prev now
      in (candidate, s'\<lparr>version_clock := candidate\<rparr>))"

definition infallible :: "('s \<Rightarrow> 'a \<times> 's) \<Rightarrow> 's \<Rightarrow> ('r + 'a) \<times> 's" where
  "infallible f s = (case f s of (x, s') \<Rightarrow> (Inr x, s'))"

subsection \<open>Helpers\<close>

definition decode_stored_score :: "bytes \<Rightarrow> ('e, f64) sop" where
  "decode_stored_score raw =
     (if length raw = 8 then ok (decode_score raw)
      else fail (Corruption ''undecodable zset member score''))"

definition normalize_range :: "int \<Rightarrow> int \<Rightarrow> int \<Rightarrow> (nat \<times> nat) option" where
  "normalize_range start stop len =
     (if len \<le> 0 then None
      else
        let lo = max (if start < 0 then start + len else start) 0;
            hi = min (if stop < 0 then stop + len else stop) (len - 1)
        in if lo > hi then None else Some (nat lo, nat hi))"

definition sat_dec :: "u32 \<Rightarrow> u32" where
  "sat_dec n = (if n = 0 then 0 else n - 1)"

definition engine_get :: "'e engine_ops \<Rightarrow> bytes \<Rightarrow> ('e, bytes option) sop" where
  "engine_get E key s = (eng_get E (engine s) key, s)"

definition engine_write :: "'e engine_ops \<Rightarrow> write_batch \<Rightarrow> ('e, unit) sop" where
  "engine_write E batch s =
     (case eng_write E (engine s) batch of (r, e') \<Rightarrow> (r, s\<lparr>engine := e'\<rparr>))"

text \<open>The loop \<open>for item in scan { let (k, v) = item?; acc = f k v acc }\<close>.\<close>

primrec for_items :: "(bytes \<Rightarrow> bytes \<Rightarrow> 'a \<Rightarrow> 'a) \<Rightarrow> scan_item list \<Rightarrow> 'a \<Rightarrow> engine_error + 'a" where
  "for_items f [] acc = Inr acc"
| "for_items f (item # items) acc =
     (case item of Inl e \<Rightarrow> Inl e | Inr (k, v) \<Rightarrow> for_items f items (f k v acc))"

definition engine_for ::
  "'e engine_ops \<Rightarrow> bytes \<Rightarrow> (bytes \<Rightarrow> bytes \<Rightarrow> 'a \<Rightarrow> 'a) \<Rightarrow> 'a \<Rightarrow> ('e, 'a) sop" where
  "engine_for E pre f acc s = (for_items f (eng_scan_prefix E (engine s) pre) acc, s)"

subsection \<open>Opening\<close>

definition rebuild_step :: "bytes \<Rightarrow> bytes \<Rightarrow> version_map \<Rightarrow> version_map" where
  "rebuild_step k v vm =
     (if k = [] \<or> k ! 0 \<noteq> META_PREFIX then vm
      else case meta_decode v of
        None \<Rightarrow> vm
      | Some m \<Rightarrow>
          if type_id m \<in> {TYPE_HASH, TYPE_SET, TYPE_ZSET, TYPE_LIST}
          then vm_set (drop 1 k) (version m) vm else vm)"

definition rebuild_version_map :: "'e engine_ops \<Rightarrow> ('e, unit) sop" where
  "rebuild_version_map E s =
     (let vm0 = vm_clear (versions s)
      in case for_items rebuild_step (eng_scan_prefix E (engine s) [META_PREFIX]) vm0 of
           Inl e \<Rightarrow> (Inl e, s\<lparr>versions := vm0\<rparr>)
         | Inr vm \<Rightarrow> (Inr (), s\<lparr>versions := vm\<rparr>))"

text \<open>\<open>Store::with_engine\<close>; the static clock and the future time readings are the process's.\<close>

definition with_engine ::
  "'e engine_ops \<Rightarrow> 'e \<Rightarrow> u64 \<Rightarrow> (nat \<Rightarrow> nat) \<Rightarrow> engine_error + 'e store" where
  "with_engine E e clock readings =
     (let s = \<lparr>engine = eng_install_gc E e, versions = vm_new,
               version_clock = clock, time = readings\<rparr>
      in case rebuild_version_map E s of
           (Inl x, _) \<Rightarrow> Inl x
         | (Inr _, s') \<Rightarrow> Inr s')"

definition store_open ::
  "'d rocksdb \<Rightarrow> string \<Rightarrow> engine_config \<Rightarrow> u64 \<Rightarrow> (nat \<Rightarrow> nat)
     \<Rightarrow> engine_error + 'd rocks_engine store" where
  "store_open D path config clock readings =
     (case rocks_open D path config of
        Inl x \<Rightarrow> Inl x
      | Inr e \<Rightarrow> with_engine (rocks D) e clock readings)"

subsection \<open>Metadata access\<close>

definition load_meta :: "'e engine_ops \<Rightarrow> bytes \<Rightarrow> ('e, meta option) sop" where
  "load_meta E user_key =
     try_then (engine_get E (meta_key user_key)) (\<lambda>r. case r of
        Some raw \<Rightarrow>
          (case meta_decode raw of
             None \<Rightarrow> fail (Corruption ''undecodable metadata record'')
           | Some m \<Rightarrow> ok (Some m))
      | None \<Rightarrow> ok None)"

definition logical_delete :: "'e engine_ops \<Rightarrow> bytes \<Rightarrow> ('e, unit) sop" where
  "logical_delete E user_key =
     try_then (engine_write E (batch_delete (meta_key user_key) batch_new))
       (\<lambda>_ s. ok () (s\<lparr>versions := vm_remove user_key (versions s)\<rparr>))"

definition load_live_meta :: "'e engine_ops \<Rightarrow> bytes \<Rightarrow> ('e, meta option) sop" where
  "load_live_meta E user_key =
     try_then (load_meta E user_key) (\<lambda>r s. case r of
        None \<Rightarrow> ok None s
      | Some m \<Rightarrow>
          if expire_ms m \<noteq> 0 then
            (let (now, s') = now_ms s
             in if expire_ms m \<le> now
                then try_then (logical_delete E user_key) (\<lambda>_. ok None) s'
                else ok (Some m) s')
          else ok (Some m) s)"

definition load_typed :: "'e engine_ops \<Rightarrow> bytes \<Rightarrow> byte \<Rightarrow> ('e, meta option) sop" where
  "load_typed E user_key ty =
     try_then (load_live_meta E user_key) (\<lambda>r. case r of
        Some m \<Rightarrow> if type_id m = ty then ok (Some m) else fail WrongType
      | None \<Rightarrow> ok None)"

definition new_composite_meta :: "bytes \<Rightarrow> byte \<Rightarrow> 'e store \<Rightarrow> meta \<times> 'e store" where
  "new_composite_meta user_key ty s =
     (let (ver, s') = next_version s
      in (\<lparr>type_id = ty, version = ver, expire_ms = 0, payload = []\<rparr>,
          s'\<lparr>versions := vm_set user_key ver (versions s')\<rparr>))"

definition put_meta :: "'e engine_ops \<Rightarrow> bytes \<Rightarrow> meta \<Rightarrow> ('e, unit) sop" where
  "put_meta E user_key m = engine_write E (batch_put (meta_key user_key) (meta_encode m) batch_new)"

subsection \<open>String\<close>

definition store_set :: "'e engine_ops \<Rightarrow> bytes \<Rightarrow> bytes \<Rightarrow> u64 \<Rightarrow> ('e, unit) sop" where
  "store_set E key val exp s =
     (let s1 = s\<lparr>versions := vm_remove key (versions s)\<rparr>;
          (ver, s2) = next_version s1;
          m = \<lparr>type_id = TYPE_STRING, version = ver, expire_ms = exp, payload = val\<rparr>
      in put_meta E key m s2)"

definition store_get :: "'e engine_ops \<Rightarrow> bytes \<Rightarrow> ('e, bytes option) sop" where
  "store_get E key =
     try_then (load_live_meta E key) (\<lambda>r. case r of
        None \<Rightarrow> ok None
      | Some m \<Rightarrow> if type_id m \<noteq> TYPE_STRING then fail WrongType else ok (Some (payload m)))"

subsection \<open>Generic\<close>

definition store_exists :: "'e engine_ops \<Rightarrow> bytes \<Rightarrow> ('e, bool) sop" where
  "store_exists E key = try_then (load_live_meta E key) (\<lambda>r. ok (r \<noteq> None))"

definition type_of :: "'e engine_ops \<Rightarrow> bytes \<Rightarrow> ('e, string) sop" where
  "type_of E key =
     try_then (load_live_meta E key) (\<lambda>r. ok (case r of
        Some m \<Rightarrow>
          if type_id m = TYPE_STRING then ''string''
          else if type_id m = TYPE_HASH then ''hash''
          else if type_id m = TYPE_SET then ''set''
          else if type_id m = TYPE_ZSET then ''zset''
          else if type_id m = TYPE_LIST then ''list''
          else ''none''
      | None \<Rightarrow> ''none''))"

definition store_del :: "'e engine_ops \<Rightarrow> bytes \<Rightarrow> ('e, bool) sop" where
  "store_del E key =
     try_then (load_live_meta E key) (\<lambda>r.
       if r \<noteq> None then try_then (logical_delete E key) (\<lambda>_. ok True) else ok False)"

definition expire_at :: "'e engine_ops \<Rightarrow> bytes \<Rightarrow> u64 \<Rightarrow> ('e, bool) sop" where
  "expire_at E key expire_at_ms =
     try_then (load_live_meta E key) (\<lambda>r. case r of
        Some m \<Rightarrow> try_then (put_meta E key (m\<lparr>expire_ms := expire_at_ms\<rparr>)) (\<lambda>_. ok True)
      | None \<Rightarrow> ok False)"

definition pttl :: "'e engine_ops \<Rightarrow> bytes \<Rightarrow> ('e, int) sop" where
  "pttl E key =
     try_then (load_live_meta E key) (\<lambda>r s. case r of
        None \<Rightarrow> ok (- 2) s
      | Some m \<Rightarrow>
          if expire_ms m = 0 then ok (- 1) s
          else let (now, s') = now_ms s
               in ok (sint (if now \<le> expire_ms m then expire_ms m - now else 0)) s')"

subsection \<open>Hash\<close>

text \<open>The common head of \<open>hset\<close>, \<open>sadd\<close> and \<open>zadd\<close>: the live metadata, or fresh metadata with count 0.\<close>

definition load_or_new_counted :: "'e engine_ops \<Rightarrow> bytes \<Rightarrow> byte \<Rightarrow> ('e, meta) sop" where
  "load_or_new_counted E key ty =
     try_then (load_typed E key ty) (\<lambda>r. case r of
        Some m \<Rightarrow> ok m
      | None \<Rightarrow> try_then (infallible (new_composite_meta key ty)) (\<lambda>m. ok (set_field_count 0 m)))"

primrec hset_loop ::
  "'e engine_ops \<Rightarrow> bytes \<Rightarrow> u64 \<Rightarrow> (bytes \<times> bytes) list \<Rightarrow> u32 \<Rightarrow> int \<Rightarrow> write_batch
     \<Rightarrow> ('e, u32 \<times> int \<times> write_batch) sop" where
  "hset_loop E key ver [] fc created batch = ok (fc, created, batch)"
| "hset_loop E key ver (p # ps) fc created batch =
     (let sk = subkey key ver (fst p)
      in try_then (engine_get E sk) (\<lambda>r.
           if r \<noteq> None then hset_loop E key ver ps fc created (batch_put sk (snd p) batch)
           else hset_loop E key ver ps (fc + 1) (created + 1) (batch_put sk (snd p) batch)))"

definition hset :: "'e engine_ops \<Rightarrow> bytes \<Rightarrow> (bytes \<times> bytes) list \<Rightarrow> ('e, int) sop" where
  "hset E key pairs =
     try_then (load_or_new_counted E key TYPE_HASH) (\<lambda>m.
     try_then (hset_loop E key (version m) pairs (field_count m) 0 batch_new) (\<lambda>(fc, created, batch).
     try_then (engine_write E (batch_put (meta_key key) (meta_encode (set_field_count fc m)) batch))
       (\<lambda>_. ok created)))"

definition hget :: "'e engine_ops \<Rightarrow> bytes \<Rightarrow> bytes \<Rightarrow> ('e, bytes option) sop" where
  "hget E key field =
     try_then (load_typed E key TYPE_HASH) (\<lambda>r. case r of
        None \<Rightarrow> ok None
      | Some m \<Rightarrow> engine_get E (subkey key (version m) field))"

definition hgetall :: "'e engine_ops \<Rightarrow> bytes \<Rightarrow> ('e, (bytes \<times> bytes) list) sop" where
  "hgetall E key =
     try_then (load_typed E key TYPE_HASH) (\<lambda>r. case r of
        None \<Rightarrow> ok []
      | Some m \<Rightarrow>
          (let pre = subkey_prefix key (version m)
           in engine_for E pre (\<lambda>k v out. out @ [(drop (length pre) k, v)]) []))"

primrec hdel_loop ::
  "'e engine_ops \<Rightarrow> bytes \<Rightarrow> u64 \<Rightarrow> bytes list \<Rightarrow> u32 \<Rightarrow> int \<Rightarrow> write_batch
     \<Rightarrow> ('e, u32 \<times> int \<times> write_batch) sop" where
  "hdel_loop E key ver [] fc removed batch = ok (fc, removed, batch)"
| "hdel_loop E key ver (f # fs) fc removed batch =
     (let sk = subkey key ver f
      in try_then (engine_get E sk) (\<lambda>r.
           if r \<noteq> None
           then hdel_loop E key ver fs (sat_dec fc) (removed + 1) (batch_delete sk batch)
           else hdel_loop E key ver fs fc removed batch))"

text \<open>The common tail of \<open>hdel\<close>, \<open>srem\<close> and \<open>zrem\<close>.\<close>

definition finish_removal ::
  "'e engine_ops \<Rightarrow> bytes \<Rightarrow> meta \<Rightarrow> u32 \<Rightarrow> int \<Rightarrow> write_batch \<Rightarrow> ('e, int) sop" where
  "finish_removal E key m fc removed batch =
     (if removed > 0 then
        if fc = 0 then
          try_then (engine_write E batch) (\<lambda>_.
          try_then (logical_delete E key) (\<lambda>_. ok removed))
        else
          try_then (engine_write E (batch_put (meta_key key) (meta_encode (set_field_count fc m)) batch))
            (\<lambda>_. ok removed)
      else ok removed)"

definition hdel :: "'e engine_ops \<Rightarrow> bytes \<Rightarrow> bytes list \<Rightarrow> ('e, int) sop" where
  "hdel E key fs =
     try_then (load_typed E key TYPE_HASH) (\<lambda>r. case r of
        None \<Rightarrow> ok 0
      | Some m \<Rightarrow>
          try_then (hdel_loop E key (version m) fs (field_count m) 0 batch_new)
            (\<lambda>(fc, removed, batch). finish_removal E key m fc removed batch))"

definition load_count :: "'e engine_ops \<Rightarrow> bytes \<Rightarrow> byte \<Rightarrow> ('e, int) sop" where
  "load_count E key ty =
     try_then (load_typed E key ty) (\<lambda>r. ok (case r of None \<Rightarrow> 0 | Some m \<Rightarrow> uint (field_count m)))"

definition hlen :: "'e engine_ops \<Rightarrow> bytes \<Rightarrow> ('e, int) sop" where
  "hlen E key = load_count E key TYPE_HASH"

definition hexists :: "'e engine_ops \<Rightarrow> bytes \<Rightarrow> bytes \<Rightarrow> ('e, bool) sop" where
  "hexists E key field = try_then (hget E key field) (\<lambda>r. ok (r \<noteq> None))"

subsection \<open>Set\<close>

primrec sadd_loop ::
  "'e engine_ops \<Rightarrow> bytes \<Rightarrow> u64 \<Rightarrow> bytes list \<Rightarrow> bytes set \<Rightarrow> u32 \<Rightarrow> int \<Rightarrow> write_batch
     \<Rightarrow> ('e, u32 \<times> int \<times> write_batch) sop" where
  "sadd_loop E key ver [] seen count added batch = ok (count, added, batch)"
| "sadd_loop E key ver (x # xs) seen count added batch =
     (if x \<in> seen then sadd_loop E key ver xs seen count added batch
      else
        let sk = subkey key ver x
        in try_then (engine_get E sk) (\<lambda>r.
             if r = None
             then sadd_loop E key ver xs (insert x seen) (count + 1) (added + 1) (batch_put sk [] batch)
             else sadd_loop E key ver xs (insert x seen) count added batch))"

definition sadd :: "'e engine_ops \<Rightarrow> bytes \<Rightarrow> bytes list \<Rightarrow> ('e, int) sop" where
  "sadd E key members =
     try_then (load_or_new_counted E key TYPE_SET) (\<lambda>m.
     try_then (sadd_loop E key (version m) members {} (field_count m) 0 batch_new)
       (\<lambda>(count, added, batch).
         if added > 0 then
           try_then (engine_write E
               (batch_put (meta_key key) (meta_encode (set_field_count count m)) batch))
             (\<lambda>_. ok added)
         else ok added))"

primrec srem_loop ::
  "'e engine_ops \<Rightarrow> bytes \<Rightarrow> u64 \<Rightarrow> bytes list \<Rightarrow> bytes set \<Rightarrow> u32 \<Rightarrow> int \<Rightarrow> write_batch
     \<Rightarrow> ('e, u32 \<times> int \<times> write_batch) sop" where
  "srem_loop E key ver [] seen count removed batch = ok (count, removed, batch)"
| "srem_loop E key ver (x # xs) seen count removed batch =
     (if x \<in> seen then srem_loop E key ver xs seen count removed batch
      else
        let sk = subkey key ver x
        in try_then (engine_get E sk) (\<lambda>r.
             if r \<noteq> None
             then srem_loop E key ver xs (insert x seen) (sat_dec count) (removed + 1) (batch_delete sk batch)
             else srem_loop E key ver xs (insert x seen) count removed batch))"

definition srem :: "'e engine_ops \<Rightarrow> bytes \<Rightarrow> bytes list \<Rightarrow> ('e, int) sop" where
  "srem E key members =
     try_then (load_typed E key TYPE_SET) (\<lambda>r. case r of
        None \<Rightarrow> ok 0
      | Some m \<Rightarrow>
          try_then (srem_loop E key (version m) members {} (field_count m) 0 batch_new)
            (\<lambda>(count, removed, batch). finish_removal E key m count removed batch))"

definition sismember :: "'e engine_ops \<Rightarrow> bytes \<Rightarrow> bytes \<Rightarrow> ('e, bool) sop" where
  "sismember E key member =
     try_then (load_typed E key TYPE_SET) (\<lambda>r. case r of
        None \<Rightarrow> ok False
      | Some m \<Rightarrow> try_then (engine_get E (subkey key (version m) member)) (\<lambda>v. ok (v \<noteq> None)))"

definition smembers :: "'e engine_ops \<Rightarrow> bytes \<Rightarrow> ('e, bytes list) sop" where
  "smembers E key =
     try_then (load_typed E key TYPE_SET) (\<lambda>r. case r of
        None \<Rightarrow> ok []
      | Some m \<Rightarrow>
          (let pre = subkey_prefix key (version m)
           in engine_for E pre (\<lambda>k v out. out @ [drop (length pre) k]) []))"

definition scard :: "'e engine_ops \<Rightarrow> bytes \<Rightarrow> ('e, int) sop" where
  "scard E key = load_count E key TYPE_SET"

subsection \<open>ZSet\<close>

fun effective_put :: "bytes \<Rightarrow> f64 \<Rightarrow> (bytes \<times> f64) list \<Rightarrow> (bytes \<times> f64) list" where
  "effective_put member score [] = [(member, score)]"
| "effective_put member score ((m, old) # rest) =
     (if m = member then (m, score) # rest else (m, old) # effective_put member score rest)"

definition effective_pairs :: "(f64 \<times> bytes) list \<Rightarrow> (bytes \<times> f64) list" where
  "effective_pairs pairs = fold (\<lambda>(score, member) eff. effective_put member score eff) pairs []"

primrec zadd_loop ::
  "'e engine_ops \<Rightarrow> bytes \<Rightarrow> u64 \<Rightarrow> (bytes \<times> f64) list \<Rightarrow> u32 \<Rightarrow> int \<Rightarrow> write_batch
     \<Rightarrow> ('e, u32 \<times> int \<times> write_batch) sop" where
  "zadd_loop E key ver [] count added batch = ok (count, added, batch)"
| "zadd_loop E key ver (p # ps) count added batch =
     (let member = fst p; score = snd p; member_sk = subkey key ver member;
          put = (\<lambda>b. batch_put (zscore_key key ver score member) []
                       (batch_put member_sk (encode_score score) b))
      in try_then (engine_get E member_sk) (\<lambda>r. case r of
           Some old_raw \<Rightarrow>
             try_then (decode_stored_score old_raw) (\<lambda>old_score.
               if f64_eq old_score score then zadd_loop E key ver ps count added batch
               else zadd_loop E key ver ps count added
                      (put (batch_delete (zscore_key key ver old_score member) batch)))
         | None \<Rightarrow> zadd_loop E key ver ps (count + 1) (added + 1) (put batch)))"

definition zadd :: "'e engine_ops \<Rightarrow> bytes \<Rightarrow> (f64 \<times> bytes) list \<Rightarrow> ('e, int) sop" where
  "zadd E key pairs =
     try_then (load_or_new_counted E key TYPE_ZSET) (\<lambda>m.
     try_then (zadd_loop E key (version m) (effective_pairs pairs) (field_count m) 0 batch_new)
       (\<lambda>(count, added, batch).
         if \<not> batch_is_empty batch then
           try_then (engine_write E
               (batch_put (meta_key key) (meta_encode (set_field_count count m)) batch))
             (\<lambda>_. ok added)
         else ok added))"

definition zscore :: "'e engine_ops \<Rightarrow> bytes \<Rightarrow> bytes \<Rightarrow> ('e, f64 option) sop" where
  "zscore E key member =
     try_then (load_typed E key TYPE_ZSET) (\<lambda>r. case r of
        None \<Rightarrow> ok None
      | Some m \<Rightarrow>
          try_then (engine_get E (subkey key (version m) member)) (\<lambda>v. case v of
             Some raw \<Rightarrow> try_then (decode_stored_score raw) (\<lambda>score. ok (Some score))
           | None \<Rightarrow> ok None))"

primrec zrem_loop ::
  "'e engine_ops \<Rightarrow> bytes \<Rightarrow> u64 \<Rightarrow> bytes list \<Rightarrow> bytes set \<Rightarrow> u32 \<Rightarrow> int \<Rightarrow> write_batch
     \<Rightarrow> ('e, u32 \<times> int \<times> write_batch) sop" where
  "zrem_loop E key ver [] seen count removed batch = ok (count, removed, batch)"
| "zrem_loop E key ver (x # xs) seen count removed batch =
     (if x \<in> seen then zrem_loop E key ver xs seen count removed batch
      else
        let sk = subkey key ver x
        in try_then (engine_get E sk) (\<lambda>r. case r of
             Some raw \<Rightarrow>
               try_then (decode_stored_score raw) (\<lambda>score.
                 zrem_loop E key ver xs (insert x seen) (sat_dec count) (removed + 1)
                   (batch_delete (zscore_key key ver score x) (batch_delete sk batch)))
           | None \<Rightarrow> zrem_loop E key ver xs (insert x seen) count removed batch))"

definition zrem :: "'e engine_ops \<Rightarrow> bytes \<Rightarrow> bytes list \<Rightarrow> ('e, int) sop" where
  "zrem E key members =
     try_then (load_typed E key TYPE_ZSET) (\<lambda>r. case r of
        None \<Rightarrow> ok 0
      | Some m \<Rightarrow>
          try_then (zrem_loop E key (version m) members {} (field_count m) 0 batch_new)
            (\<lambda>(count, removed, batch). finish_removal E key m count removed batch))"

definition zcard :: "'e engine_ops \<Rightarrow> bytes \<Rightarrow> ('e, int) sop" where
  "zcard E key = load_count E key TYPE_ZSET"

primrec zrange_loop ::
  "nat \<Rightarrow> nat \<Rightarrow> nat \<Rightarrow> scan_item list \<Rightarrow> nat \<Rightarrow> (bytes \<times> f64) list
     \<Rightarrow> engine_error + (bytes \<times> f64) list" where
  "zrange_loop plen lo hi [] rank out = Inr out"
| "zrange_loop plen lo hi (item # items) rank out =
     (case item of
        Inl e \<Rightarrow> Inl e
      | Inr (k, _) \<Rightarrow>
          if rank < lo then zrange_loop plen lo hi items (rank + 1) out
          else if rank > hi then Inr out
          else (case split_score_suffix (drop plen k) of
                  None \<Rightarrow> Inl (Corruption ''undecodable zset score index'')
                | Some (score, member) \<Rightarrow>
                    zrange_loop plen lo hi items (rank + 1) (out @ [(member, score)])))"

definition zrange :: "'e engine_ops \<Rightarrow> bytes \<Rightarrow> int \<Rightarrow> int \<Rightarrow> ('e, (bytes \<times> f64) list) sop" where
  "zrange E key start stop =
     try_then (load_typed E key TYPE_ZSET) (\<lambda>r s. case r of
        None \<Rightarrow> ok [] s
      | Some m \<Rightarrow>
          (case normalize_range start stop (uint (field_count m)) of
             None \<Rightarrow> ok [] s
           | Some (lo, hi) \<Rightarrow>
               (let pre = zscore_prefix key (version m)
                in (zrange_loop (length pre) lo hi (eng_scan_prefix E (engine s) pre) 0 [], s))))"

primrec zrange_by_score_loop ::
  "nat \<Rightarrow> f64 \<Rightarrow> bool \<Rightarrow> f64 \<Rightarrow> bool \<Rightarrow> scan_item list \<Rightarrow> (bytes \<times> f64) list
     \<Rightarrow> engine_error + (bytes \<times> f64) list" where
  "zrange_by_score_loop plen mn mn_excl mx mx_excl [] out = Inr out"
| "zrange_by_score_loop plen mn mn_excl mx mx_excl (item # items) out =
     (case item of
        Inl e \<Rightarrow> Inl e
      | Inr (k, _) \<Rightarrow>
          (case split_score_suffix (drop plen k) of
             None \<Rightarrow> Inl (Corruption ''undecodable zset score index'')
           | Some (score, member) \<Rightarrow>
               if f64_lt mx score \<or> mx_excl \<and> f64_eq score mx then Inr out
               else if f64_lt score mn \<or> mn_excl \<and> f64_eq score mn
               then zrange_by_score_loop plen mn mn_excl mx mx_excl items out
               else zrange_by_score_loop plen mn mn_excl mx mx_excl items (out @ [(member, score)])))"

definition zrange_by_score ::
  "'e engine_ops \<Rightarrow> bytes \<Rightarrow> f64 \<Rightarrow> bool \<Rightarrow> f64 \<Rightarrow> bool \<Rightarrow> ('e, (bytes \<times> f64) list) sop" where
  "zrange_by_score E key mn mn_excl mx mx_excl =
     try_then (load_typed E key TYPE_ZSET) (\<lambda>r s. case r of
        None \<Rightarrow> ok [] s
      | Some m \<Rightarrow>
          (let pre = zscore_prefix key (version m)
           in (zrange_by_score_loop (length pre) mn mn_excl mx mx_excl
                 (eng_scan_prefix E (engine s) pre) [], s)))"

subsection \<open>List\<close>

definition bounds_or_corrupt :: "meta \<Rightarrow> ('e, u64 \<times> u64) sop" where
  "bounds_or_corrupt m =
     (case list_bounds m of
        None \<Rightarrow> fail (Corruption ''undecodable list bounds'')
      | Some b \<Rightarrow> ok b)"

primrec push_loop ::
  "bytes \<Rightarrow> u64 \<Rightarrow> bool \<Rightarrow> bytes list \<Rightarrow> u64 \<Rightarrow> u64 \<Rightarrow> write_batch \<Rightarrow> u64 \<times> u64 \<times> write_batch" where
  "push_loop key ver left [] head tail batch = (head, tail, batch)"
| "push_loop key ver left (v # vs) head tail batch =
     (if left then
        push_loop key ver left vs (head - 1) tail
          (batch_put (subkey key ver (list_index_field (head - 1))) v batch)
      else
        push_loop key ver left vs head (tail + 1)
          (batch_put (subkey key ver (list_index_field tail)) v batch))"

definition store_push :: "'e engine_ops \<Rightarrow> bytes \<Rightarrow> bytes list \<Rightarrow> bool \<Rightarrow> ('e, int) sop" where
  "store_push E key values left =
     try_then
       (try_then (load_typed E key TYPE_LIST) (\<lambda>r. case r of
          Some m \<Rightarrow> ok m
        | None \<Rightarrow>
            try_then (infallible (new_composite_meta key TYPE_LIST))
              (\<lambda>m. ok (set_list_bounds LIST_INITIAL_INDEX LIST_INITIAL_INDEX m))))
     (\<lambda>m. try_then (bounds_or_corrupt m) (\<lambda>(head0, tail0).
        let (head, tail, batch) = push_loop key (version m) left values head0 tail0 batch_new
        in try_then (engine_write E
             (batch_put (meta_key key) (meta_encode (set_list_bounds head tail m)) batch))
             (\<lambda>_. ok (sint (tail - head)))))"

function pop_loop ::
  "'e engine_ops \<Rightarrow> bytes \<Rightarrow> u64 \<Rightarrow> bool \<Rightarrow> nat \<Rightarrow> u64 \<Rightarrow> u64 \<Rightarrow> bytes list \<Rightarrow> write_batch
     \<Rightarrow> ('e, u64 \<times> u64 \<times> bytes list \<times> write_batch) sop" where
  "pop_loop E key ver left count head tail out batch =
     (if length out < count \<and> head < tail then
        let index = (if left then head else tail - 1);
            head' = (if left then head + 1 else head);
            tail' = (if left then tail else tail - 1);
            sk = subkey key ver (list_index_field index)
        in try_then (engine_get E sk) (\<lambda>r. case r of
             None \<Rightarrow> fail (Corruption ''missing list element record'')
           | Some val \<Rightarrow>
               pop_loop E key ver left count head' tail' (out @ [val]) (batch_delete sk batch))
      else ok (head, tail, out, batch))"
  by pat_completeness auto
termination
  by (relation "measure (\<lambda>(E, key, ver, left, count, head, tail, out, batch). count - length out)") auto

definition store_pop :: "'e engine_ops \<Rightarrow> bytes \<Rightarrow> nat \<Rightarrow> bool \<Rightarrow> ('e, bytes list) sop" where
  "store_pop E key count left =
     try_then (load_typed E key TYPE_LIST) (\<lambda>r. case r of
        None \<Rightarrow> ok []
      | Some m \<Rightarrow>
          try_then (bounds_or_corrupt m) (\<lambda>(head0, tail0).
          try_then (pop_loop E key (version m) left count head0 tail0 [] batch_new)
            (\<lambda>(head, tail, out, batch).
              if out \<noteq> [] then
                if head = tail then
                  try_then (engine_write E batch) (\<lambda>_.
                  try_then (logical_delete E key) (\<lambda>_. ok out))
                else
                  try_then (engine_write E
                    (batch_put (meta_key key) (meta_encode (set_list_bounds head tail m)) batch))
                    (\<lambda>_. ok out)
              else ok out)))"

primrec lrange_loop ::
  "'e engine_ops \<Rightarrow> bytes \<Rightarrow> u64 \<Rightarrow> u64 \<Rightarrow> nat list \<Rightarrow> bytes list \<Rightarrow> ('e, bytes list) sop" where
  "lrange_loop E key ver head [] out = ok out"
| "lrange_loop E key ver head (offset # offsets) out =
     try_then (engine_get E (subkey key ver (list_index_field (head + of_nat offset)))) (\<lambda>r. case r of
        None \<Rightarrow> fail (Corruption ''missing list element record'')
      | Some val \<Rightarrow> lrange_loop E key ver head offsets (out @ [val]))"

definition lrange :: "'e engine_ops \<Rightarrow> bytes \<Rightarrow> int \<Rightarrow> int \<Rightarrow> ('e, bytes list) sop" where
  "lrange E key start stop =
     try_then (load_typed E key TYPE_LIST) (\<lambda>r. case r of
        None \<Rightarrow> ok []
      | Some m \<Rightarrow>
          try_then (bounds_or_corrupt m) (\<lambda>(head, tail).
            case normalize_range start stop (sint (tail - head)) of
              None \<Rightarrow> ok []
            | Some (lo, hi) \<Rightarrow> lrange_loop E key (version m) head [lo..<Suc hi] []))"

definition llen :: "'e engine_ops \<Rightarrow> bytes \<Rightarrow> ('e, int) sop" where
  "llen E key =
     try_then (load_typed E key TYPE_LIST) (\<lambda>r. ok (case r of
        Some m \<Rightarrow> (case list_bounds m of None \<Rightarrow> 0 | Some (head, tail) \<Rightarrow> sint (tail - head))
      | None \<Rightarrow> 0))"

subsection \<open>Administration\<close>

definition dbsize :: "'e engine_ops \<Rightarrow> ('e, int) sop" where
  "dbsize E = engine_for E [META_PREFIX] (\<lambda>_ _ n. n + 1) 0"

definition raw_subkey_count :: "'e engine_ops \<Rightarrow> ('e, int) sop" where
  "raw_subkey_count E =
     try_then (engine_for E [SUBKEY_PREFIX] (\<lambda>_ _ n. n + 1) 0)
       (engine_for E [ZSCORE_PREFIX] (\<lambda>_ _ n. n + 1))"

definition store_compact :: "'e engine_ops \<Rightarrow> ('e, unit) sop" where
  "store_compact E s =
     (case eng_compact_range E (gc_should_keep (versions s)) (engine s) (Some range_default) of
        (r, e') \<Rightarrow> (r, s\<lparr>engine := e'\<rparr>))"

definition flush_all :: "'e engine_ops \<Rightarrow> ('e, unit) sop" where
  "flush_all E =
     try_then (engine_for E [META_PREFIX] (\<lambda>k _ b. batch_delete k b) batch_new) (\<lambda>b1.
     try_then (engine_for E [SUBKEY_PREFIX] (\<lambda>k _ b. batch_delete k b) b1) (\<lambda>b2.
     try_then (engine_for E [ZSCORE_PREFIX] (\<lambda>k _ b. batch_delete k b) b2) (\<lambda>b3.
     try_then (engine_write E b3)
       (\<lambda>_ s. ok () (s\<lparr>versions := vm_clear (versions s)\<rparr>)))))"

declare pop_loop.simps [simp del]

text \<open>A fresh version is above the clock unless the clock has reached its last value.\<close>

lemma version_candidate_gt:
  assumes "prev \<noteq> - 1"
  shows "prev < version_candidate prev now"
proof -
  have "prev < prev + 1"
    using assms by (metis add.commute word_less_nat_alt less_Suc_eq unatSuc add_eq_0_iff2 add.inverse_inverse)
  then show ?thesis by (simp add: version_candidate_def less_max_iff_disj)
qed

end
