(* ===== verification/Redis_Spec.thy ===== *)
theory Redis_Spec
  imports Engine
begin

text \<open>
  The abstract Redis database the store promises to its clients: a partial function from keys
  to typed values with an expiry time (0 for none), and what each command does to it.  A
  command on a key is given the database in which that key has already been expired lazily.
  Refinement theorems relate each operation of \<open>store.rs\<close> to the operation of the same name
  here.
\<close>

datatype rvalue =
    RString bytes
  | RHash "bytes \<rightharpoonup> bytes"
  | RSet "bytes set"
  | RZSet "bytes \<rightharpoonup> f64"
  | RList "bytes list"

type_synonym adb = "bytes \<rightharpoonup> rvalue \<times> u64"
type_synonym 'a aop = "adb \<Rightarrow> (engine_error + 'a) \<times> adb"

fun as_string :: "rvalue \<Rightarrow> bytes option" where
  "as_string (RString x) = Some x" | "as_string _ = None"

fun as_hash :: "rvalue \<Rightarrow> (bytes \<rightharpoonup> bytes) option" where
  "as_hash (RHash h) = Some h" | "as_hash _ = None"

fun as_set :: "rvalue \<Rightarrow> bytes set option" where
  "as_set (RSet x) = Some x" | "as_set _ = None"

fun as_zset :: "rvalue \<Rightarrow> (bytes \<rightharpoonup> f64) option" where
  "as_zset (RZSet z) = Some z" | "as_zset _ = None"

fun as_list :: "rvalue \<Rightarrow> bytes list option" where
  "as_list (RList xs) = Some xs" | "as_list _ = None"

fun type_name :: "rvalue \<Rightarrow> string" where
  "type_name (RString _) = ''string''"
| "type_name (RHash _) = ''hash''"
| "type_name (RSet _) = ''set''"
| "type_name (RZSet _) = ''zset''"
| "type_name (RList _) = ''list''"

text \<open>A command for one type: a missing key, a key of that type, or the wrong type.\<close>

definition typed ::
  "(rvalue \<Rightarrow> 'v option) \<Rightarrow> bytes \<Rightarrow> 'a aop \<Rightarrow> ('v \<Rightarrow> u64 \<Rightarrow> 'a aop) \<Rightarrow> 'a aop" where
  "typed sel k missing found d =
     (case d k of
        None \<Rightarrow> missing d
      | Some (v, e) \<Rightarrow> (case sel v of None \<Rightarrow> (Inl WrongType, d) | Some x \<Rightarrow> found x e d))"

definition reply :: "'a \<Rightarrow> 'a aop" where
  "reply x d = (Inr x, d)"

definition replace :: "bytes \<Rightarrow> (rvalue \<times> u64) option \<Rightarrow> 'a \<Rightarrow> 'a aop" where
  "replace k v x d = (Inr x, d(k := v))"

subsection \<open>Strings and keys\<close>

definition spec_set :: "bytes \<Rightarrow> bytes \<Rightarrow> u64 \<Rightarrow> unit aop" where
  "spec_set k val e = replace k (Some (RString val, e)) ()"

definition spec_get :: "bytes \<Rightarrow> bytes option aop" where
  "spec_get k = typed as_string k (reply None) (\<lambda>v e. reply (Some v))"

definition spec_exists :: "bytes \<Rightarrow> bool aop" where
  "spec_exists k d = reply (d k \<noteq> None) d"

definition spec_type :: "bytes \<Rightarrow> string aop" where
  "spec_type k d = reply (case d k of None \<Rightarrow> ''none'' | Some (v, e) \<Rightarrow> type_name v) d"

definition spec_del :: "bytes \<Rightarrow> bool aop" where
  "spec_del k d = replace k None (d k \<noteq> None) d"

definition spec_expire_at :: "bytes \<Rightarrow> u64 \<Rightarrow> bool aop" where
  "spec_expire_at k t d =
     (case d k of None \<Rightarrow> reply False d | Some (v, e) \<Rightarrow> replace k (Some (v, t)) True d)"

definition spec_pttl :: "u64 \<Rightarrow> bytes \<Rightarrow> int aop" where
  "spec_pttl now k d =
     reply (case d k of
              None \<Rightarrow> - 2
            | Some (v, e) \<Rightarrow> if e = 0 then - 1 else int (unat e - unat now)) d"

subsection \<open>Hashes\<close>

definition spec_hset :: "bytes \<Rightarrow> (bytes \<times> bytes) list \<Rightarrow> int aop" where
  "spec_hset k ps =
     (let put = (\<lambda>h e. replace k (Some (RHash (h ++ map_of (rev ps)), e))
                         (int (card (fst ` set ps - dom h))))
      in typed as_hash k (put Map.empty 0) put)"

definition spec_hget :: "bytes \<Rightarrow> bytes \<Rightarrow> bytes option aop" where
  "spec_hget k f = typed as_hash k (reply None) (\<lambda>h e. reply (h f))"

definition spec_hexists :: "bytes \<Rightarrow> bytes \<Rightarrow> bool aop" where
  "spec_hexists k f = typed as_hash k (reply False) (\<lambda>h e. reply (h f \<noteq> None))"

definition items :: "(bytes \<rightharpoonup> bytes) \<Rightarrow> (bytes \<times> bytes) list" where
  "items h = map (\<lambda>f. (f, the (h f))) (sorted_list_of_set (dom h))"

definition spec_hgetall :: "bytes \<Rightarrow> (bytes \<times> bytes) list aop" where
  "spec_hgetall k = typed as_hash k (reply []) (\<lambda>h e. reply (items h))"

definition spec_hlen :: "bytes \<Rightarrow> int aop" where
  "spec_hlen k = typed as_hash k (reply 0) (\<lambda>h e. reply (int (card (dom h))))"

definition spec_hdel :: "bytes \<Rightarrow> bytes list \<Rightarrow> int aop" where
  "spec_hdel k fs =
     typed as_hash k (reply 0)
       (\<lambda>h e. replace k
          (if dom h \<subseteq> set fs then None else Some (RHash (h |` (- set fs)), e))
          (int (card (set fs \<inter> dom h))))"

subsection \<open>Sets\<close>

definition spec_sadd :: "bytes \<Rightarrow> bytes list \<Rightarrow> int aop" where
  "spec_sadd k ms =
     (let put = (\<lambda>x e. replace k (Some (RSet (x \<union> set ms), e)) (int (card (set ms - x))))
      in typed as_set k (put {} 0) put)"

definition spec_srem :: "bytes \<Rightarrow> bytes list \<Rightarrow> int aop" where
  "spec_srem k ms =
     typed as_set k (reply 0)
       (\<lambda>x e. replace k (if x \<subseteq> set ms then None else Some (RSet (x - set ms), e))
          (int (card (set ms \<inter> x))))"

definition spec_sismember :: "bytes \<Rightarrow> bytes \<Rightarrow> bool aop" where
  "spec_sismember k m = typed as_set k (reply False) (\<lambda>x e. reply (m \<in> x))"

definition spec_smembers :: "bytes \<Rightarrow> bytes list aop" where
  "spec_smembers k = typed as_set k (reply []) (\<lambda>x e. reply (sorted_list_of_set x))"

definition spec_scard :: "bytes \<Rightarrow> int aop" where
  "spec_scard k = typed as_set k (reply 0) (\<lambda>x e. reply (int (card x)))"

subsection \<open>Sorted sets\<close>

text \<open>A member keeps its stored score when the new one is numerically equal (\<open>-0.0 == 0.0\<close>).\<close>

definition zput :: "f64 \<times> bytes \<Rightarrow> (bytes \<rightharpoonup> f64) \<Rightarrow> (bytes \<rightharpoonup> f64)" where
  "zput p z =
     (case z (snd p) of
        Some old \<Rightarrow> if f64_eq old (fst p) then z else z(snd p \<mapsto> fst p)
      | None \<Rightarrow> z(snd p \<mapsto> fst p))"

text \<open>The last score given for each member of the call.\<close>

definition last_scores :: "(f64 \<times> bytes) list \<Rightarrow> bytes \<rightharpoonup> f64" where
  "last_scores ps = map_of (rev (map (\<lambda>(s, m). (m, s)) ps))"

definition zmerge :: "(bytes \<rightharpoonup> f64) \<Rightarrow> (bytes \<rightharpoonup> f64) \<Rightarrow> bytes \<rightharpoonup> f64" where
  "zmerge z new m =
     (case new m of None \<Rightarrow> z m | Some s \<Rightarrow> zput (s, m) z m)"

definition spec_zadd :: "bytes \<Rightarrow> (f64 \<times> bytes) list \<Rightarrow> int aop" where
  "spec_zadd k ps =
     (let put = (\<lambda>z e. replace k (Some (RZSet (zmerge z (last_scores ps)), e))
                         (int (card (snd ` set ps - dom z))))
      in typed as_zset k (put Map.empty 0) put)"

definition spec_zrem :: "bytes \<Rightarrow> bytes list \<Rightarrow> int aop" where
  "spec_zrem k ms =
     typed as_zset k (reply 0)
       (\<lambda>z e. replace k (if dom z \<subseteq> set ms then None else Some (RZSet (z |` (- set ms)), e))
          (int (card (set ms \<inter> dom z))))"

definition spec_zscore :: "bytes \<Rightarrow> bytes \<Rightarrow> f64 option aop" where
  "spec_zscore k m = typed as_zset k (reply None) (\<lambda>z e. reply (z m))"

definition spec_zcard :: "bytes \<Rightarrow> int aop" where
  "spec_zcard k = typed as_zset k (reply 0) (\<lambda>z e. reply (int (card (dom z))))"

text \<open>Rank order: by score, a negative zero before a positive one, then by member.\<close>

definition zbefore :: "bytes \<times> f64 \<Rightarrow> bytes \<times> f64 \<Rightarrow> bool" where
  "zbefore x y \<longleftrightarrow>
     f64_ord (snd x) < f64_ord (snd y)
     \<or> f64_ord (snd x) = f64_ord (snd y) \<and> f64_neg (snd x) \<and> \<not> f64_neg (snd y)
     \<or> snd x = snd y \<and> fst x < fst y"

definition zitems :: "(bytes \<rightharpoonup> f64) \<Rightarrow> (bytes \<times> f64) list" where
  "zitems z =
     map (\<lambda>x. (drop 8 x, decode_score (take 8 x)))
       (sorted_list_of_set ((\<lambda>m. encode_score (the (z m)) @ m) ` dom z))"

text \<open>Redis index ranges: negative indexes count from the end, both ends inclusive.\<close>

definition redis_index :: "nat \<Rightarrow> int \<Rightarrow> int" where
  "redis_index len i = (if i < 0 then i + int len else i)"

definition index_range :: "int \<Rightarrow> int \<Rightarrow> 'a list \<Rightarrow> 'a list" where
  "index_range start stop xs =
     nths xs {i. redis_index (length xs) start \<le> int i \<and> int i \<le> redis_index (length xs) stop}"

definition spec_zrange :: "bytes \<Rightarrow> int \<Rightarrow> int \<Rightarrow> (bytes \<times> f64) list aop" where
  "spec_zrange k start stop =
     typed as_zset k (reply []) (\<lambda>z e. reply (index_range start stop (zitems z)))"

definition in_score_range :: "f64 \<Rightarrow> bool \<Rightarrow> f64 \<Rightarrow> bool \<Rightarrow> f64 \<Rightarrow> bool" where
  "in_score_range mn mn_excl mx mx_excl s \<longleftrightarrow>
     (if mn_excl then f64_lt mn s else f64_lt mn s \<or> f64_eq mn s)
     \<and> (if mx_excl then f64_lt s mx else f64_lt s mx \<or> f64_eq s mx)"

definition spec_zrange_by_score ::
  "bytes \<Rightarrow> f64 \<Rightarrow> bool \<Rightarrow> f64 \<Rightarrow> bool \<Rightarrow> (bytes \<times> f64) list aop" where
  "spec_zrange_by_score k mn mn_excl mx mx_excl =
     typed as_zset k (reply [])
       (\<lambda>z e. reply (filter (\<lambda>x. in_score_range mn mn_excl mx mx_excl (snd x)) (zitems z)))"

subsection \<open>Lists\<close>

definition spec_push :: "bytes \<Rightarrow> bytes list \<Rightarrow> bool \<Rightarrow> int aop" where
  "spec_push k vs left =
     (let put = (\<lambda>xs e. let ys = (if left then rev vs @ xs else xs @ vs)
                  in replace k (Some (RList ys, e)) (int (length ys)))
      in typed as_list k (put [] 0) put)"

definition spec_pop :: "bytes \<Rightarrow> nat \<Rightarrow> bool \<Rightarrow> bytes list aop" where
  "spec_pop k n left =
     typed as_list k (reply [])
       (\<lambda>xs e. replace k
          (if length xs \<le> n then None
           else Some (RList (if left then drop n xs else take (length xs - n) xs), e))
          (if left then take n xs else take n (rev xs)))"

definition spec_lrange :: "bytes \<Rightarrow> int \<Rightarrow> int \<Rightarrow> bytes list aop" where
  "spec_lrange k start stop = typed as_list k (reply []) (\<lambda>xs e. reply (index_range start stop xs))"

definition spec_llen :: "bytes \<Rightarrow> int aop" where
  "spec_llen k = typed as_list k (reply 0) (\<lambda>xs e. reply (int (length xs)))"

subsection \<open>Expiry\<close>

definition expired :: "u64 \<Rightarrow> u64 \<Rightarrow> bool" where
  "expired now e \<longleftrightarrow> e \<noteq> 0 \<and> e \<le> now"

definition purge :: "u64 \<Rightarrow> bytes \<Rightarrow> adb \<Rightarrow> adb" where
  "purge now k d =
     (case d k of Some (_, e) \<Rightarrow> if expired now e then d(k := None) else d | None \<Rightarrow> d)"

subsection \<open>Facts about the specification\<close>

lemma purge_at:
  "purge now k d k' = (if k' = k \<and> (\<exists>v e. d k = Some (v, e) \<and> expired now e) then None else d k')"
  by (auto simp: purge_def split: option.splits)

lemma purge_upd [simp]: "(purge now k d)(k := x) = d(k := x)"
  by (auto simp: purge_def split: option.splits)

lemma redis_index_simps [simp]:
  "0 \<le> i \<Longrightarrow> redis_index n i = i" "i < 0 \<Longrightarrow> redis_index n i = i + int n"
  by (simp_all add: redis_index_def)

lemma nths_interval: "nths xs {i. lo \<le> i \<and> i \<le> hi} = take (Suc hi - lo) (drop lo xs)"
proof -
  have "nths (take n ys) {i. lo \<le> i} = nths ys {i. lo \<le> i \<and> i < n}" for n and ys :: "'a list"
  proof (induction ys rule: rev_induct)
    case (snoc y ys)
    then show ?case by (cases "n \<le> length ys") (auto simp: nths_append)
  qed simp
  from this [of "Suc hi" xs] show ?thesis
    by (simp add: less_Suc_eq_le drop_take flip: drop_eq_nths)
qed

lemma sorted_map_of_graph:
  assumes "finite (dom h)"
  shows "set (items h) = {(f, x). h f = Some x}" "sorted_wrt (<) (map fst (items h))"
  using assms by (auto simp: items_def comp_def strict_sorted_iff)

text \<open>\<open>zitems\<close> is the listing of the sorted set in rank order.\<close>

lemma zkey_inj: "inj_on (\<lambda>m. encode_score (the (z m)) @ m) (dom z)"
  by (auto simp: inj_on_def)

lemma zitems_decoded:
  assumes "finite (dom z)"
  shows "map (\<lambda>x. encode_score (snd x) @ fst x) (zitems z)
    = sorted_list_of_set ((\<lambda>m. encode_score (the (z m)) @ m) ` dom z)"
  using assms by (auto simp: zitems_def comp_def intro!: map_idI)

lemma set_zitems: "finite (dom z) \<Longrightarrow> set (zitems z) = {(m, s). z m = Some s}"
  by (force simp: zitems_def image_iff)

lemma zkey_less_iff:
  "encode_score (snd x) @ fst x < encode_score (snd y) @ fst y \<longleftrightarrow> zbefore x y"
  by (auto simp: zbefore_def less_append_same_length encode_score_less_iff)

lemma sorted_zitems:
  assumes "finite (dom z)"
  shows "sorted_wrt zbefore (zitems z)"
proof -
  have "sorted_wrt (<) (map (\<lambda>x. encode_score (snd x) @ fst x) (zitems z))"
    unfolding zitems_decoded [OF assms] by simp
  then show ?thesis by (simp add: sorted_wrt_map zkey_less_iff)
qed

lemma length_zitems: "finite (dom z) \<Longrightarrow> length (zitems z) = card (dom z)"
  by (simp add: zitems_def card_image zkey_inj)

end
