(* ===== verification/Store_Spec.thy ===== *)
theory Store_Spec
  imports Store Redis_Spec
begin

text \<open>
  The abstract Redis database the store implements, how the engine's records represent it,
  and the representation invariant.

  \<open>abs_kv m\<close> reads a key-value map as a database: the metadata record of a key gives its
  type, expiry and structure version, and the records at that version give its contents.
  \<open>store_wf\<close> is the invariant: metadata decodes, counts and bounds agree with the records,
  the score index mirrors the members, the version map holds exactly the composite keys at
  their current version, and no record carries a version above the version clock.
\<close>

definition meta_at :: "kv \<Rightarrow> bytes \<Rightarrow> meta option" where
  "meta_at m k = Option.bind (m (meta_key k)) meta_decode"

definition fields_at :: "kv \<Rightarrow> bytes \<Rightarrow> u64 \<Rightarrow> kv" where
  "fields_at m k v f = m (subkey k v f)"

definition index_at :: "kv \<Rightarrow> bytes \<Rightarrow> u64 \<Rightarrow> bytes set" where
  "index_at m k v = {x. m (zscore_prefix k v @ x) \<noteq> None}"

definition list_at :: "kv \<Rightarrow> bytes \<Rightarrow> u64 \<Rightarrow> u64 \<Rightarrow> nat \<Rightarrow> bytes list" where
  "list_at m k v head n =
     map (\<lambda>i. the (fields_at m k v (list_index_field (head + of_nat i)))) [0..<n]"

definition value_at :: "kv \<Rightarrow> bytes \<Rightarrow> meta \<Rightarrow> rvalue" where
  "value_at m k mt =
     (if type_id mt = TYPE_STRING then RString (payload mt)
      else if type_id mt = TYPE_HASH then RHash (fields_at m k (version mt))
      else if type_id mt = TYPE_SET then RSet (dom (fields_at m k (version mt)))
      else if type_id mt = TYPE_ZSET then RZSet (map_option decode_score \<circ> fields_at m k (version mt))
      else (case list_bounds mt of
              None \<Rightarrow> RList []
            | Some (h, t) \<Rightarrow> RList (list_at m k (version mt) h (unat (t - h)))))"

definition abs_kv :: "kv \<Rightarrow> adb" where
  "abs_kv m k =
     (if valid_key k then map_option (\<lambda>mt. (value_at m k mt, expire_ms mt)) (meta_at m k) else None)"

subsection \<open>The representation invariant\<close>

definition count_wf :: "kv \<Rightarrow> bytes \<Rightarrow> meta \<Rightarrow> bool" where
  "count_wf m k mt \<longleftrightarrow>
     payload mt = be32 (of_nat (card (dom (fields_at m k (version mt)))))
     \<and> card (dom (fields_at m k (version mt))) < 2 ^ 32"

definition index_wf :: "kv \<Rightarrow> bytes \<Rightarrow> u64 \<Rightarrow> bool" where
  "index_wf m k v \<longleftrightarrow>
     (\<forall>f raw. fields_at m k v f = Some raw \<longrightarrow> (\<exists>s. \<not> f64_is_nan s \<and> raw = encode_score s))
     \<and> index_at m k v = {encode_score s @ f | s f. fields_at m k v f = Some (encode_score s)}"

definition bounds_wf :: "kv \<Rightarrow> bytes \<Rightarrow> u64 \<Rightarrow> u64 \<Rightarrow> u64 \<Rightarrow> bool" where
  "bounds_wf m k v h t \<longleftrightarrow>
     h \<le> t \<and> unat (t - h) < 2 ^ 63
     \<and> dom (fields_at m k v) = {list_index_field i | i. h \<le> i \<and> i < t}"

definition meta_wf :: "kv \<Rightarrow> version_map \<Rightarrow> bytes \<Rightarrow> meta \<Rightarrow> bool" where
  "meta_wf m vm k mt \<longleftrightarrow>
     (if type_id mt = TYPE_STRING then vm_get k vm = None
      else vm_get k vm = Some (version mt)
        \<and> fields_at m k (version mt) \<noteq> Map.empty
        \<and> (if type_id mt = TYPE_HASH \<or> type_id mt = TYPE_SET then count_wf m k mt
           else if type_id mt = TYPE_ZSET then count_wf m k mt \<and> index_wf m k (version mt)
           else type_id mt = TYPE_LIST
             \<and> (\<exists>h t. payload mt = be64 h @ be64 t \<and> bounds_wf m k (version mt) h t)))"

definition key_wf :: "kv \<Rightarrow> version_map \<Rightarrow> bytes \<Rightarrow> bool" where
  "key_wf m vm k \<longleftrightarrow>
     (case m (meta_key k) of
        None \<Rightarrow> vm_get k vm = None
      | Some raw \<Rightarrow> (case meta_decode raw of None \<Rightarrow> False | Some mt \<Rightarrow> meta_wf m vm k mt))"

definition versions_bounded :: "kv \<Rightarrow> u64 \<Rightarrow> bool" where
  "versions_bounded m vc \<longleftrightarrow>
     (\<forall>raw k v. m raw \<noteq> None \<longrightarrow> parse_owner_version raw = Some (k, v) \<longrightarrow> v \<le> vc)"

definition keys_valid :: "kv \<Rightarrow> bool" where
  "keys_valid m \<longleftrightarrow> (\<forall>k. m (meta_key k) \<noteq> None \<longrightarrow> valid_key k)"

definition store_wf :: "kv \<Rightarrow> version_map \<Rightarrow> u64 \<Rightarrow> bool" where
  "store_wf m vm vc \<longleftrightarrow> (\<forall>k. valid_key k \<longrightarrow> key_wf m vm k) \<and> keys_valid m \<and> versions_bounded m vc"

text \<open>The same, with one key left out: what holds of the others while that key is rebuilt.\<close>

definition others_wf :: "bytes \<Rightarrow> kv \<Rightarrow> version_map \<Rightarrow> u64 \<Rightarrow> bool" where
  "others_wf k m vm vc \<longleftrightarrow>
     (\<forall>k'. valid_key k' \<longrightarrow> k' \<noteq> k \<longrightarrow> key_wf m vm k') \<and> keys_valid m \<and> versions_bounded m vc"

definition store_ok :: "('e \<Rightarrow> kv) \<Rightarrow> 'e store \<Rightarrow> bool" where
  "store_ok view s \<longleftrightarrow> store_wf (view (engine s)) (versions s) (version_clock s)"

definition db_of :: "('e \<Rightarrow> kv) \<Rightarrow> 'e store \<Rightarrow> adb" where
  "db_of view s = abs_kv (view (engine s))"

subsection \<open>Abstract expiry\<close>

text \<open>The time a store's next clock reading will show, in milliseconds.\<close>

definition ms_now :: "'e store \<Rightarrow> u64" where
  "ms_now s = of_nat (time s 0 div 1000)"

text \<open>The database an operation on \<open>k\<close> started now works on: lazily expired at \<open>k\<close>.\<close>

definition live_db :: "('e \<Rightarrow> kv) \<Rightarrow> bytes \<Rightarrow> 'e store \<Rightarrow> adb" where
  "live_db view k s = purge (ms_now s) k (db_of view s)"

subsection \<open>Records owned by a key\<close>

definition owned :: "bytes \<Rightarrow> bytes \<Rightarrow> bool" where
  "owned k raw \<longleftrightarrow> raw = meta_key k \<or> (\<exists>v. parse_owner_version raw = Some (k, v))"

definition same_except :: "bytes \<Rightarrow> kv \<Rightarrow> kv \<Rightarrow> bool" where
  "same_except k m m' \<longleftrightarrow> (\<forall>raw. \<not> owned k raw \<longrightarrow> m' raw = m raw)"

lemma owned_simps [simp]:
  "owned k (meta_key k)"
  "valid_key k \<Longrightarrow> owned k (subkey k v f)"
  "valid_key k \<Longrightarrow> owned k (zscore_prefix k v @ x)"
  "valid_key k \<Longrightarrow> owned k (zscore_key k v s x)"
  by (auto simp: owned_def zscore_key_def codec_simps)

lemma not_owned:
  assumes "valid_key k'" "k' \<noteq> k"
  shows "\<not> owned k (meta_key k')" "\<not> owned k (subkey k' v f)" "\<not> owned k (zscore_prefix k' v @ x)"
  using assms by (auto simp: owned_def codec_simps)

lemma same_except_refl [simp]: "same_except k m m"
  by (simp add: same_except_def)

lemma same_except_trans: "same_except k m m' \<Longrightarrow> same_except k m' m'' \<Longrightarrow> same_except k m m''"
  by (simp add: same_except_def)

lemma same_except_apply_ops:
  assumes "\<forall>x \<in> set os. owned k (op_key x)"
  shows "same_except k m (apply_ops os m)"
proof -
  have "apply_ops os m raw = m raw" if "\<not> owned k raw" for raw
  proof (rule apply_ops_other)
    show "raw \<notin> op_key ` set os" using assms that by auto
  qed
  then show ?thesis by (simp add: same_except_def)
qed

lemma frame_reads:
  assumes "same_except k m m'" "valid_key k'" "k' \<noteq> k"
  shows "meta_at m' k' = meta_at m k'" "m' (meta_key k') = m (meta_key k')"
    "fields_at m' k' v = fields_at m k' v" "index_at m' k' v = index_at m k' v"
proof -
  note no = not_owned [OF assms(2,3)]
  show "m' (meta_key k') = m (meta_key k')" using assms(1) no(1) by (simp add: same_except_def)
  then show "meta_at m' k' = meta_at m k'" by (simp add: meta_at_def)
  show "fields_at m' k' v = fields_at m k' v"
    using assms(1) no(2) by (simp add: same_except_def fields_at_def fun_eq_iff)
  show "index_at m' k' v = index_at m k' v"
    using assms(1) no(3) by (simp add: same_except_def index_at_def)
qed

lemma frame_abs:
  assumes "same_except k m m'" "valid_key k'" "k' \<noteq> k"
  shows "abs_kv m' k' = abs_kv m k'"
proof -
  have "value_at m' k' mt = value_at m k' mt" for mt
    unfolding value_at_def list_at_def frame_reads [OF assms] ..
  then show ?thesis by (simp add: abs_kv_def frame_reads [OF assms])
qed

lemma frame_key_wf:
  assumes "same_except k m m'" "valid_key k'" "k' \<noteq> k" "vm_get k' vm' = vm_get k' vm"
  shows "key_wf m' vm' k' \<longleftrightarrow> key_wf m vm k'"
  unfolding key_wf_def meta_wf_def count_wf_def index_wf_def bounds_wf_def
    frame_reads [OF assms(1-3)] assms(4) ..

lemma abs_kv_frame:
  assumes "same_except k m m'"
  shows "abs_kv m' = (abs_kv m)(k := abs_kv m' k)"
proof
  fix k'
  show "abs_kv m' k' = ((abs_kv m)(k := abs_kv m' k)) k'"
    using frame_abs [OF assms, of k'] by (cases "valid_key k'") (auto simp: abs_kv_def)
qed

lemma store_wf_split:
  "valid_key k \<Longrightarrow> store_wf m vm vc \<longleftrightarrow> others_wf k m vm vc \<and> key_wf m vm k"
  by (auto simp: store_wf_def others_wf_def)

lemma others_wf_frame:
  assumes "others_wf k m vm vc" "same_except k m m'" "\<And>k'. k' \<noteq> k \<Longrightarrow> vm_get k' vm' = vm_get k' vm"
    "versions_bounded m' vc'" "valid_key k"
  shows "others_wf k m' vm' vc'"
proof -
  have "m' (meta_key k') = m (meta_key k')" if "k' \<noteq> k" for k'
    using assms(2) that by (simp add: same_except_def owned_def)
  then have "keys_valid m'"
    using assms(1,5) unfolding keys_valid_def others_wf_def by metis
  then show ?thesis using assms frame_key_wf [OF assms(2)] by (auto simp: others_wf_def)
qed

lemma versions_bounded_mono: "versions_bounded m vc \<Longrightarrow> vc \<le> vc' \<Longrightarrow> versions_bounded m vc'"
  unfolding versions_bounded_def by (meson order_trans)

lemma versions_bounded_subset:
  "versions_bounded m vc \<Longrightarrow> (\<And>raw. m' raw \<noteq> None \<Longrightarrow> m raw \<noteq> None) \<Longrightarrow> versions_bounded m' vc"
  unfolding versions_bounded_def by blast

text \<open>Writes at one version keep the bound.\<close>

definition op_bounded :: "u64 \<Rightarrow> write_op \<Rightarrow> bool" where
  "op_bounded vc x \<longleftrightarrow>
     (case x of
        Put raw _ \<Rightarrow> (\<forall>k v. parse_owner_version raw = Some (k, v) \<longrightarrow> v \<le> vc)
      | Delete _ \<Rightarrow> True)"

lemma op_bounded_simps [simp]:
  "op_bounded vc (Delete raw)" "op_bounded vc (Put (meta_key k) x)"
  "valid_key k \<Longrightarrow> op_bounded vc (Put (subkey k v f) x) \<longleftrightarrow> v \<le> vc"
  "valid_key k \<Longrightarrow> op_bounded vc (Put (zscore_key k v s f) x) \<longleftrightarrow> v \<le> vc"
  by (auto simp: op_bounded_def zscore_key_def codec_simps)

lemma versions_bounded_apply_ops:
  assumes "versions_bounded m vc" "\<forall>x \<in> set os. op_bounded vc x"
  shows "versions_bounded (apply_ops os m) vc"
  using assms
proof (induction os arbitrary: m)
  case Nil
  then show ?case by simp
next
  case (Cons x os)
  have "versions_bounded (apply_op x m) vc"
    using Cons.prems by (cases x) (auto simp: versions_bounded_def op_bounded_def)
  then show ?case using Cons by simp
qed

text \<open>A version above the clock has no records.\<close>

lemma fresh_version_empty:
  assumes "versions_bounded m vc" "valid_key k" "vc < v"
  shows "fields_at m k v = Map.empty" "index_at m k v = {}"
proof -
  have "m (subkey k v f) = None" for f
    using assms unfolding versions_bounded_def
    by (metis parse_owner_version_subkey not_less)
  then show "fields_at m k v = Map.empty" by (simp add: fields_at_def fun_eq_iff)
  have "m (zscore_prefix k v @ x) = None" for x
    using assms unfolding versions_bounded_def
    by (metis parse_owner_version_zscore not_less)
  then show "index_at m k v = {}" by (simp add: index_at_def)
qed

text \<open>
  A batch that touches only records of \<open>k\<close>, at versions below the new clock, keeps the
  invariant if it holds at \<open>k\<close> afterwards, and changes the database only at \<open>k\<close>.
\<close>

lemma commit_batch:
  assumes "valid_key k" "store_wf m vm vc" "vc \<le> vc'"
    "\<forall>x \<in> set os. owned k (op_key x) \<and> op_bounded vc' x"
    "\<And>k'. k' \<noteq> k \<Longrightarrow> vm_get k' vm' = vm_get k' vm"
    "key_wf (apply_ops os m) vm' k"
  shows "store_wf (apply_ops os m) vm' vc'"
    and "abs_kv (apply_ops os m) = (abs_kv m)(k := abs_kv (apply_ops os m) k)"
proof -
  have se: "same_except k m (apply_ops os m)" using assms(4) by (simp add: same_except_apply_ops)
  have ow: "others_wf k m vm vc" using assms(1,2) store_wf_split by blast
  have "versions_bounded m vc" using assms(2) by (simp add: store_wf_def)
  then have "versions_bounded m vc'" using assms(3) by (rule versions_bounded_mono)
  then have "versions_bounded (apply_ops os m) vc'"
    using assms(4) by (simp add: versions_bounded_apply_ops)
  then have "others_wf k (apply_ops os m) vm' vc'"
    using others_wf_frame [OF ow se _ _ assms(1)] assms(5) by blast
  then show "store_wf (apply_ops os m) vm' vc'"
    using assms(1,6) store_wf_split by blast
  show "abs_kv (apply_ops os m) = (abs_kv m)(k := abs_kv (apply_ops os m) k)"
    by (rule abs_kv_frame [OF se])
qed

subsection \<open>Reads after writes\<close>

named_theorems read_write "what a metadata, field or index read returns after one write"

lemma meta_read_write [read_write]:
  "(m(meta_key k \<mapsto> x)) (meta_key k') = (if k = k' then Some x else m (meta_key k'))"
  "(m(subkey k v f := y)) (meta_key k') = m (meta_key k')"
  "(m(zscore_key k v s f := y)) (meta_key k') = m (meta_key k')"
  by auto

lemma fields_read_write [read_write]:
  "fields_at (m(meta_key k := y)) k' v = fields_at m k' v"
  "fields_at (m(subkey k v f := y)) k v = (fields_at m k v)(f := y)"
  "fields_at (m(zscore_key k' w s f := y)) k v = fields_at m k v"
  by (auto simp: fields_at_def fun_eq_iff)

lemma index_read_write [read_write]:
  "index_at (m(meta_key k := y)) k' v = index_at m k' v"
  "index_at (m(subkey k v f := y)) k' w = index_at m k' w"
  "index_at (m(zscore_key k v s f := None)) k v = index_at m k v - {encode_score s @ f}"
  "index_at (m(zscore_key k v s f \<mapsto> z)) k v = insert (encode_score s @ f) (index_at m k v)"
  by (auto simp: index_at_def zscore_key_def)

lemma finite_fields: "finite (dom m) \<Longrightarrow> finite (dom (fields_at m k v))"
proof -
  assume "finite (dom m)"
  moreover have "subkey k v ` dom (fields_at m k v) \<subseteq> dom m" by (auto simp: fields_at_def)
  ultimately have "finite (subkey k v ` dom (fields_at m k v))" by (rule rev_finite_subset)
  then show ?thesis by (rule finite_imageD) (simp add: inj_on_def)
qed

lemma finite_index: "finite (dom m) \<Longrightarrow> finite (index_at m k v)"
proof -
  assume "finite (dom m)"
  moreover have "(\<lambda>x. zscore_prefix k v @ x) ` index_at m k v \<subseteq> dom m" by (auto simp: index_at_def)
  ultimately have "finite ((\<lambda>x. zscore_prefix k v @ x) ` index_at m k v)" by (rule rev_finite_subset)
  then show ?thesis by (rule finite_imageD) (simp add: inj_on_def)
qed

end
