(* ===== verification/Store_Refine.thy ===== *)
theory Store_Refine
  imports Store_Spec
begin

text \<open>
  The common part of the refinement proofs: what loading live metadata does (lazy expiry
  included), how a batch is committed, and the String and generic commands.  Everything here is
  proved once, over any engine that satisfies the \<open>reliable_engine\<close> contract.

  \<open>implements view k f spec s\<close> says that running \<open>f\<close> on \<open>s\<close> returns what \<open>spec\<close> returns on
  the abstract database, leaves the database \<open>spec\<close> leaves, and keeps the invariant.
\<close>

definition meets ::
  "('e \<Rightarrow> kv) \<Rightarrow> (engine_error + 'a) \<times> 'e store \<Rightarrow> (engine_error + 'a) \<times> adb \<Rightarrow> bool" where
  "meets view out res \<longleftrightarrow> store_ok view (snd out) \<and> (fst out, db_of view (snd out)) = res"

definition implements ::
  "('e \<Rightarrow> kv) \<Rightarrow> bytes \<Rightarrow> ('e, 'a) sop \<Rightarrow> 'a aop \<Rightarrow> 'e store \<Rightarrow> bool" where
  "implements view k f spec s \<longleftrightarrow> meets view (f s) (spec (live_db view k s))"

definition known_type :: "byte \<Rightarrow> bool" where
  "known_type ty \<longleftrightarrow> ty \<in> {TYPE_STRING, TYPE_HASH, TYPE_SET, TYPE_ZSET, TYPE_LIST}"

lemma type_distinct [simp]:
  "TYPE_STRING \<noteq> TYPE_HASH" "TYPE_STRING \<noteq> TYPE_SET" "TYPE_STRING \<noteq> TYPE_ZSET" "TYPE_STRING \<noteq> TYPE_LIST"
  "TYPE_HASH \<noteq> TYPE_STRING" "TYPE_HASH \<noteq> TYPE_SET" "TYPE_HASH \<noteq> TYPE_ZSET" "TYPE_HASH \<noteq> TYPE_LIST"
  "TYPE_SET \<noteq> TYPE_STRING" "TYPE_SET \<noteq> TYPE_HASH" "TYPE_SET \<noteq> TYPE_ZSET" "TYPE_SET \<noteq> TYPE_LIST"
  "TYPE_ZSET \<noteq> TYPE_STRING" "TYPE_ZSET \<noteq> TYPE_HASH" "TYPE_ZSET \<noteq> TYPE_SET" "TYPE_ZSET \<noteq> TYPE_LIST"
  "TYPE_LIST \<noteq> TYPE_STRING" "TYPE_LIST \<noteq> TYPE_HASH" "TYPE_LIST \<noteq> TYPE_SET" "TYPE_LIST \<noteq> TYPE_ZSET"
  by (simp_all add: type_defs)

definition list_value :: "kv \<Rightarrow> bytes \<Rightarrow> meta \<Rightarrow> bytes list" where
  "list_value m k mt =
     (case list_bounds mt of None \<Rightarrow> [] | Some (h, t) \<Rightarrow> list_at m k (version mt) h (unat (t - h)))"

lemma as_value:
  assumes "known_type (type_id mt)"
  shows "as_string (value_at m k mt) = (if type_id mt = TYPE_STRING then Some (payload mt) else None)"
    "as_hash (value_at m k mt) = (if type_id mt = TYPE_HASH then Some (fields_at m k (version mt)) else None)"
    "as_set (value_at m k mt) = (if type_id mt = TYPE_SET then Some (dom (fields_at m k (version mt))) else None)"
    "as_zset (value_at m k mt) = (if type_id mt = TYPE_ZSET
       then Some (map_option decode_score \<circ> fields_at m k (version mt)) else None)"
    "as_list (value_at m k mt) = (if type_id mt = TYPE_LIST then Some (list_value m k mt) else None)"
  using assms by (auto simp: value_at_def known_type_def list_value_def split: option.splits)

lemma meta_wf_known: "meta_wf m vm k mt \<Longrightarrow> known_type (type_id mt)"
  by (auto simp: meta_wf_def known_type_def split: if_splits)

lemma try_then_assoc: "try_then (try_then m f) g = try_then m (\<lambda>x. try_then (f x) g)"
  by (auto simp: try_then_def fun_eq_iff split: prod.splits sum.splits)

lemma try_then_infallible [simp]:
  "try_then (infallible f) g s = (case f s of (x, s') \<Rightarrow> g x s')"
  by (simp add: try_then_def infallible_def split: prod.splits)

lemma try_then_pair: "m s = (Inr x, s') \<Longrightarrow> try_then m f s = f x s'"
  by (rule try_then_Inr)

lemma next_version_eq:
  "next_version s =
     (version_candidate (version_clock s) (of_nat (time s 0)),
      s\<lparr>time := (\<lambda>n. time s (Suc n)), version_clock := version_candidate (version_clock s) (of_nat (time s 0))\<rparr>)"
  by (simp add: next_version_def now_micros_def Let_def)

text \<open>The part of the invariant that concerns one key.\<close>

lemma store_ok_key:
  assumes "store_ok view s" "valid_key k"
  shows "(view (engine s) (meta_key k) = None \<and> vm_get k (versions s) = None)
    \<or> (\<exists>mt. view (engine s) (meta_key k) = Some (meta_encode mt)
          \<and> meta_wf (view (engine s)) (versions s) k mt)"
proof -
  have "key_wf (view (engine s)) (versions s) k" using assms by (simp add: store_ok_def store_wf_def)
  then show ?thesis
    by (auto simp: key_wf_def meta_decode_iff split: option.splits)
qed

lemma meta_at_simps:
  "m (meta_key k) = None \<Longrightarrow> meta_at m k = None"
  "m (meta_key k) = Some (meta_encode mt) \<Longrightarrow> meta_at m k = Some mt"
  by (simp_all add: meta_at_def)

lemma abs_kv_simps:
  "m (meta_key k) = None \<Longrightarrow> abs_kv m k = None"
  "m (meta_key k) = Some (meta_encode mt) \<Longrightarrow> valid_key k \<Longrightarrow>
     abs_kv m k = Some (value_at m k mt, expire_ms mt)"
  by (simp_all add: abs_kv_def meta_at_def)

lemma key_wf_simps:
  "m (meta_key k) = None \<Longrightarrow> key_wf m vm k \<longleftrightarrow> vm_get k vm = None"
  "m (meta_key k) = Some (meta_encode mt) \<Longrightarrow> key_wf m vm k \<longleftrightarrow> meta_wf m vm k mt"
  by (simp_all add: key_wf_def)

lemma commit:
  assumes "store_ok view s" "valid_key k" "view (engine s') = apply_ops os (view (engine s))"
    "version_clock s \<le> version_clock s'"
    "\<forall>x \<in> set os. owned k (op_key x) \<and> op_bounded (version_clock s') x"
    "\<And>k'. k' \<noteq> k \<Longrightarrow> vm_get k' (versions s') = vm_get k' (versions s)"
    "key_wf (view (engine s')) (versions s') k"
  shows "store_ok view s'" "db_of view s' = (db_of view s)(k := abs_kv (view (engine s')) k)"
  using commit_batch [of k "view (engine s)" "versions s" "version_clock s" "version_clock s'" os "versions s'"]
    assms
  by (simp_all add: store_ok_def db_of_def)

context reliable_engine
begin

lemma engine_get_eq [simp]: "engine_get E k s = (Inr (view (engine s) k), s)"
  by (simp add: engine_get_def get_eq)

lemma engine_write_eq [simp]:
  "engine_write E b s = (Inr (), s\<lparr>engine := snd (eng_write E (engine s) b)\<rparr>)"
  by (simp add: engine_write_def case_prod_beta write_total)

lemma try_then_get [simp]: "try_then (engine_get E k) f s = f (view (engine s) k) s"
  by (simp add: try_then_def)

lemma try_then_write [simp]:
  "try_then (engine_write E b) f s = f () (s\<lparr>engine := snd (eng_write E (engine s) b)\<rparr>)"
  by (simp add: try_then_def)

declare view_write [simp]

lemma logical_delete_eq [simp]:
  "logical_delete E k s =
     (Inr (), s\<lparr>engine := snd (eng_write E (engine s) (batch_delete (meta_key k) batch_new)),
                versions := vm_remove k (versions s)\<rparr>)"
  by (simp add: logical_delete_def)

text \<open>Deleting the metadata record deletes the key.\<close>

lemma delete_meta:
  assumes "store_ok view s" "valid_key k"
    "view (engine s') = (view (engine s))(meta_key k := None)"
    "versions s' = vm_remove k (versions s)" "version_clock s' = version_clock s"
  shows "store_ok view s'" "db_of view s' = (db_of view s)(k := None)"
  using commit [OF assms(1,2), of s' "[Delete (meta_key k)]"] assms(3-5)
  by (simp_all add: vm_simps key_wf_simps abs_kv_simps)

lemma load_live:
  assumes "store_ok view s" "valid_key k"
  obtains s1 where
    "load_live_meta E k s = (Inr (meta_at (view (engine s1)) k), s1)"
    "store_ok view s1" "db_of view s1 = live_db view k s" "version_clock s1 = version_clock s"
    "\<And>mt. meta_at (view (engine s1)) k = Some mt \<Longrightarrow> expire_ms mt \<noteq> 0
       \<Longrightarrow> time s1 = (\<lambda>n. time s (Suc n))"
    "\<And>mt. meta_at (view (engine s1)) k = Some mt \<Longrightarrow> engine s1 = engine s"
  using store_ok_key [OF assms]
proof (elim disjE exE conjE)
  assume n: "view (engine s) (meta_key k) = None" "vm_get k (versions s) = None"
  show thesis
  proof (rule that [of s])
    show "load_live_meta E k s = (Inr (meta_at (view (engine s)) k), s)"
      using n by (simp add: load_live_meta_def load_meta_def try_then_def meta_at_simps)
    show "db_of view s = live_db view k s"
      using n by (simp add: live_db_def purge_def db_of_def abs_kv_simps)
  qed (use assms n in \<open>simp_all add: meta_at_simps\<close>)
next
  fix mt
  assume m: "view (engine s) (meta_key k) = Some (meta_encode mt)"
    "meta_wf (view (engine s)) (versions s) k mt"
  have abs: "db_of view s k = Some (value_at (view (engine s)) k mt, expire_ms mt)"
    using m assms by (simp add: db_of_def abs_kv_simps)
  have lm: "load_meta E k s = (Inr (Some mt), s)"
    using m by (simp add: load_meta_def)
  let ?t = "s\<lparr>time := (\<lambda>n. time s (Suc n))\<rparr>"
  consider (none) "expire_ms mt = 0" | (past) "expired (ms_now s) (expire_ms mt)"
    | (future) "expire_ms mt \<noteq> 0" "\<not> expired (ms_now s) (expire_ms mt)"
    by (auto simp: expired_def)
  then show thesis
  proof cases
    case none
    show thesis
    proof (rule that [of s])
      show "load_live_meta E k s = (Inr (meta_at (view (engine s)) k), s)"
        using m none lm by (simp add: load_live_meta_def try_then_def meta_at_simps)
      show "db_of view s = live_db view k s"
        using abs none by (simp add: live_db_def purge_def expired_def)
    qed (use assms m none in \<open>simp_all add: meta_at_simps\<close>)
  next
    case past
    let ?s1 = "?t\<lparr>engine := snd (eng_write E (engine s) (batch_delete (meta_key k) batch_new)),
                  versions := vm_remove k (versions s)\<rparr>"
    have d: "store_ok view ?s1" "db_of view ?s1 = (db_of view s)(k := None)"
      by (rule delete_meta [OF assms]; simp)+
    show thesis
    proof (rule that [of ?s1])
      show "load_live_meta E k s = (Inr (meta_at (view (engine ?s1)) k), ?s1)"
        using past lm
        by (simp add: load_live_meta_def try_then_def meta_at_simps now_ms_def expired_def ms_now_def)
      show "db_of view ?s1 = live_db view k s"
        using abs past d by (simp add: live_db_def purge_def)
    qed (use d in \<open>simp_all add: meta_at_simps\<close>)
  next
    case future
    show thesis
    proof (rule that [of ?t])
      show "load_live_meta E k s = (Inr (meta_at (view (engine ?t)) k), ?t)"
        using m future lm
        by (simp add: load_live_meta_def try_then_def meta_at_simps now_ms_def expired_def ms_now_def)
      show "db_of view ?t = live_db view k s"
        using abs future by (simp add: live_db_def purge_def db_of_def)
    qed (use assms m in \<open>simp_all add: meta_at_simps store_ok_def\<close>)
  qed
qed

text \<open>
  The two shapes every keyed command has: load the live metadata and go on, or load it and insist
  on a type.  The obligations speak of the store after lazy expiry.
\<close>

lemma implements_live:
  assumes "store_ok view s" "valid_key k"
    and none: "\<And>s1. store_ok view s1 \<Longrightarrow> version_clock s1 = version_clock s \<Longrightarrow>
      db_of view s1 = live_db view k s \<Longrightarrow> view (engine s1) (meta_key k) = None \<Longrightarrow>
      vm_get k (versions s1) = None \<Longrightarrow> db_of view s1 k = None \<Longrightarrow>
      meets view (f None s1) (spec (db_of view s1))"
    and some: "\<And>s1 mt. store_ok view s1 \<Longrightarrow> version_clock s1 = version_clock s \<Longrightarrow>
      db_of view s1 = live_db view k s \<Longrightarrow> view (engine s1) (meta_key k) = Some (meta_encode mt) \<Longrightarrow>
      meta_wf (view (engine s1)) (versions s1) k mt \<Longrightarrow>
      db_of view s1 k = Some (value_at (view (engine s1)) k mt, expire_ms mt) \<Longrightarrow>
      (expire_ms mt \<noteq> 0 \<Longrightarrow> time s1 = (\<lambda>n. time s (Suc n))) \<Longrightarrow> engine s1 = engine s \<Longrightarrow>
      meets view (f (Some mt) s1) (spec (db_of view s1))"
  shows "implements view k (try_then (load_live_meta E k) f) spec s"
proof -
  obtain s1 where s1: "load_live_meta E k s = (Inr (meta_at (view (engine s1)) k), s1)"
    "store_ok view s1" "db_of view s1 = live_db view k s" "version_clock s1 = version_clock s"
    and t: "\<And>mt. meta_at (view (engine s1)) k = Some mt \<Longrightarrow> expire_ms mt \<noteq> 0
       \<Longrightarrow> time s1 = (\<lambda>n. time s (Suc n))"
    and en: "\<And>mt. meta_at (view (engine s1)) k = Some mt \<Longrightarrow> engine s1 = engine s"
    by (rule load_live [OF assms(1,2)]) blast
  have run: "try_then (load_live_meta E k) f s = f (meta_at (view (engine s1)) k) s1"
    using s1(1) by (rule try_then_Inr)
  from store_ok_key [OF s1(2) assms(2)] show ?thesis
  proof (elim disjE exE conjE)
    assume a: "view (engine s1) (meta_key k) = None" "vm_get k (versions s1) = None"
    have "db_of view s1 k = None" using a by (simp add: db_of_def abs_kv_simps)
    from none [OF s1(2,4,3) a this] show ?thesis
      using run s1(3) a by (simp add: implements_def meta_at_simps)
  next
    fix mt assume a: "view (engine s1) (meta_key k) = Some (meta_encode mt)"
      "meta_wf (view (engine s1)) (versions s1) k mt"
    have d: "db_of view s1 k = Some (value_at (view (engine s1)) k mt, expire_ms mt)"
      using a assms(2) by (simp add: db_of_def abs_kv_simps)
    have mo: "meta_at (view (engine s1)) k = Some mt" using a(1) by (simp add: meta_at_def)
    have "meets view (f (Some mt) s1) (spec (db_of view s1))"
      by (rule some [OF s1(2,4,3) a d t [OF mo] en [OF mo]])
    then show ?thesis using run mo s1(3) by (simp add: implements_def)
  qed
qed

lemma load_typed_live:
  "try_then (load_typed E k ty) f =
     try_then (load_live_meta E k) (\<lambda>r. case r of
        Some m \<Rightarrow> if type_id m = ty then f (Some m) else fail WrongType
      | None \<Rightarrow> f None)"
  unfolding load_typed_def try_then_assoc
  by (rule arg_cong [where f = "try_then (load_live_meta E k)"])
    (auto simp: fun_eq_iff split: option.splits)

lemma implements_typed:
  assumes "store_ok view s" "valid_key k"
    and sel: "\<And>m mt. known_type (type_id mt) \<Longrightarrow>
      sel (value_at m k mt) = (if type_id mt = ty then Some (val m mt) else None)"
    and none: "\<And>s1. store_ok view s1 \<Longrightarrow> version_clock s1 = version_clock s \<Longrightarrow>
      db_of view s1 = live_db view k s \<Longrightarrow> view (engine s1) (meta_key k) = None \<Longrightarrow>
      vm_get k (versions s1) = None \<Longrightarrow> db_of view s1 k = None \<Longrightarrow>
      meets view (f None s1) (missing (db_of view s1))"
    and some: "\<And>s1 mt. store_ok view s1 \<Longrightarrow> version_clock s1 = version_clock s \<Longrightarrow>
      db_of view s1 = live_db view k s \<Longrightarrow> view (engine s1) (meta_key k) = Some (meta_encode mt) \<Longrightarrow>
      meta_wf (view (engine s1)) (versions s1) k mt \<Longrightarrow>
      db_of view s1 k = Some (value_at (view (engine s1)) k mt, expire_ms mt) \<Longrightarrow>
      type_id mt = ty \<Longrightarrow> engine s1 = engine s \<Longrightarrow>
      meets view (f (Some mt) s1) (found (val (view (engine s1)) mt) (expire_ms mt) (db_of view s1))"
  shows "implements view k (try_then (load_typed E k ty) f) (typed sel k missing found) s"
  unfolding load_typed_live
proof (rule implements_live [OF assms(1,2)], goal_cases)
  case (1 s1)
  then show ?case using none [OF 1] by (simp add: typed_def)
next
  case (2 s1 mt)
  have kn: "known_type (type_id mt)" using 2(5) by (rule meta_wf_known)
  show ?case
  proof (cases "type_id mt = ty")
    case True
    then show ?thesis using some [OF 2(1-6) True 2(8)] sel [OF kn] 2(6) by (simp add: typed_def)
  next
    case False
    then show ?thesis using sel [OF kn] 2(1,6) by (simp add: typed_def meets_def)
  qed
qed

subsection \<open>String and generic commands\<close>

lemma store_set_implements:
  assumes "store_ok view s" "valid_key k" "version_clock s \<noteq> - 1"
  shows "implements view k (store_set E k x e) (spec_set k x e) s"
proof -
  let ?v = "version_candidate (version_clock s) (of_nat (time s 0))"
  let ?mt = "\<lparr>type_id = TYPE_STRING, version = ?v, expire_ms = e, payload = x\<rparr>"
  let ?s' = "snd (store_set E k x e s)"
  have run: "fst (store_set E k x e s) = Inr ()"
    "view (engine ?s') = apply_ops [Put (meta_key k) (meta_encode ?mt)] (view (engine s))"
    "versions ?s' = vm_remove k (versions s)" "version_clock ?s' = ?v"
    by (simp_all add: store_set_def put_meta_def next_version_eq)
  have "version_clock s \<le> ?v" using version_candidate_gt [OF assms(3)] by (simp add: less_imp_le)
  then have "store_ok view ?s'" "db_of view ?s' = (db_of view s)(k := abs_kv (view (engine ?s')) k)"
    using commit [of view s k ?s' "[Put (meta_key k) (meta_encode ?mt)]"] assms(1,2) run(3,4)
    by (simp_all add: run(2) key_wf_simps(2) [of _ _ ?mt] vm_simps meta_wf_def)
  moreover have "abs_kv (view (engine ?s')) k = Some (RString x, e)"
    unfolding run(2) using assms(2) by (simp add: abs_kv_simps(2) [of _ _ ?mt] value_at_def)
  ultimately show ?thesis
    using run(1) by (simp add: implements_def meets_def spec_set_def replace_def live_db_def)
qed

lemma store_get_implements:
  assumes "store_ok view s" "valid_key k"
  shows "implements view k (store_get E k) (spec_get k) s"
  unfolding store_get_def spec_get_def
proof (rule implements_live [OF assms], goal_cases)
  case (1 s1)
  then show ?case by (simp add: typed_def meets_def reply_def)
next
  case (2 s1 mt)
  then show ?case using as_value(1) [OF meta_wf_known [OF 2(5)]]
    by (simp add: typed_def meets_def reply_def)
qed

lemma store_exists_implements:
  assumes "store_ok view s" "valid_key k"
  shows "implements view k (store_exists E k) (spec_exists k) s"
  unfolding store_exists_def
  by (rule implements_live [OF assms]) (simp_all add: meets_def spec_exists_def reply_def)

lemma type_of_implements:
  assumes "store_ok view s" "valid_key k"
  shows "implements view k (type_of E k) (spec_type k) s"
  unfolding type_of_def
proof (rule implements_live [OF assms], goal_cases)
  case (1 s1)
  then show ?case by (simp add: meets_def spec_type_def reply_def)
next
  case (2 s1 mt)
  then show ?case using meta_wf_known [OF 2(5)]
    by (auto simp: meets_def spec_type_def reply_def value_at_def known_type_def split: option.splits)
qed

lemma store_del_implements:
  assumes "store_ok view s" "valid_key k"
  shows "implements view k (store_del E k) (spec_del k) s"
  unfolding store_del_def
proof (rule implements_live [OF assms], goal_cases)
  case (1 s1)
  then show ?case by (simp add: meets_def spec_del_def replace_def fun_upd_idem)
next
  case (2 s1 mt)
  let ?s' = "s1\<lparr>engine := snd (eng_write E (engine s1) (batch_delete (meta_key k) batch_new)),
                versions := vm_remove k (versions s1)\<rparr>"
  have "store_ok view ?s'" "db_of view ?s' = (db_of view s1)(k := None)"
    by (rule delete_meta [OF 2(1) assms(2)]; simp)+
  then show ?case using 2 by (simp add: meets_def spec_del_def replace_def try_then_def)
qed

text \<open>Rewriting the metadata with only the expiry changed keeps everything else.\<close>

lemma meta_wf_expire [simp]: "meta_wf m vm k (mt\<lparr>expire_ms := e\<rparr>) = meta_wf m vm k mt"
  by (simp add: meta_wf_def count_wf_def)

lemma value_at_expire [simp]: "value_at m k (mt\<lparr>expire_ms := e\<rparr>) = value_at m k mt"
  by (simp add: value_at_def list_bounds_def)

lemma value_at_meta_write [simp]: "value_at (m(meta_key k := x)) k' mt = value_at m k' mt"
  by (simp add: value_at_def list_at_def read_write cong: if_cong option.case_cong)

lemma meta_wf_meta_write [simp]: "meta_wf (m(meta_key k := x)) vm k' mt = meta_wf m vm k' mt"
  by (simp add: meta_wf_def count_wf_def index_wf_def bounds_wf_def read_write)

lemma expire_at_implements:
  assumes "store_ok view s" "valid_key k"
  shows "implements view k (expire_at E k t) (spec_expire_at k t) s"
  unfolding expire_at_def
proof (rule implements_live [OF assms], goal_cases)
  case (1 s1)
  then show ?case by (simp add: meets_def spec_expire_at_def reply_def)
next
  case (2 s1 mt)
  let ?mt = "mt\<lparr>expire_ms := t\<rparr>"
  let ?s' = "snd (put_meta E k ?mt s1)"
  have v: "view (engine ?s') = apply_ops [Put (meta_key k) (meta_encode ?mt)] (view (engine s1))"
    by (simp add: put_meta_def)
  have s': "versions ?s' = versions s1" "version_clock ?s' = version_clock s1"
    "put_meta E k ?mt s1 = (Inr (), ?s')"
    by (simp_all add: put_meta_def)
  have "store_ok view ?s'" "db_of view ?s' = (db_of view s1)(k := abs_kv (view (engine ?s')) k)"
    using commit [of view s1 k ?s' "[Put (meta_key k) (meta_encode ?mt)]"] 2(1) assms(2) s' 2(5)
    by (simp_all add: v key_wf_simps(2) [of _ _ ?mt])
  moreover have "abs_kv (view (engine ?s')) k = Some (value_at (view (engine s1)) k mt, t)"
    unfolding v using assms(2) by (simp add: abs_kv_simps(2) [of _ _ ?mt])
  ultimately show ?case using 2(6) s'(3)
    by (simp add: meets_def spec_expire_at_def replace_def try_then_Inr [where m = "put_meta E k ?mt"])
qed

lemma pttl_implements:
  assumes "store_ok view s" "valid_key k"
    and "\<And>v e. live_db view k s k = Some (v, e) \<Longrightarrow> unat e < 2 ^ 63"
  shows "implements view k (pttl E k) (spec_pttl (of_nat (time s 1 div 1000)) k) s"
  unfolding pttl_def
proof (rule implements_live [OF assms(1,2)], goal_cases)
  case (1 s1)
  then show ?case by (simp add: meets_def spec_pttl_def reply_def)
next
  case (2 s1 mt)
  have b: "unat (expire_ms mt) < 2 ^ 63" using assms(3) 2(3,6) by metis
  have diff: "sint (if now \<le> expire_ms mt then expire_ms mt - now else 0)
      = int (unat (expire_ms mt) - unat now)" for now
  proof (cases "now \<le> expire_ms mt")
    case True
    then have u: "unat (expire_ms mt - now) = unat (expire_ms mt) - unat now"
      by (simp add: unat_sub)
    then have "unat (expire_ms mt - now) < 2 ^ 63" using b by simp
    then have "sint (expire_ms mt - now) = int (unat (expire_ms mt - now))"
      by (rule sint_u64_small)
    then show ?thesis using True u by simp
  next
    case False
    then show ?thesis by (simp add: word_le_nat_alt)
  qed
  show ?case
  proof (cases "expire_ms mt = 0")
    case True
    then show ?thesis using 2 by (simp add: meets_def spec_pttl_def reply_def)
  next
    case False
    then have "time s1 0 = time s 1" using 2(7) by simp
    with False show ?thesis using 2(1,6)
      by (simp add: meets_def spec_pttl_def reply_def now_ms_def Let_def diff store_ok_def db_of_def)
  qed
qed

end

end
