(* ===== verification/Counted_Refine.thy ===== *)
theory Counted_Refine
  imports Store_Refine
begin

text \<open>
  What Hash, Set and ZSet share: metadata with an element count, a fresh structure version for a
  new key, batches of subkey writes followed by the metadata record, and removals that delete the
  key with its last element.
\<close>

definition counted_type :: "byte \<Rightarrow> bool" where
  "counted_type ty \<longleftrightarrow> ty \<in> {TYPE_HASH, TYPE_SET, TYPE_ZSET}"

definition contents_at :: "('e \<Rightarrow> kv) \<Rightarrow> 'e store \<Rightarrow> bytes \<Rightarrow> meta \<Rightarrow> kv" where
  "contents_at view s k mt = fields_at (view (engine s)) k (version mt)"

text \<open>
  \<open>s2\<close> is ready for writing elements of \<open>k\<close> at the version of \<open>mt\<close>: either \<open>k\<close> is a live key of
  \<open>s1\<close> and nothing has changed, or a fresh version has been taken for it.
\<close>

definition prepared :: "('e \<Rightarrow> kv) \<Rightarrow> 'e store \<Rightarrow> 'e store \<Rightarrow> bytes \<Rightarrow> meta \<Rightarrow> bool" where
  "prepared view s1 s2 k mt \<longleftrightarrow>
     engine s2 = engine s1 \<and> version_clock s1 \<le> version_clock s2 \<and> version mt \<le> version_clock s2
     \<and> vm_get k (versions s2) = Some (version mt)
     \<and> (\<forall>k'. k' \<noteq> k \<longrightarrow> vm_get k' (versions s2) = vm_get k' (versions s1))
     \<and> (s2 = s1 \<and> view (engine s1) (meta_key k) = Some (meta_encode mt)
          \<and> contents_at view s1 k mt \<noteq> Map.empty
        \<or> contents_at view s1 k mt = Map.empty \<and> db_of view s1 k = None \<and> expire_ms mt = 0)"

definition counted :: "('e \<Rightarrow> kv) \<Rightarrow> 'e store \<Rightarrow> bytes \<Rightarrow> meta \<Rightarrow> bool" where
  "counted view s k mt \<longleftrightarrow>
     counted_type (type_id mt)
     \<and> field_count mt = of_nat (card (dom (contents_at view s k mt)))
     \<and> card (dom (contents_at view s k mt)) < 2 ^ 32
     \<and> (type_id mt = TYPE_ZSET \<longrightarrow> index_wf (view (engine s)) k (version mt))"

lemma field_count_be32:
  "counted_type (type_id mt) \<Longrightarrow> payload mt = be32 n \<Longrightarrow> field_count mt = n"
  by (auto simp: field_count_def counted_type_def)

lemma meta_wf_counted:
  assumes "meta_wf (view (engine s)) (versions s) k mt" "counted_type (type_id mt)"
  shows "counted view s k mt"
  using assms field_count_be32 [OF assms(2)]
  by (auto simp: counted_def counted_type_def meta_wf_def count_wf_def contents_at_def)

lemma version_bounded:
  assumes "store_ok view s" "valid_key k" "fields_at (view (engine s)) k v \<noteq> Map.empty"
  shows "v \<le> version_clock s"
proof -
  have "versions_bounded (view (engine s)) (version_clock s)"
    using assms(1) by (simp add: store_ok_def store_wf_def)
  from fresh_version_empty(1) [OF this assms(2)] show ?thesis
    using assms(3) by (meson not_le)
qed

lemma prepared_found:
  assumes "store_ok view s1" "valid_key k" "view (engine s1) (meta_key k) = Some (meta_encode mt)"
    "meta_wf (view (engine s1)) (versions s1) k mt" "type_id mt \<noteq> TYPE_STRING"
  shows "prepared view s1 s1 k mt"
  using assms version_bounded [OF assms(1,2), of "version mt"]
  by (auto simp: prepared_def meta_wf_def contents_at_def)

lemma prepared_new:
  assumes "store_ok view s1" "valid_key k" "db_of view s1 k = None" "version_clock s1 \<noteq> - 1"
    "new_composite_meta k ty s1 = (mt, s2)"
  shows "prepared view s1 s2 k mt" "type_id mt = ty" "expire_ms mt = 0" "engine s2 = engine s1"
    "contents_at view s1 k mt = Map.empty" "index_at (view (engine s1)) k (version mt) = {}"
proof -
  let ?v = "version_candidate (version_clock s1) (of_nat (time s1 0))"
  have gt: "version_clock s1 < ?v" by (rule version_candidate_gt [OF assms(4)])
  have mt: "mt = \<lparr>type_id = ty, version = ?v, expire_ms = 0, payload = []\<rparr>"
    and s2: "engine s2 = engine s1" "version_clock s2 = ?v" "versions s2 = vm_set k ?v (versions s1)"
    using assms(5) by (auto simp: new_composite_meta_def next_version_eq)
  have "versions_bounded (view (engine s1)) (version_clock s1)"
    using assms(1) by (simp add: store_ok_def store_wf_def)
  from fresh_version_empty [OF this assms(2) gt]
  show e: "contents_at view s1 k mt = Map.empty" "index_at (view (engine s1)) k (version mt) = {}"
    by (simp_all add: contents_at_def mt)
  show "type_id mt = ty" "expire_ms mt = 0" "engine s2 = engine s1" using mt s2 by simp_all
  show "prepared view s1 s2 k mt"
    using e s2 gt assms(3) by (simp add: prepared_def mt vm_simps less_imp_le)
qed

lemma prepared_set_count [simp]:
  assumes "prepared view s1 s2 k mt" "contents_at view s1 k mt = Map.empty"
  shows "prepared view s1 s2 k (set_field_count n mt)"
  using assms by (simp add: prepared_def contents_at_def)

lemma empty_index_wf: "fields_at m k v = Map.empty \<Longrightarrow> index_at m k v = {} \<Longrightarrow> index_wf m k v"
  by (simp add: index_wf_def)

lemma op_bounded_subset: "op_bounded v x \<Longrightarrow> v \<le> vc \<Longrightarrow> op_bounded vc x"
  by (auto simp: op_bounded_def split: write_op.splits intro: order_trans)

subsection \<open>Committing elements and the new count\<close>

lemma counted_commit:
  assumes ok: "store_ok view s1" "valid_key k" "prepared view s1 s2 k mt" "counted_type (type_id mt)"
    and os: "\<forall>x \<in> set os. owned k (op_key x) \<and> op_bounded (version mt) x"
    and s': "view (engine s') = (apply_ops os (view (engine s1)))(meta_key k \<mapsto> meta_encode (set_field_count c mt))"
      "versions s' = versions s2" "version_clock s' = version_clock s2"
    and F: "F = fields_at (apply_ops os (view (engine s1))) k (version mt)"
      "F \<noteq> Map.empty" "card (dom F) < 2 ^ 32" "c = of_nat (card (dom F))"
    and index: "type_id mt = TYPE_ZSET \<Longrightarrow> index_wf (apply_ops os (view (engine s1))) k (version mt)"
  shows "store_ok view s'"
    "db_of view s' = (db_of view s1)(k \<mapsto> (value_at (apply_ops os (view (engine s1))) k mt, expire_ms mt))"
proof -
  let ?mt = "set_field_count c mt"
  let ?os = "os @ [Put (meta_key k) (meta_encode ?mt)]"
  have v: "view (engine s') = apply_ops ?os (view (engine s1))" using s'(1) by simp
  have b: "version_clock s1 \<le> version_clock s'" "version mt \<le> version_clock s'"
    "vm_get k (versions s') = Some (version mt)"
    "\<And>k'. k' \<noteq> k \<Longrightarrow> vm_get k' (versions s') = vm_get k' (versions s1)"
    using ok(3) s' by (auto simp: prepared_def)
  have mwf: "meta_wf (apply_ops os (view (engine s1))) (versions s') k ?mt"
    using F b(3) ok(4) index
    by (auto simp: meta_wf_def count_wf_def set_field_count_def counted_type_def)
  have os': "\<forall>x \<in> set ?os. owned k (op_key x) \<and> op_bounded (version_clock s') x"
    using os op_bounded_subset [OF _ b(2)] by auto
  have "key_wf (view (engine s')) (versions s') k"
    using mwf unfolding s'(1) by (simp add: key_wf_simps(2) [of _ _ ?mt])
  note c = commit [of view s1 k s' ?os, OF ok(1,2) v b(1) os' b(4) this]
  show "store_ok view s'" by (rule c(1))
  have "value_at (apply_ops os (view (engine s1))) k ?mt = value_at (apply_ops os (view (engine s1))) k mt"
    using ok(4) by (auto simp: value_at_def counted_type_def)
  then have "abs_kv (view (engine s')) k = Some (value_at (apply_ops os (view (engine s1))) k mt, expire_ms mt)"
    using ok(2) unfolding s'(1) by (simp add: abs_kv_simps(2) [of _ _ ?mt])
  then show "db_of view s' = (db_of view s1)(k \<mapsto> (value_at (apply_ops os (view (engine s1))) k mt, expire_ms mt))"
    using c(2) by simp
qed

text \<open>Removing the last element and the metadata record.\<close>

lemma counted_delete:
  assumes ok: "store_ok view s1" "valid_key k" "version mt \<le> version_clock s1"
    and os: "\<forall>x \<in> set os. owned k (op_key x) \<and> op_bounded (version mt) x"
    and s': "view (engine s') = (apply_ops os (view (engine s1)))(meta_key k := None)"
      "versions s' = vm_remove k (versions s1)" "version_clock s' = version_clock s1"
  shows "store_ok view s'" "db_of view s' = (db_of view s1)(k := None)"
proof -
  let ?os = "os @ [Delete (meta_key k)]"
  have v: "view (engine s') = apply_ops ?os (view (engine s1))" using s'(1) by simp
  have os': "\<forall>x \<in> set ?os. owned k (op_key x) \<and> op_bounded (version_clock s') x"
    using os op_bounded_subset ok(3) s'(3) by auto
  have n: "view (engine s') (meta_key k) = None" using s'(1) by simp
  have "key_wf (view (engine s')) (versions s') k"
    using n s'(2) by (simp add: key_wf_simps vm_simps)
  note c = commit [of view s1 k s' ?os, OF ok(1,2) v _ os' _ this]
  show "store_ok view s'" "db_of view s' = (db_of view s1)(k := None)"
    using c s'(2,3) n by (simp_all add: vm_simps abs_kv_simps)
qed

subsection \<open>Element writes\<close>

definition put_ops :: "bytes \<Rightarrow> u64 \<Rightarrow> (bytes \<times> bytes) list \<Rightarrow> write_op list" where
  "put_ops k v ps = map (\<lambda>p. Put (subkey k v (fst p)) (snd p)) ps"

definition delete_ops :: "bytes \<Rightarrow> u64 \<Rightarrow> bytes list \<Rightarrow> write_op list" where
  "delete_ops k v fs = map (\<lambda>f. Delete (subkey k v f)) fs"

lemma put_ops_owned: "valid_key k \<Longrightarrow> \<forall>x \<in> set (put_ops k v ps). owned k (op_key x) \<and> op_bounded v x"
  by (auto simp: put_ops_def)

lemma delete_ops_owned: "valid_key k \<Longrightarrow> \<forall>x \<in> set (delete_ops k v fs). owned k (op_key x) \<and> op_bounded v x"
  by (auto simp: delete_ops_def)

lemma fields_put_ops:
  "fields_at (apply_ops (put_ops k v ps) m) k v = fields_at m k v ++ map_of (rev ps)"
  unfolding put_ops_def
proof (induction ps arbitrary: m)
  case (Cons p ps)
  have "(fields_at m k v)(fst p \<mapsto> snd p) ++ map_of (rev ps) = fields_at m k v ++ map_of (rev ps @ [p])"
    by (cases p) (auto simp: fun_eq_iff map_add_def split: option.splits)
  then show ?case by (simp add: Cons.IH read_write del: fun_upd_apply)
qed simp

lemma fields_delete_ops:
  "fields_at (apply_ops (delete_ops k v fs) m) k v = fields_at m k v |` (- set fs)"
  unfolding delete_ops_def
proof (induction fs arbitrary: m)
  case (Cons f fs)
  show ?case by (simp add: Cons.IH read_write del: fun_upd_apply) (auto simp: fun_eq_iff restrict_map_def)
qed (simp add: restrict_map_def)

lemma sat_dec_of_nat: "c < 2 ^ 32 \<Longrightarrow> (sat_dec ^^ n) (of_nat c) = of_nat (c - n)"
proof (induction n arbitrary: c)
  case (Suc n)
  have "sat_dec (of_nat c) = of_nat (c - 1)"
    using Suc.prems unat_of_nat_u32 [of c]
    by (cases c) (auto simp: sat_dec_def unat_0 simp del: of_nat_Suc, simp)
  then have "(sat_dec ^^ Suc n) (of_nat c) = (sat_dec ^^ n) (of_nat (c - 1))"
    by (simp only: funpow_Suc_right comp_def)
  also have "\<dots> = of_nat (c - 1 - n)" using Suc by simp
  finally show ?case by simp
qed simp

text \<open>The elements a loop with a \<open>seen\<close> set works on: first occurrences, in order.\<close>

fun firsts :: "bytes set \<Rightarrow> bytes list \<Rightarrow> bytes list" where
  "firsts seen [] = []"
| "firsts seen (x # xs) = (if x \<in> seen then firsts seen xs else x # firsts (insert x seen) xs)"

lemma set_firsts [simp]: "set (firsts seen xs) = set xs - seen"
  by (induction seen xs rule: firsts.induct) auto

lemma distinct_firsts [simp]: "distinct (firsts seen xs)"
  by (induction seen xs rule: firsts.induct) auto

lemma length_filter_distinct: "distinct xs \<Longrightarrow> length (filter P xs) = card {x \<in> set xs. P x}"
  by (metis distinct_card distinct_filter set_filter)

subsection \<open>Scans\<close>

lemma for_items_ok: "for_items f (map Inr xs) acc = Inr (fold (\<lambda>(k, v). f k v) xs acc)"
  by (induction xs arbitrary: acc) auto

lemma fold_snoc_map: "fold (\<lambda>(k, v) out. out @ [g k v]) xs acc = acc @ map (\<lambda>(k, v). g k v) xs"
  by (induction xs arbitrary: acc) auto

lemma scans_strip:
  assumes "scans m p xs"
  shows "sorted_wrt (<) (map (\<lambda>(k, v). drop (length p) k) xs)"
    "set (map (\<lambda>(k, v). (drop (length p) k, v)) xs) = {(f, v). m (p @ f) = Some v}"
    "map (\<lambda>(k, v). p @ drop (length p) k) xs = map fst xs"
proof -
  have sx: "set xs = {(k, v). m k = Some v \<and> prefix p k}" and st: "sorted_wrt (<) (map fst xs)"
    using assms by (auto simp: scans_def)
  show a: "map (\<lambda>(k, v). p @ drop (length p) k) xs = map fst xs"
    using sx by (auto simp: prefix_def)
  have "sorted_wrt (<) (map (\<lambda>(k, v). p @ drop (length p) k) xs)" using st unfolding a .
  then show "sorted_wrt (<) (map (\<lambda>(k, v). drop (length p) k) xs)"
    by (simp add: sorted_wrt_map case_prod_unfold)
  show "set (map (\<lambda>(k, v). (drop (length p) k, v)) xs) = {(f, v). m (p @ f) = Some v}"
    using sx by (force simp: prefix_def image_iff)
qed

lemma scans_items:
  assumes "scans m (subkey_prefix k v) xs" "finite (dom m)"
  shows "map (\<lambda>(key, x). (drop (length (subkey_prefix k v)) key, x)) xs = items (fields_at m k v)"
proof (rule sorted_wrt_less_unique)
  note s = scans_strip [OF assms(1)] and g = sorted_map_of_graph [OF finite_fields [OF assms(2)], of k v]
  show "sorted_wrt (<) (map fst (map (\<lambda>(key, x). (drop (length (subkey_prefix k v)) key, x)) xs))"
    using s(1) by (simp add: comp_def case_prod_unfold)
  show "set (map (\<lambda>(key, x). (drop (length (subkey_prefix k v)) key, x)) xs) = set (items (fields_at m k v))"
    unfolding s(2) g(1) by (simp add: fields_at_def subkey_def)
qed (rule sorted_map_of_graph [OF finite_fields [OF assms(2)]])

context reliable_engine
begin

lemma engine_for_eq:
  obtains xs where "scans (view (engine s)) p xs"
    "engine_for E p f acc s = (Inr (fold (\<lambda>(k, v). f k v) xs acc), s)"
  using scan_eq [of "engine s" p] by (auto simp: engine_for_def for_items_ok)

text \<open>The head shared by \<open>hset\<close>, \<open>sadd\<close> and \<open>zadd\<close>.\<close>

lemma implements_counted:
  assumes "store_ok view s" "valid_key k" "version_clock s \<noteq> - 1" "counted_type ty"
    and sel: "\<And>m mt. known_type (type_id mt) \<Longrightarrow>
      sel (value_at m k mt) = (if type_id mt = ty then Some (val m mt) else None)"
    and v0: "\<And>m mt. fields_at m k (version mt) = Map.empty \<Longrightarrow> val m mt = v0"
    and step: "\<And>s1 s2 mt. store_ok view s1 \<Longrightarrow> db_of view s1 = live_db view k s \<Longrightarrow>
      prepared view s1 s2 k mt \<Longrightarrow> counted view s1 k mt \<Longrightarrow> type_id mt = ty \<Longrightarrow>
      meets view (g mt s2) (put (val (view (engine s1)) mt) (expire_ms mt) (db_of view s1))"
  shows "implements view k (try_then (load_or_new_counted E k ty) g) (typed sel k (put v0 0) put) s"
  unfolding load_or_new_counted_def try_then_assoc
proof (rule implements_typed [OF assms(1,2) sel], goal_cases)
  case (2 s1)
  obtain mt s2 where n: "new_composite_meta k ty s1 = (mt, s2)" by fastforce
  have clk: "version_clock s1 \<noteq> - 1" using 2(2) assms(3) by simp
  note p = prepared_new [OF 2(1) assms(2) 2(6) clk n]
  let ?mt = "set_field_count 0 mt"
  have ce: "contents_at view s1 k ?mt = Map.empty" using p(5) by (simp add: contents_at_def)
  have "index_wf (view (engine s1)) k (version mt)"
    using p(5,6) by (simp add: empty_index_wf contents_at_def)
  moreover have "field_count ?mt = 0"
    using assms(4) p(2) by (auto simp: counted_type_def)
  ultimately have cnt: "counted view s1 k ?mt"
    using assms(4) p(2,5) ce by (simp add: counted_def)
  have "meets view (g ?mt s2) (put (val (view (engine s1)) ?mt) (expire_ms ?mt) (db_of view s1))"
    by (rule step [OF 2(1,3)]) (use p cnt in simp_all)
  then show ?case using n v0 [of "view (engine s1)" ?mt] p(3) ce by (simp add: contents_at_def try_then_assoc)
next
  case (3 s1 mt)
  have "type_id mt \<noteq> TYPE_STRING" using 3(7) assms(4) by (auto simp: counted_type_def)
  from prepared_found [OF 3(1) assms(2) 3(4,5) this] have "prepared view s1 s1 k mt" .
  moreover have "counted view s1 k mt" using meta_wf_counted [of view s1 k mt] 3(5,7) assms(4) by simp
  ultimately show ?case using step [OF 3(1,3)] 3(7) by simp
qed

lemma implements_count:
  assumes "store_ok view s" "valid_key k" "counted_type ty"
    and sel: "\<And>m mt. known_type (type_id mt) \<Longrightarrow>
      sel (value_at m k mt) = (if type_id mt = ty then Some (val m mt) else None)"
    and card: "\<And>m mt. type_id mt = ty \<Longrightarrow> size_of (val m mt) = card (dom (fields_at m k (version mt)))"
  shows "implements view k (load_count E k ty)
    (typed sel k (reply 0) (\<lambda>x e. reply (int (size_of x)))) s"
  unfolding load_count_def
proof (rule implements_typed [OF assms(1,2) sel], goal_cases)
  case (2 s1)
  then show ?case by (simp add: meets_def reply_def)
next
  case (3 s1 mt)
  have "counted view s1 k mt" using meta_wf_counted [of view s1 k mt] 3(5,7) assms(3) by simp
  then have "uint (field_count mt) = int (card (dom (fields_at (view (engine s1)) k (version mt))))"
    by (simp add: counted_def contents_at_def uint_nat unat_of_nat)
  then show ?case using 3 card [OF 3(7)] by (simp add: meets_def reply_def)
qed

text \<open>The tail shared by \<open>hdel\<close>, \<open>srem\<close> and \<open>zrem\<close>, after elements outside \<open>F\<close> are gone.\<close>

lemma finish_removal_meets:
  assumes ok: "store_ok view s1" "valid_key k"
      "view (engine s1) (meta_key k) = Some (meta_encode mt)"
      "meta_wf (view (engine s1)) (versions s1) k mt" "counted_type (type_id mt)"
    and os: "\<forall>x \<in> set (ops b). owned k (op_key x) \<and> op_bounded (version mt) x"
    and F: "F = fields_at (apply_ops (ops b) (view (engine s1))) k (version mt)"
      "card (dom F) < 2 ^ 32" "finite (dom F)"
    and c: "c = of_nat (card (dom F))" "n = 0 \<Longrightarrow> ops b = []"
    and index: "type_id mt = TYPE_ZSET \<Longrightarrow> index_wf (apply_ops (ops b) (view (engine s1))) k (version mt)"
  shows "meets view (finish_removal E k mt c (int n) b s1)
    (replace k (if F = Map.empty then None
        else Some (value_at (apply_ops (ops b) (view (engine s1))) k mt, expire_ms mt)) (int n) (db_of view s1))"
proof -
  have ts: "type_id mt \<noteq> TYPE_STRING" using ok(5) by (auto simp: counted_type_def)
  have p: "prepared view s1 s1 k mt" by (rule prepared_found [OF ok(1-4) ts])
  have vb: "version mt \<le> version_clock s1" using p by (simp add: prepared_def)
  have ne: "contents_at view s1 k mt \<noteq> Map.empty"
    using ok(4) ts by (simp add: meta_wf_def contents_at_def)
  consider (none) "n = 0" | (last) "n > 0" "F = Map.empty" | (more) "n > 0" "F \<noteq> Map.empty" by blast
  then show ?thesis
  proof cases
    case none
    then have "ops b = []" by (rule c(2))
    then have F1: "F \<noteq> Map.empty" using F(1) ne by (simp add: contents_at_def)
    have "db_of view s1 k = Some (value_at (view (engine s1)) k mt, expire_ms mt)"
      using ok(2,3) by (simp add: db_of_def abs_kv_simps)
    then show ?thesis
      using none F1 \<open>ops b = []\<close> ok(1)
      by (simp add: finish_removal_def meets_def replace_def fun_upd_idem)
  next
    case last
    then have c0: "c = 0" using c(1) by simp
    let ?s' = "snd (finish_removal E k mt c (int n) b s1)"
    have "fst (finish_removal E k mt c (int n) b s1) = Inr (int n)"
      and v: "view (engine ?s') = (apply_ops (ops b) (view (engine s1)))(meta_key k := None)"
      "versions ?s' = vm_remove k (versions s1)" "version_clock ?s' = version_clock s1"
      using last c0 by (simp_all add: finish_removal_def try_then_def)
    with counted_delete [OF ok(1,2) vb os v] last show ?thesis
      by (simp add: meets_def replace_def)
  next
    case more
    have "card (dom F) \<noteq> 0" using more F(3) by simp
    then have c0: "c \<noteq> 0"
      using c(1) F(2) by (metis unat_of_nat_u32 unat_0)
    let ?s' = "snd (finish_removal E k mt c (int n) b s1)"
    have "fst (finish_removal E k mt c (int n) b s1) = Inr (int n)"
      and v: "view (engine ?s') = (apply_ops (ops b) (view (engine s1)))(meta_key k \<mapsto> meta_encode (set_field_count c mt))"
      "versions ?s' = versions s1" "version_clock ?s' = version_clock s1"
      using more c0 by (simp_all add: finish_removal_def try_then_def)
    with counted_commit [OF ok(1,2) p ok(5) os v F(1) more(2) F(2) c(1) index] more show ?thesis
      by (simp add: meets_def replace_def)
  qed
qed

end

end
