(* ===== verification/Hash_Refine.thy ===== *)
theory Hash_Refine
  imports Counted_Refine
begin

text \<open>
  The Hash commands of \<open>store.rs\<close> implement their specification: each reads or updates the
  field map of the key at its current structure version, and the stored field count stays
  the number of fields.  The multi-field commands need distinct fields in one call.
\<close>

lemma card_new_keys:
  assumes "distinct (map fst ps)"
  shows "length (filter (\<lambda>p. h (fst p) = None) ps) = card (fst ` set ps - dom h)"
proof -
  have "distinct (map fst (filter (\<lambda>p. h (fst p) = None) ps))"
    using assms by (rule distinct_map_filter)
  then have "length (filter (\<lambda>p. h (fst p) = None) ps) = card (fst ` set (filter (\<lambda>p. h (fst p) = None) ps))"
    by (metis distinct_card length_map set_map)
  also have "fst ` set (filter (\<lambda>p. h (fst p) = None) ps) = fst ` set ps - dom h"
    by auto
  finally show ?thesis .
qed

lemma card_dom_add:
  assumes "finite (dom h)"
  shows "card (dom (h ++ map_of (rev ps))) = card (dom h) + card (fst ` set ps - dom h)"
proof -
  have d: "dom (h ++ map_of (rev ps)) = dom h \<union> (fst ` set ps - dom h)"
    by (auto simp: dom_map_of_conv_image_fst)
  show ?thesis unfolding d by (rule card_Un_disjoint) (use assms in auto)
qed

lemma card_dom_restrict:
  assumes "finite (dom h)"
  shows "card (dom (h |` (- set fs))) = card (dom h) - card (set fs \<inter> dom h)"
proof -
  have "dom (h |` (- set fs)) = dom h - set fs \<inter> dom h" by auto
  then show ?thesis using assms by (simp add: card_Diff_subset)
qed

lemma restrict_empty_iff: "h |` (- set fs) = Map.empty \<longleftrightarrow> dom h \<subseteq> set fs"
  by (auto simp: fun_eq_iff restrict_map_def dom_def)

context reliable_engine
begin

lemma hset_loop_eq:
  "hset_loop E k v ps fc cr b s =
     (let n = length (filter (\<lambda>p. fields_at (view (engine s)) k v (fst p) = None) ps)
      in (Inr (fc + of_nat n, cr + int n, b\<lparr>ops := ops b @ put_ops k v ps\<rparr>), s))"
proof (induction ps arbitrary: fc cr b)
  case Nil
  then show ?case by (simp add: put_ops_def)
next
  case (Cons p ps)
  then show ?case
    by (simp add: Let_def fields_at_def put_ops_def batch_put_def algebra_simps)
qed

lemma hset_implements:
  assumes "store_ok view s" "valid_key k" "version_clock s \<noteq> - 1"
    and ps: "ps \<noteq> []" "distinct (map fst ps)" "length ps < 2 ^ 32"
      "\<And>h e. live_db view k s k = Some (RHash h, e) \<Longrightarrow> card (dom h) + length ps < 2 ^ 32"
  shows "implements view k (hset E k ps) (spec_hset k ps) s"
  unfolding hset_def spec_hset_def Let_def
proof (rule implements_counted [OF assms(1-3), where val = "\<lambda>m mt. fields_at m k (version mt)"], goal_cases)
  case (4 s1 s2 mt)
  let ?m = "view (engine s1)" and ?h = "fields_at (view (engine s1)) k (version mt)"
  let ?F = "?h ++ map_of (rev ps)" and ?n = "card (fst ` set ps - dom ?h)"
  let ?c = "of_nat (card (dom ?h) + ?n)" and ?os = "put_ops k (version mt) ps"
  have e: "engine s2 = engine s1" using 4(3) by (simp add: prepared_def)
  have fin: "finite (dom ?h)" by (rule finite_fields [OF view_finite])
  have ct: "counted_type (type_id mt)" "field_count mt = of_nat (card (dom ?h))"
    using 4(4) by (simp_all add: counted_def contents_at_def)
  have room: "card (dom ?h) + length ps < 2 ^ 32"
  proof (cases "?h = Map.empty")
    case False
    then have "view (engine s1) (meta_key k) = Some (meta_encode mt)"
      using 4(3) by (auto simp: prepared_def contents_at_def)
    then have "db_of view s1 k = Some (RHash ?h, expire_ms mt)"
      using assms(2) 4(5) by (simp add: db_of_def abs_kv_simps value_at_def)
    then show ?thesis using ps(4) 4(2) by metis
  qed (use ps(3) in simp)
  have n: "?n \<le> length ps" using card_new_keys [OF ps(2), of ?h] length_filter_le by metis
  have F: "?F = fields_at (apply_ops ?os ?m) k (version mt)" by (simp add: fields_put_ops)
  have Fne: "?F \<noteq> Map.empty" using ps(1) by (cases ps) (auto simp: fun_eq_iff map_add_def split: option.splits)
  have Fc: "card (dom ?F) < 2 ^ 32" "?c = of_nat (card (dom ?F))"
    using card_dom_add [OF fin, of ps] room n by (simp_all del: of_nat_add)
  let ?g = "(\<lambda>m. try_then (hset_loop E k (version m) ps (field_count m) 0 batch_new) (\<lambda>(fc, created, batch).
     try_then (engine_write E (batch_put (meta_key k) (meta_encode (set_field_count fc m)) batch))
       (\<lambda>_. ok created))) mt s2"
  have r: "fst ?g = Inr (int ?n)"
    and s': "view (engine (snd ?g)) = (apply_ops ?os ?m)(meta_key k \<mapsto> meta_encode (set_field_count ?c mt))"
      "versions (snd ?g) = versions s2" "version_clock (snd ?g) = version_clock s2"
    using card_new_keys [OF ps(2), of ?h]
    by (simp_all add: try_then_def hset_loop_eq e ct Let_def)
  note cc = counted_commit [OF 4(1) assms(2) 4(3) ct(1) put_ops_owned [OF assms(2)] s' F Fne Fc]
  have "value_at (apply_ops ?os ?m) k mt = RHash ?F" using 4(5) F by (simp add: value_at_def)
  then have "meets view ?g (replace k (Some (RHash ?F, expire_ms mt)) (int ?n) (db_of view s1))"
    using cc r 4(5) by (simp add: meets_def replace_def)
  then show ?case .
qed (simp_all add: counted_type_def as_value)

lemma hget_implements:
  assumes "store_ok view s" "valid_key k"
  shows "implements view k (hget E k f) (spec_hget k f) s"
  unfolding hget_def spec_hget_def
  by (rule implements_typed [OF assms, where val = "\<lambda>m mt. fields_at m k (version mt)"])
    (simp_all add: as_value meets_def reply_def fields_at_def)

lemma hexists_implements:
  assumes "store_ok view s" "valid_key k"
  shows "implements view k (hexists E k f) (spec_hexists k f) s"
  unfolding hexists_def hget_def spec_hexists_def try_then_assoc
  by (rule implements_typed [OF assms, where val = "\<lambda>m mt. fields_at m k (version mt)"])
    (simp_all add: as_value meets_def reply_def fields_at_def)

lemma hlen_implements:
  assumes "store_ok view s" "valid_key k"
  shows "implements view k (hlen E k) (spec_hlen k) s"
  unfolding hlen_def spec_hlen_def
  by (rule implements_count [OF assms, where val = "\<lambda>m mt. fields_at m k (version mt)"])
    (simp_all add: as_value counted_type_def)

lemma hgetall_implements:
  assumes "store_ok view s" "valid_key k"
  shows "implements view k (hgetall E k) (spec_hgetall k) s"
  unfolding hgetall_def spec_hgetall_def
proof (rule implements_typed [OF assms, where val = "\<lambda>m mt. fields_at m k (version mt)"], goal_cases)
  case (3 s1 mt)
  let ?p = "subkey_prefix k (version mt)"
  obtain xs where xs: "scans (view (engine s1)) ?p xs"
    "engine_for E ?p (\<lambda>k v out. out @ [(drop (length ?p) k, v)]) [] s1
      = (Inr (fold (\<lambda>(k, v) out. out @ [(drop (length ?p) k, v)]) xs []), s1)"
    using engine_for_eq [of s1 ?p "\<lambda>k v out. out @ [(drop (length ?p) k, v)]" "[]"] by metis
  then show ?case using 3(1) scans_items [OF xs(1) view_finite]
    by (simp add: meets_def reply_def fold_snoc_map Let_def)
qed (simp_all add: as_value meets_def reply_def)

lemma hdel_loop_eq:
  "hdel_loop E k v fs fc rm b s =
     (let gone = filter (\<lambda>f. fields_at (view (engine s)) k v f \<noteq> None) fs
      in (Inr ((sat_dec ^^ length gone) fc, rm + int (length gone), b\<lparr>ops := ops b @ delete_ops k v gone\<rparr>), s))"
proof (induction fs arbitrary: fc rm b)
  case Nil
  then show ?case by (simp add: delete_ops_def)
next
  case (Cons f fs)
  then show ?case
    by (simp add: Let_def fields_at_def delete_ops_def batch_delete_def algebra_simps funpow_swap1)
qed

lemma hdel_implements:
  assumes "store_ok view s" "valid_key k" "distinct fs"
  shows "implements view k (hdel E k fs) (spec_hdel k fs) s"
  unfolding hdel_def spec_hdel_def
proof (rule implements_typed [OF assms(1,2), where val = "\<lambda>m mt. fields_at m k (version mt)"], goal_cases)
  case (3 s1 mt)
  let ?m = "view (engine s1)" and ?h = "fields_at (view (engine s1)) k (version mt)"
  let ?gone = "filter (\<lambda>f. ?h f \<noteq> None) fs"
  let ?F = "?h |` (- set fs)" and ?n = "card (set fs \<inter> dom ?h)"
  let ?b = "\<lparr>ops = delete_ops k (version mt) ?gone\<rparr>"
  have fin: "finite (dom ?h)" by (rule finite_fields [OF view_finite])
  have ct: "counted_type (type_id mt)" using 3(7) by (simp add: counted_type_def)
  have cnt: "field_count mt = of_nat (card (dom ?h))" "card (dom ?h) < 2 ^ 32"
    using meta_wf_counted [of view s1 k mt] 3(5) ct by (simp_all add: counted_def contents_at_def)
  have gone: "set ?gone = set fs \<inter> dom ?h" by auto
  have len: "length ?gone = ?n" using assms(3) gone by (metis distinct_card distinct_filter)
  have F: "?F = fields_at (apply_ops (ops ?b) ?m) k (version mt)"
    by (simp add: fields_delete_ops fun_eq_iff restrict_map_def)
  have Fc: "card (dom ?F) < 2 ^ 32" "(sat_dec ^^ ?n) (field_count mt) = of_nat (card (dom ?F))"
    using card_dom_restrict [OF fin, of fs] cnt by (simp_all add: sat_dec_of_nat)
  have Ff: "finite (dom ?F)" using fin by (simp add: rev_finite_subset)
  have z: "ops ?b = []" if "?n = 0" using that len by (simp add: delete_ops_def)
  have run: "try_then (hdel_loop E k (version mt) fs (field_count mt) 0 batch_new)
      (\<lambda>(fc, removed, batch). finish_removal E k mt fc removed batch) s1
    = finish_removal E k mt ((sat_dec ^^ ?n) (field_count mt)) (int ?n) ?b s1"
    unfolding try_then_def hdel_loop_eq Let_def len by (simp add: batch_new_def)
  have os: "\<forall>x \<in> set (ops ?b). owned k (op_key x) \<and> op_bounded (version mt) x"
    using delete_ops_owned [OF assms(2)] by simp
  have zs: "index_wf (apply_ops (ops ?b) ?m) k (version mt)" if "type_id mt = TYPE_ZSET"
    using that 3(7) by simp
  have val: "value_at (apply_ops (ops ?b) ?m) k mt = RHash ?F" using 3(7) F by (simp add: value_at_def)
  from finish_removal_meets [OF 3(1) assms(2) 3(4,5) ct os F Fc(1) Ff Fc(2), of ?n, OF z zs]
  show ?case unfolding val restrict_empty_iff by (simp only: option.case run)
qed (simp_all add: as_value meets_def reply_def)

end

end
