(* ===== verification/Set_Refine.thy ===== *)
theory Set_Refine
  imports Hash_Refine
begin

text \<open>
  The Set commands of \<open>store.rs\<close> implement their specification.  Members are subkeys with an
  empty value; duplicates within one call are skipped by the \<open>seen\<close> set, so no distinctness is
  needed here.
\<close>

context reliable_engine
begin

lemma sadd_loop_eq:
  "sadd_loop E k v xs seen c a b s =
     (let new = filter (\<lambda>x. x \<notin> dom (fields_at (view (engine s)) k v)) (firsts seen xs)
      in (Inr (c + of_nat (length new), a + int (length new),
               b\<lparr>ops := ops b @ put_ops k v (map (\<lambda>x. (x, [])) new)\<rparr>), s))"
proof (induction xs arbitrary: seen c a b)
  case Nil
  then show ?case by (simp add: put_ops_def)
next
  case (Cons x xs)
  then show ?case
    by (simp add: Let_def fields_at_def put_ops_def batch_put_def algebra_simps domIff)
qed

lemma srem_loop_eq:
  "srem_loop E k v xs seen c r b s =
     (let gone = filter (\<lambda>x. x \<in> dom (fields_at (view (engine s)) k v)) (firsts seen xs)
      in (Inr ((sat_dec ^^ length gone) c, r + int (length gone), b\<lparr>ops := ops b @ delete_ops k v gone\<rparr>), s))"
proof (induction xs arbitrary: seen c r b)
  case Nil
  then show ?case by (simp add: delete_ops_def)
next
  case (Cons x xs)
  then show ?case
    by (simp add: Let_def fields_at_def delete_ops_def batch_delete_def algebra_simps domIff funpow_swap1)
qed

lemma sadd_implements:
  assumes "store_ok view s" "valid_key k" "version_clock s \<noteq> - 1"
    and ms: "ms \<noteq> []" "length ms < 2 ^ 32"
      "\<And>x e. live_db view k s k = Some (RSet x, e) \<Longrightarrow> card x + length ms < 2 ^ 32"
  shows "implements view k (sadd E k ms) (spec_sadd k ms) s"
  unfolding sadd_def spec_sadd_def Let_def
proof (rule implements_counted [OF assms(1-3), where val = "\<lambda>m mt. dom (fields_at m k (version mt))"], goal_cases)
  case (4 s1 s2 mt)
  let ?m = "view (engine s1)" and ?h = "fields_at (view (engine s1)) k (version mt)"
  let ?new = "filter (\<lambda>x. x \<notin> dom ?h) (firsts {} ms)"
  let ?ps = "map (\<lambda>x. (x, []) :: bytes \<times> bytes) ?new"
  let ?F = "?h ++ map_of (rev ?ps)" and ?n = "card (set ms - dom ?h)"
  let ?c = "of_nat (card (dom ?h) + ?n)" and ?os = "put_ops k (version mt) ?ps"
  have e: "engine s2 = engine s1" using 4(3) by (simp add: prepared_def)
  have fin: "finite (dom ?h)" by (rule finite_fields [OF view_finite])
  have ct: "counted_type (type_id mt)" "field_count mt = of_nat (card (dom ?h))"
    using 4(4) by (simp_all add: counted_def contents_at_def)
  have live: "db_of view s1 k = Some (RSet (dom ?h), expire_ms mt)" "s2 = s1" if "?h \<noteq> Map.empty"
  proof -
    have "view (engine s1) (meta_key k) = Some (meta_encode mt)" and "s2 = s1"
      using 4(3) that by (auto simp: prepared_def contents_at_def)
    then show "db_of view s1 k = Some (RSet (dom ?h), expire_ms mt)" "s2 = s1"
      using assms(2) 4(5) by (simp_all add: db_of_def abs_kv_simps value_at_def)
  qed
  have room: "card (dom ?h) + length ms < 2 ^ 32"
    using live ms(2,3) 4(2) by (cases "?h = Map.empty") auto
  have set_new: "set ?new = set ms - dom ?h" by auto
  then have len: "length ?new = ?n" by (metis distinct_card distinct_filter distinct_firsts)
  have n: "?n \<le> length ms" by (meson Diff_subset card_length card_mono finite_set le_trans)
  have dF: "dom ?F = dom ?h \<union> set ms" using set_new by (auto simp: dom_map_of_conv_image_fst image_image)
  have F: "?F = fields_at (apply_ops ?os ?m) k (version mt)" by (simp add: fields_put_ops)
  have "dom ?F \<noteq> {}" using ms(1) unfolding dF by simp
  then have Fne: "?F \<noteq> Map.empty" by (metis dom_empty)
  have "card (dom ?F) = card (dom ?h) + ?n"
    unfolding dF using card_Un_disjoint [of "dom ?h" "set ms - dom ?h"] fin by simp
  then have Fc: "card (dom ?F) < 2 ^ 32" "?c = of_nat (card (dom ?F))"
    using room n by (simp_all del: of_nat_add)
  let ?g = "(\<lambda>m. try_then (sadd_loop E k (version m) ms {} (field_count m) 0 batch_new)
       (\<lambda>(count, added, batch).
         if added > 0 then
           try_then (engine_write E
               (batch_put (meta_key k) (meta_encode (set_field_count count m)) batch))
             (\<lambda>_. ok added)
         else ok added)) mt s2"
  have loop: "sadd_loop E k (version mt) ms {} (field_count mt) 0 batch_new s2
      = (Inr (?c, int ?n, \<lparr>ops = ?os\<rparr>), s2)"
    unfolding sadd_loop_eq Let_def e len by (simp add: ct batch_new_def)
  have r: "fst ?g = Inr (int ?n)" by (simp add: try_then_def loop)
  have "meets view ?g (replace k (Some (RSet (dom ?h \<union> set ms), expire_ms mt)) (int ?n) (db_of view s1))"
  proof (cases "?n = 0")
    case True
    then have sub: "set ms \<subseteq> dom ?h" by simp
    with ms(1) have "?h \<noteq> Map.empty" by (metis all_not_in_conv dom_empty set_empty subset_empty)
    note live = live [OF this]
    have "snd ?g = s1" unfolding live(2) [symmetric] by (simp add: try_then_def loop True)
    moreover have "dom ?h \<union> set ms = dom ?h" using sub by blast
    ultimately show ?thesis unfolding meets_def replace_def r
      using 4(1) live(1) by (simp add: fun_upd_idem)
  next
    case False
    have s': "view (engine (snd ?g)) = (apply_ops ?os ?m)(meta_key k \<mapsto> meta_encode (set_field_count ?c mt))"
        "versions (snd ?g) = versions s2" "version_clock (snd ?g) = version_clock s2"
      using False by (simp_all add: try_then_def loop e)
    note cc = counted_commit [OF 4(1) assms(2) 4(3) ct(1) put_ops_owned [OF assms(2)] s' F Fne Fc]
    have "value_at (apply_ops ?os ?m) k mt = RSet (dom ?h \<union> set ms)"
      using 4(5) F dF by (simp add: value_at_def)
    then show ?thesis using cc r 4(5) by (simp add: meets_def replace_def)
  qed
  then show ?case .
qed (simp_all add: counted_type_def as_value)

lemma srem_implements:
  assumes "store_ok view s" "valid_key k"
  shows "implements view k (srem E k ms) (spec_srem k ms) s"
  unfolding srem_def spec_srem_def
proof (rule implements_typed [OF assms(1,2), where val = "\<lambda>m mt. dom (fields_at m k (version mt))"], goal_cases)
  case (3 s1 mt)
  let ?m = "view (engine s1)" and ?h = "fields_at (view (engine s1)) k (version mt)"
  let ?gone = "filter (\<lambda>f. f \<in> dom ?h) (firsts {} ms)"
  let ?F = "?h |` (- set ms)" and ?n = "card (set ms \<inter> dom ?h)"
  let ?b = "\<lparr>ops = delete_ops k (version mt) ?gone\<rparr>"
  have fin: "finite (dom ?h)" by (rule finite_fields [OF view_finite])
  have ct: "counted_type (type_id mt)" using 3(7) by (simp add: counted_type_def)
  have cnt: "field_count mt = of_nat (card (dom ?h))" "card (dom ?h) < 2 ^ 32"
    using meta_wf_counted [of view s1 k mt] 3(5) ct by (simp_all add: counted_def contents_at_def)
  have gone: "set ?gone = set ms \<inter> dom ?h" by auto
  have len: "length ?gone = ?n" using gone by (metis distinct_card distinct_filter distinct_firsts)
  have F: "?F = fields_at (apply_ops (ops ?b) ?m) k (version mt)"
    by (auto simp: fields_delete_ops fun_eq_iff restrict_map_def) (metis not_None_eq)
  have Fc: "card (dom ?F) < 2 ^ 32" "(sat_dec ^^ ?n) (field_count mt) = of_nat (card (dom ?F))"
    using card_dom_restrict [OF fin, of ms] cnt by (simp_all add: sat_dec_of_nat)
  have Ff: "finite (dom ?F)" using fin by (simp add: rev_finite_subset)
  have z: "ops ?b = []" if "?n = 0" using that len by (simp add: delete_ops_def)
  have run: "try_then (srem_loop E k (version mt) ms {} (field_count mt) 0 batch_new)
      (\<lambda>(fc, removed, batch). finish_removal E k mt fc removed batch) s1
    = finish_removal E k mt ((sat_dec ^^ ?n) (field_count mt)) (int ?n) ?b s1"
    unfolding try_then_def srem_loop_eq Let_def len by (simp add: batch_new_def)
  have os: "\<forall>x \<in> set (ops ?b). owned k (op_key x) \<and> op_bounded (version mt) x"
    using delete_ops_owned [OF assms(2)] by simp
  have zs: "index_wf (apply_ops (ops ?b) ?m) k (version mt)" if "type_id mt = TYPE_ZSET"
    using that 3(7) by simp
  have "dom ?F = dom ?h - set ms" by auto
  then have val: "value_at (apply_ops (ops ?b) ?m) k mt = RSet (dom ?h - set ms)"
    using 3(7) F by (simp add: value_at_def)
  from finish_removal_meets [OF 3(1) assms(2) 3(4,5) ct os F Fc(1) Ff Fc(2), of ?n, OF z zs]
  show ?case unfolding val restrict_empty_iff by (simp only: option.case run)
qed (simp_all add: as_value meets_def reply_def)

lemma sismember_implements:
  assumes "store_ok view s" "valid_key k"
  shows "implements view k (sismember E k x) (spec_sismember k x) s"
  unfolding sismember_def spec_sismember_def
  by (rule implements_typed [OF assms, where val = "\<lambda>m mt. dom (fields_at m k (version mt))"])
    (simp_all add: as_value meets_def reply_def fields_at_def domIff)

lemma scard_implements:
  assumes "store_ok view s" "valid_key k"
  shows "implements view k (scard E k) (spec_scard k) s"
  unfolding scard_def spec_scard_def
  by (rule implements_count [OF assms, where val = "\<lambda>m mt. dom (fields_at m k (version mt))"])
    (simp_all add: as_value counted_type_def)

lemma smembers_implements:
  assumes "store_ok view s" "valid_key k"
  shows "implements view k (smembers E k) (spec_smembers k) s"
  unfolding smembers_def spec_smembers_def
proof (rule implements_typed [OF assms, where val = "\<lambda>m mt. dom (fields_at m k (version mt))"], goal_cases)
  case (3 s1 mt)
  let ?p = "subkey_prefix k (version mt)"
  obtain xs where xs: "scans (view (engine s1)) ?p xs"
    "engine_for E ?p (\<lambda>k v out. out @ [drop (length ?p) k]) [] s1
      = (Inr (fold (\<lambda>(k, v) out. out @ [drop (length ?p) k]) xs []), s1)"
    using engine_for_eq [of s1 ?p "\<lambda>k v out. out @ [drop (length ?p) k]" "[]"] by metis
  have "map fst (map (\<lambda>(key, x). (drop (length ?p) key, x)) xs)
      = sorted_list_of_set (dom (fields_at (view (engine s1)) k (version mt)))"
    unfolding scans_items [OF xs(1) view_finite] by (simp add: items_def comp_def)
  then have "map (\<lambda>(key, x). drop (length ?p) key) xs
      = sorted_list_of_set (dom (fields_at (view (engine s1)) k (version mt)))"
    by (simp add: comp_def case_prod_unfold)
  then show ?case using 3(1) xs(2)
    by (simp add: meets_def reply_def fold_snoc_map Let_def)
qed (simp_all add: as_value meets_def reply_def)

end

end
