(* ===== verification/ZSet_Refine.thy ===== *)
theory ZSet_Refine
  imports Set_Refine
begin

text \<open>
  The ZSet commands of \<open>store.rs\<close> implement their specification.  The dual encoding is the
  invariant \<open>index_wf\<close>: every member record holds the encoding of a score that is not NaN, and
  the score index holds exactly one entry per member, at that score.
\<close>

definition scores_at :: "kv \<Rightarrow> bytes \<Rightarrow> u64 \<Rightarrow> bytes \<rightharpoonup> f64" where
  "scores_at m k v = map_option decode_score \<circ> fields_at m k v"

lemma dom_scores_at [simp]: "dom (scores_at m k v) = dom (fields_at m k v)"
  by (auto simp: scores_at_def)

lemma scores_at_Some:
  assumes "index_wf m k v"
  shows "scores_at m k v f = Some s \<longleftrightarrow> fields_at m k v f = Some (encode_score s)"
proof
  assume "scores_at m k v f = Some s"
  then obtain raw where r: "fields_at m k v f = Some raw" "s = decode_score raw"
    by (auto simp: scores_at_def)
  with assms obtain s' where "raw = encode_score s'" unfolding index_wf_def by blast
  with r show "fields_at m k v f = Some (encode_score s)" by simp
qed (simp add: scores_at_def)

lemma scores_at_upd:
  "fields_at m' k v = (fields_at m k v)(x \<mapsto> encode_score s) \<Longrightarrow> scores_at m' k v = (scores_at m k v)(x \<mapsto> s)"
  by (simp add: scores_at_def fun_eq_iff)

lemma scores_not_nan: "index_wf m k v \<Longrightarrow> scores_at m k v f = Some s \<Longrightarrow> \<not> f64_is_nan s"
  by (metis encode_score_inject index_wf_def scores_at_Some)

lemma index_at_scores:
  "index_wf m k v \<Longrightarrow> index_at m k v = {encode_score s @ f | s f. scores_at m k v f = Some s}"
  by (simp add: scores_at_Some) (simp add: index_wf_def)

text \<open>The invariant in terms of scores.\<close>

lemma index_wfI:
  assumes "\<And>f raw. fields_at m k v f = Some raw \<Longrightarrow> \<exists>s. \<not> f64_is_nan s \<and> raw = encode_score s"
    "index_at m k v = {encode_score s @ f | s f. fields_at m k v f = Some (encode_score s)}"
  shows "index_wf m k v"
  using assms unfolding index_wf_def by blast

lemma zgraph_delete:
  assumes "h x = Some (encode_score s)"
  shows "{encode_score t @ f | t f. h f = Some (encode_score t)} - {encode_score s @ x}
    = {encode_score t @ f | t f. (h(x := None)) f = Some (encode_score t)}"
proof (intro set_eqI iffI)
  fix y assume "y \<in> {encode_score t @ f | t f. h f = Some (encode_score t)} - {encode_score s @ x}"
  then obtain t f where y: "y = encode_score t @ f" "h f = Some (encode_score t)" "y \<noteq> encode_score s @ x"
    by blast
  then have "f \<noteq> x" using assms by auto
  then show "y \<in> {encode_score t @ f | t f. (h(x := None)) f = Some (encode_score t)}"
    using y by (intro CollectI exI [of _ t] exI [of _ f]) simp
next
  fix y assume "y \<in> {encode_score t @ f | t f. (h(x := None)) f = Some (encode_score t)}"
  then obtain t f where "y = encode_score t @ f" "h f = Some (encode_score t)" "f \<noteq> x"
    by (auto split: if_splits)
  then show "y \<in> {encode_score t @ f | t f. h f = Some (encode_score t)} - {encode_score s @ x}"
    by auto
qed

subsection \<open>The writes of one member\<close>

definition zadd_ops :: "bytes \<Rightarrow> u64 \<Rightarrow> (bytes \<rightharpoonup> f64) \<Rightarrow> bytes \<times> f64 \<Rightarrow> write_op list" where
  "zadd_ops k v z p =
     (let put = [Put (subkey k v (fst p)) (encode_score (snd p)), Put (zscore_key k v (snd p) (fst p)) []]
      in case z (fst p) of
           Some old \<Rightarrow> if f64_eq old (snd p) then [] else Delete (zscore_key k v old (fst p)) # put
         | None \<Rightarrow> put)"

definition zrem_ops :: "bytes \<Rightarrow> u64 \<Rightarrow> (bytes \<rightharpoonup> f64) \<Rightarrow> bytes \<Rightarrow> write_op list" where
  "zrem_ops k v z x = [Delete (subkey k v x), Delete (zscore_key k v (the (z x)) x)]"

lemma zadd_ops_owned: "valid_key k \<Longrightarrow> \<forall>x \<in> set (zadd_ops k v z p). owned k (op_key x) \<and> op_bounded v x"
  by (auto simp: zadd_ops_def Let_def split: option.splits if_splits)

lemma zrem_ops_owned: "valid_key k \<Longrightarrow> \<forall>x \<in> set (zrem_ops k v z p). owned k (op_key x) \<and> op_bounded v x"
  by (auto simp: zrem_ops_def)

lemma zput_apply:
  assumes "index_wf m k v" "\<not> f64_is_nan s"
  shows "index_wf (apply_ops (zadd_ops k v (scores_at m k v) (x, s)) m) k v"
    and "scores_at (apply_ops (zadd_ops k v (scores_at m k v) (x, s)) m) k v = zput (s, x) (scores_at m k v)"
proof -
  let ?m' = "apply_ops (zadd_ops k v (scores_at m k v) (x, s)) m"
  have keep: "?m' = m" "zput (s, x) (scores_at m k v) = scores_at m k v"
    if "scores_at m k v x = Some old" "f64_eq old s" for old
    using that by (simp_all add: zadd_ops_def zput_def)
  have "index_wf ?m' k v \<and> scores_at ?m' k v = zput (s, x) (scores_at m k v)"
  proof (cases "\<exists>old. scores_at m k v x = Some old \<and> f64_eq old s")
    case True
    then show ?thesis using keep assms(1) by auto
  next
    case False
    then have u: "\<And>old. scores_at m k v x = Some old \<Longrightarrow> \<not> f64_eq old s" by blast
    have upd: "fields_at ?m' k v = (fields_at m k v)(x \<mapsto> encode_score s)"
      "index_at ?m' k v = insert (encode_score s @ x)
         (index_at m k v - {encode_score o' @ x | o'. scores_at m k v x = Some o'})"
      "zput (s, x) (scores_at m k v) = (scores_at m k v)(x \<mapsto> s)"
      using u by (auto simp: zadd_ops_def zput_def read_write Let_def split: option.splits
          simp del: fun_upd_apply)
    have "index_wf ?m' k v"
    proof (rule index_wfI)
      show "\<exists>s. \<not> f64_is_nan s \<and> raw = encode_score s" if "fields_at ?m' k v f = Some raw" for f raw
      proof -
        have "((fields_at m k v)(x \<mapsto> encode_score s)) f = Some raw" using that upd(1) by simp
        then show ?thesis using assms unfolding index_wf_def by (auto split: if_splits)
      qed
      show "index_at ?m' k v = {encode_score s @ f | s f. fields_at ?m' k v f = Some (encode_score s)}"
        unfolding upd(1,2) index_at_scores [OF assms(1)]
        by (auto simp: scores_at_Some [OF assms(1)] split: if_splits) metis+
    qed
    moreover have "scores_at ?m' k v = zput (s, x) (scores_at m k v)"
      unfolding upd(3) by (rule scores_at_upd [OF upd(1)])
    ultimately show ?thesis ..
  qed
  then show "index_wf ?m' k v" "scores_at ?m' k v = zput (s, x) (scores_at m k v)" by simp_all
qed

lemma zput_at [simp]: "y \<noteq> snd p \<Longrightarrow> zput p z y = z y"
  by (auto simp: zput_def split: option.splits)

lemma zmerge_Cons:
  assumes "x \<notin> dom new"
  shows "zmerge z (new(x \<mapsto> s)) = zmerge (zput (s, x) z) new"
proof
  fix y
  show "zmerge z (new(x \<mapsto> s)) y = zmerge (zput (s, x) z) new y"
    using assms by (cases "y = x") (auto simp: zmerge_def zput_def split: option.splits)
qed

lemma zmerge_empty [simp]: "zmerge z Map.empty = z"
  by (simp add: zmerge_def fun_eq_iff)

lemma dom_zmerge [simp]: "dom (zmerge z new) = dom z \<union> dom new"
  by (auto simp: zmerge_def zput_def split: option.splits if_splits)

lemma zadd_apply:
  assumes "index_wf m k v" "distinct (map fst ps)" "\<forall>p \<in> set ps. \<not> f64_is_nan (snd p)"
    "\<forall>p \<in> set ps. z (fst p) = scores_at m k v (fst p)"
  shows "index_wf (apply_ops (concat (map (zadd_ops k v z) ps)) m) k v
    \<and> scores_at (apply_ops (concat (map (zadd_ops k v z) ps)) m) k v = zmerge (scores_at m k v) (map_of ps)"
  using assms
proof (induction ps arbitrary: m)
  case (Cons p ps)
  obtain x s where p: "p = (x, s)" by (cases p)
  have zo: "zadd_ops k v z (x, s) = zadd_ops k v (scores_at m k v) (x, s)"
    using Cons.prems(4) p by (simp add: zadd_ops_def)
  let ?m1 = "apply_ops (zadd_ops k v (scores_at m k v) (x, s)) m"
  have st: "index_wf ?m1 k v" "scores_at ?m1 k v = zput (s, x) (scores_at m k v)"
    using zput_apply [OF Cons.prems(1)] Cons.prems(3) p by simp_all
  have nx: "x \<notin> fst ` set ps" using Cons.prems(2) p by simp
  have "\<forall>p \<in> set ps. z (fst p) = scores_at ?m1 k v (fst p)"
    unfolding st(2) using Cons.prems(4) nx by (metis image_eqI list.set_intros(2) snd_conv zput_at)
  from Cons.IH [OF st(1) _ _ this] Cons.prems(2,3) show ?case
    using zmerge_Cons [of x "map_of ps" "scores_at m k v" s] nx
    by (simp add: zo p st(2) dom_map_of_conv_image_fst del: fun_upd_apply)
qed simp

lemma zrem_apply:
  assumes "index_wf m k v" "distinct xs" "\<forall>x \<in> set xs. z x = scores_at m k v x \<and> z x \<noteq> None"
  shows "index_wf (apply_ops (concat (map (zrem_ops k v z) xs)) m) k v
    \<and> fields_at (apply_ops (concat (map (zrem_ops k v z) xs)) m) k v = fields_at m k v |` (- set xs)"
  using assms
proof (induction xs arbitrary: m)
  case Nil
  then show ?case by (simp add: restrict_map_def)
next
  case (Cons x xs)
  have "z x = scores_at m k v x" "z x \<noteq> None" using Cons.prems(3) by (blast intro: list.set_intros)+
  then obtain s where s: "z x = Some s" "scores_at m k v x = Some s" by (metis not_None_eq)
  let ?m1 = "apply_ops (zrem_ops k v z x) m"
  have f: "fields_at ?m1 k v = (fields_at m k v)(x := None)"
    and i: "index_at ?m1 k v = index_at m k v - {encode_score s @ x}"
    by (simp_all add: zrem_ops_def read_write s del: fun_upd_apply)
  have w: "index_wf ?m1 k v"
  proof (rule index_wfI)
    show "\<exists>s. \<not> f64_is_nan s \<and> raw = encode_score s" if "fields_at ?m1 k v f = Some raw" for f raw
    proof -
      have "((fields_at m k v)(x := None)) f = Some raw" using that f by simp
      then show ?thesis using Cons.prems(1) unfolding index_wf_def by (auto split: if_splits)
    qed
    show "index_at ?m1 k v = {encode_score s @ f | s f. fields_at ?m1 k v f = Some (encode_score s)}"
      using zgraph_delete [of "fields_at m k v" x s] s(2) Cons.prems(1)
      unfolding f i scores_at_Some [OF Cons.prems(1)] index_wf_def by simp
  qed
  have "\<forall>y \<in> set xs. z y = scores_at ?m1 k v y \<and> z y \<noteq> None"
  proof
    fix y assume y: "y \<in> set xs"
    then have "y \<noteq> x" using Cons.prems(2) by auto
    then have "scores_at ?m1 k v y = scores_at m k v y" using f by (simp add: scores_at_def)
    then show "z y = scores_at ?m1 k v y \<and> z y \<noteq> None"
      using Cons.prems(3) y by (metis list.set_intros(2))
  qed
  from Cons.IH [OF w _ this] Cons.prems(2) show ?case
    unfolding f by (simp add: fun_eq_iff restrict_map_def)
qed

subsection \<open>Effective pairs of one call\<close>

lemma map_of_effective_put: "map_of (effective_put x s xs) = (map_of xs)(x \<mapsto> s)"
  by (induction x s xs rule: effective_put.induct) auto

lemma fst_effective_put: "fst ` set (effective_put x s xs) = insert x (fst ` set xs)"
  by (induction x s xs rule: effective_put.induct) auto

lemma distinct_effective_put: "distinct (map fst xs) \<Longrightarrow> distinct (map fst (effective_put x s xs))"
proof (induction x s xs rule: effective_put.induct)
  case (2 x s y old rest)
  then show ?case using fst_effective_put [of x s rest] by auto
qed simp

lemma snd_effective_put: "snd ` set (effective_put x s xs) \<subseteq> insert s (snd ` set xs)"
  by (induction x s xs rule: effective_put.induct) auto

lemma effective_pairs_snoc:
  "effective_pairs (ps @ [(s, x)]) = effective_put x s (effective_pairs ps)"
  by (simp add: effective_pairs_def)

lemma effective_pairs_facts:
  "map_of (effective_pairs ps) = last_scores ps \<and> distinct (map fst (effective_pairs ps))
    \<and> fst ` set (effective_pairs ps) = snd ` set ps \<and> snd ` set (effective_pairs ps) \<subseteq> fst ` set ps"
proof (induction ps rule: rev_induct)
  case Nil
  then show ?case by (simp add: effective_pairs_def last_scores_def)
next
  case (snoc p ps)
  obtain s x where p: "p = (s, x)" by (cases p)
  have "last_scores (ps @ [p]) = (last_scores ps)(x \<mapsto> s)" by (simp add: last_scores_def p)
  moreover have "snd ` set (effective_pairs (ps @ [p])) \<subseteq> fst ` set (ps @ [p])"
  proof -
    have "snd ` set (effective_pairs (ps @ [p])) \<subseteq> insert s (snd ` set (effective_pairs ps))"
      unfolding p effective_pairs_snoc by (rule snd_effective_put)
    also have "\<dots> \<subseteq> insert s (fst ` set ps)" using snoc by (simp only: insert_mono)
    also have "\<dots> = fst ` set (ps @ [p])" by (simp add: p)
    finally show ?thesis .
  qed
  ultimately show ?case
    using snoc by (simp add: p effective_pairs_snoc map_of_effective_put fst_effective_put distinct_effective_put)
qed

subsection \<open>Rank order\<close>

lemma nths_cong:
  assumes "\<And>i. i < length xs \<Longrightarrow> i \<in> A \<longleftrightarrow> i \<in> B"
  shows "nths xs A = nths xs B"
proof -
  have "filter (\<lambda>p. snd p \<in> A) (zip xs [0..<length xs]) = filter (\<lambda>p. snd p \<in> B) (zip xs [0..<length xs])"
    by (rule filter_cong) (use assms in \<open>auto simp: set_zip\<close>)
  then show ?thesis by (simp add: nths_def)
qed

lemma normalize_range_redis:
  assumes "int (length xs) = len"
  shows "normalize_range start stop len =
    (let a = redis_index (length xs) start; b = redis_index (length xs) stop
     in if len \<le> 0 \<or> max a 0 > min b (len - 1) then None else Some (nat (max a 0), nat (min b (len - 1))))"
  using assms by (auto simp: normalize_range_def redis_index_def Let_def min_less_iff_disj less_max_iff_disj)

lemma normalize_range_index:
  assumes "int (length xs) = len"
  shows "index_range start stop xs =
    (case normalize_range start stop len of None \<Rightarrow> [] | Some (lo, hi) \<Rightarrow> nths xs {i. lo \<le> i \<and> i \<le> hi})"
    and "normalize_range start stop len = Some (lo, hi) \<Longrightarrow> lo \<le> hi \<and> hi < length xs"
proof -
  define a b where "a = redis_index (length xs) start" and "b = redis_index (length xs) stop"
  note nr = normalize_range_redis [OF assms, of start stop, folded a_def b_def, unfolded Let_def]
  show "normalize_range start stop len = Some (lo, hi) \<Longrightarrow> lo \<le> hi \<and> hi < length xs"
    using assms unfolding nr by (auto simp: nat_le_iff split: if_splits)
  show "index_range start stop xs =
    (case normalize_range start stop len of None \<Rightarrow> [] | Some (lo, hi) \<Rightarrow> nths xs {i. lo \<le> i \<and> i \<le> hi})"
  proof (cases "len \<le> 0 \<or> max a 0 > min b (len - 1)")
    case True
    then have "index_range start stop xs = nths xs {}"
      unfolding index_range_def a_def [symmetric] b_def [symmetric] using assms
      by (intro nths_cong) auto
    then show ?thesis using True nr by simp
  next
    case False
    have "index_range start stop xs = nths xs {i. nat (max a 0) \<le> i \<and> i \<le> nat (min b (len - 1))}"
      unfolding index_range_def a_def [symmetric] b_def [symmetric] using False assms
      by (intro nths_cong) auto
    then show ?thesis using False nr by simp
  qed
qed

lemma scans_zitems:
  assumes "scans m (zscore_prefix k v) xs" "index_wf m k v" "finite (dom m)"
  shows "map (\<lambda>(key, x). drop (length (zscore_prefix k v)) key) xs
    = map (\<lambda>y. encode_score (snd y) @ fst y) (zitems (scores_at m k v))"
proof -
  have fin: "finite (dom (scores_at m k v))" using finite_fields [OF assms(3)] by simp
  let ?ks = "map (\<lambda>(key, x). drop (length (zscore_prefix k v)) key) xs"
  have "set ?ks = fst ` set (map (\<lambda>(key, x). (drop (length (zscore_prefix k v)) key, x)) xs)"
    by (simp add: image_image case_prod_unfold)
  also have "\<dots> = index_at m k v"
    unfolding scans_strip(2) [OF assms(1)] by (force simp: index_at_def)
  also have "\<dots> = (\<lambda>f. encode_score (the (scores_at m k v f)) @ f) ` dom (scores_at m k v)"
    unfolding index_at_scores [OF assms(2)] by (auto simp: dom_def image_iff)
  finally have st: "set ?ks = \<dots>" .
  have "?ks = sorted_list_of_set (set ?ks)"
    using scans_strip(1) [OF assms(1)] by (metis sorted_list_of_set.idem_if_sorted_distinct strict_sorted_iff)
  then show ?thesis unfolding zitems_decoded [OF fin] st by simp
qed

lemma zrange_loop_eq:
  assumes "map (\<lambda>(key, x). drop n key) xs = map (\<lambda>y. encode_score (snd y) @ fst y) ys"
  shows "zrange_loop n lo hi (map Inr xs) rank out
    = Inr (out @ nths ys {i. lo \<le> rank + i \<and> rank + i \<le> hi})"
  using assms
proof (induction xs arbitrary: ys rank out)
  case Nil
  then show ?case by simp
next
  case (Cons x xs)
  obtain key val where x: "x = (key, val)" by (cases x)
  from Cons.prems obtain y ys' where ys: "ys = y # ys'" and d: "drop n key = encode_score (snd y) @ fst y"
    and rest: "map (\<lambda>(key, x). drop n key) xs = map (\<lambda>y. encode_score (snd y) @ fst y) ys'"
    using x by (cases ys) auto
  have sh: "{j. Suc j \<in> {i. lo \<le> rank + i \<and> rank + i \<le> hi}} = {i. lo \<le> Suc rank + i \<and> Suc rank + i \<le> hi}"
    by auto
  show ?case
    using Cons.IH [OF rest] by (auto simp: ys x d nths_Cons sh)
qed

lemma zrange_by_score_loop_eq:
  assumes "map (\<lambda>(key, x). drop n key) xs = map (\<lambda>y. encode_score (snd y) @ fst y) ys"
    "sorted_wrt zbefore ys" "\<forall>y \<in> set ys. \<not> f64_is_nan (snd y)" "\<not> f64_is_nan mn" "\<not> f64_is_nan mx"
  shows "zrange_by_score_loop n mn mne mx mxe (map Inr xs) out
    = Inr (out @ filter (\<lambda>y. in_score_range mn mne mx mxe (snd y)) ys)"
  using assms(1-3)
proof (induction xs arbitrary: ys out)
  case Nil
  then show ?case by simp
next
  case (Cons x xs)
  obtain key val where x: "x = (key, val)" by (cases x)
  from Cons.prems obtain y ys' where ys: "ys = y # ys'" and d: "drop n key = encode_score (snd y) @ fst y"
    and rest: "map (\<lambda>(key, x). drop n key) xs = map (\<lambda>y. encode_score (snd y) @ fst y) ys'"
    using x by (cases ys) auto
  have nn: "\<not> f64_is_nan (snd y)" "\<forall>y \<in> set ys'. \<not> f64_is_nan (snd y)"
    and up: "\<And>z. z \<in> set ys' \<Longrightarrow> f64_ord (snd y) \<le> f64_ord (snd z)"
    using Cons.prems(2,3) by (auto simp: ys zbefore_def)
  have srt: "sorted_wrt zbefore ys'" using Cons.prems(2) by (simp add: ys)
  have IH: "zrange_by_score_loop n mn mne mx mxe (map Inr xs) out'
      = Inr (out' @ filter (\<lambda>y. in_score_range mn mne mx mxe (snd y)) ys')" for out'
    by (rule Cons.IH [OF rest srt nn(2)])
  show ?case
  proof (cases "f64_lt mx (snd y) \<or> mxe \<and> f64_eq (snd y) mx")
    case True
    then have "filter (\<lambda>y. in_score_range mn mne mx mxe (snd y)) ys' = []"
      using up nn by (force simp: filter_empty_conv in_score_range_def f64_lt_def f64_eq_def split: if_splits)
    with True show ?thesis
      by (auto simp: ys x d in_score_range_def f64_lt_def f64_eq_def)
  next
    case False
    then show ?thesis using IH nn(1) assms(4,5)
      by (auto simp: ys x d in_score_range_def f64_lt_def f64_eq_def)
  qed
qed

subsection \<open>The commands\<close>

context reliable_engine
begin

lemma decode_stored_eq [simp]: "decode_stored_score (encode_score s) st = (Inr s, st)"
  by (simp add: decode_stored_score_def)

lemma zadd_loop_eq:
  assumes "index_wf (view (engine s)) k v"
  shows "zadd_loop E k v ps c a b s =
     (let z = scores_at (view (engine s)) k v; n = length (filter (\<lambda>p. fst p \<notin> dom z) ps)
      in (Inr (c + of_nat n, a + int n, b\<lparr>ops := ops b @ concat (map (zadd_ops k v z) ps)\<rparr>), s))"
proof (induction ps arbitrary: c a b)
  case Nil
  then show ?case by simp
next
  case (Cons p ps)
  obtain x sc where p: "p = (x, sc)" by (cases p)
  let ?z = "scores_at (view (engine s)) k v"
  show ?case
  proof (cases "?z x")
    case None
    then have "view (engine s) (subkey k v x) = None" by (simp add: scores_at_def fields_at_def)
    then show ?thesis using None Cons
      by (simp add: p Let_def zadd_ops_def batch_put_def algebra_simps domIff del: dom_scores_at)
  next
    case (Some old)
    then have "view (engine s) (subkey k v x) = Some (encode_score old)"
      using scores_at_Some [OF assms] by (simp add: fields_at_def)
    then show ?thesis using Some Cons
      by (simp add: p Let_def zadd_ops_def batch_put_def batch_delete_def algebra_simps try_then_def
          domIff del: dom_scores_at)
  qed
qed

lemma zrem_loop_eq:
  assumes "index_wf (view (engine s)) k v"
  shows "zrem_loop E k v xs seen c r b s =
     (let z = scores_at (view (engine s)) k v; gone = filter (\<lambda>x. x \<in> dom z) (firsts seen xs)
      in (Inr ((sat_dec ^^ length gone) c, r + int (length gone),
               b\<lparr>ops := ops b @ concat (map (zrem_ops k v z) gone)\<rparr>), s))"
proof (induction xs arbitrary: seen c r b)
  case Nil
  then show ?case by simp
next
  case (Cons x xs)
  let ?z = "scores_at (view (engine s)) k v"
  show ?case
  proof (cases "?z x")
    case None
    then have "view (engine s) (subkey k v x) = None" by (simp add: scores_at_def fields_at_def)
    then show ?thesis using None Cons by (simp add: Let_def domIff del: dom_scores_at)
  next
    case (Some old)
    then have "view (engine s) (subkey k v x) = Some (encode_score old)"
      using scores_at_Some [OF assms] by (simp add: fields_at_def)
    then show ?thesis using Some Cons
      by (simp add: Let_def zrem_ops_def batch_delete_def algebra_simps try_then_def funpow_swap1
          domIff del: dom_scores_at)
  qed
qed

lemma zset_index_wf:
  "meta_wf (view (engine s1)) (versions s1) k mt \<Longrightarrow> type_id mt = TYPE_ZSET \<Longrightarrow>
    index_wf (view (engine s1)) k (version mt)"
  by (simp add: meta_wf_def)

lemma as_zset_value:
  "known_type (type_id mt) \<Longrightarrow> as_zset (value_at m k mt)
    = (if type_id mt = TYPE_ZSET then Some (scores_at m k (version mt)) else None)"
  by (simp add: as_value scores_at_def)

lemma zadd_implements:
  assumes "store_ok view s" "valid_key k" "version_clock s \<noteq> - 1"
    and ps: "ps \<noteq> []" "\<forall>p \<in> set ps. \<not> f64_is_nan (fst p)" "length ps < 2 ^ 32"
      "\<And>z e. live_db view k s k = Some (RZSet z, e) \<Longrightarrow> card (dom z) + length ps < 2 ^ 32"
  shows "implements view k (zadd E k ps) (spec_zadd k ps) s"
  unfolding zadd_def spec_zadd_def Let_def
proof (rule implements_counted [OF assms(1-3), where val = "\<lambda>m mt. scores_at m k (version mt)"], goal_cases)
  case (4 s1 s2 mt)
  let ?m = "view (engine s1)" and ?z = "scores_at (view (engine s1)) k (version mt)"
  let ?eff = "effective_pairs ps"
  let ?os = "concat (map (zadd_ops k (version mt) ?z) ?eff)"
  let ?F = "fields_at (apply_ops ?os ?m) k (version mt)"
  let ?n = "card (snd ` set ps - dom ?z)" and ?c = "of_nat (card (dom ?z) + card (snd ` set ps - dom ?z))"
  note eff = effective_pairs_facts [of ps]
  have e: "engine s2 = engine s1" using 4(3) by (simp add: prepared_def)
  have fin: "finite (dom ?z)" using finite_fields [OF view_finite] by simp
  have ct: "counted_type (type_id mt)" "field_count mt = of_nat (card (dom ?z))"
    and ix: "index_wf ?m k (version mt)"
    using 4(4,5) by (simp_all add: counted_def contents_at_def)
  have live: "db_of view s1 k = Some (RZSet ?z, expire_ms mt)" "s2 = s1" if "?z \<noteq> Map.empty"
  proof -
    have "contents_at view s1 k mt \<noteq> Map.empty"
      using that by (auto simp: contents_at_def scores_at_def fun_eq_iff)
    then have "view (engine s1) (meta_key k) = Some (meta_encode mt)" and "s2 = s1"
      using 4(3) by (auto simp: prepared_def)
    then show "db_of view s1 k = Some (RZSet ?z, expire_ms mt)" "s2 = s1"
      using assms(2) 4(5) by (simp_all add: db_of_def abs_kv_simps value_at_def scores_at_def)
  qed
  have room: "card (dom ?z) + length ps < 2 ^ 32"
    using live ps(3,4) 4(2) by (cases "?z = Map.empty") auto
  have nn: "\<forall>p \<in> set ?eff. \<not> f64_is_nan (snd p)" using eff ps(2) by fastforce
  have za: "index_wf (apply_ops ?os ?m) k (version mt)"
    "scores_at (apply_ops ?os ?m) k (version mt) = zmerge ?z (last_scores ps)"
    using zadd_apply [OF ix _ nn, of ?z] eff by simp_all
  have dom_new: "dom (last_scores ps) = snd ` set ps"
    using eff by (metis dom_map_of_conv_image_fst)
  have dF: "dom ?F = dom ?z \<union> snd ` set ps"
    using za(2) dom_new by (metis dom_scores_at dom_zmerge)
  have len: "length (filter (\<lambda>p. fst p \<notin> dom ?z) ?eff) = ?n"
    using card_new_keys [of ?eff ?z] eff by (simp add: domIff del: dom_scores_at)
  have n: "?n \<le> length ps"
    by (metis Diff_subset card_length card_mono finite_set le_trans length_map set_map)
  have Fne: "?F \<noteq> Map.empty" using dF ps(1) by (metis Un_empty dom_empty image_is_empty set_empty)
  have "card (dom ?F) = card (dom ?z) + ?n"
    unfolding dF using card_Un_disjoint [of "dom ?z" "snd ` set ps - dom ?z"] fin by simp
  then have Fc: "card (dom ?F) < 2 ^ 32" "?c = of_nat (card (dom ?F))"
    using room n by (simp_all del: of_nat_add dom_scores_at)
  let ?g = "(\<lambda>m. try_then (zadd_loop E k (version m) ?eff (field_count m) 0 batch_new)
       (\<lambda>(count, added, batch).
         if \<not> batch_is_empty batch then
           try_then (engine_write E
               (batch_put (meta_key k) (meta_encode (set_field_count count m)) batch))
             (\<lambda>_. ok added)
         else ok added)) mt s2"
  have ix2: "index_wf (view (engine s2)) k (version mt)" using ix e by simp
  have loop: "zadd_loop E k (version mt) ?eff (field_count mt) 0 batch_new s2
      = (Inr (?c, int ?n, \<lparr>ops = ?os\<rparr>), s2)"
    unfolding zadd_loop_eq [OF ix2] Let_def e len by (simp add: ct batch_new_def)
  have r: "fst ?g = Inr (int ?n)" by (simp add: try_then_def loop)
  have "meets view ?g (replace k (Some (RZSet (zmerge ?z (last_scores ps)), expire_ms mt)) (int ?n) (db_of view s1))"
  proof (cases "?os = []")
    case True
    have same: "zmerge ?z (last_scores ps) = ?z" using za(2) unfolding True by simp
    have "dom ?z \<union> snd ` set ps = dom ?z" using same dom_new by (metis dom_zmerge)
    then have "?z \<noteq> Map.empty" using ps(1) by (metis Un_empty dom_empty image_is_empty set_empty)
    note live = live [OF this]
    have "snd ?g = s1" unfolding live(2) [symmetric] by (simp only: try_then_def loop True batch_is_empty_def) simp
    then show ?thesis unfolding meets_def replace_def r same
      using 4(1) live(1) by (simp add: fun_upd_idem)
  next
    case False
    have s': "view (engine (snd ?g)) = (apply_ops ?os ?m)(meta_key k \<mapsto> meta_encode (set_field_count ?c mt))"
        "versions (snd ?g) = versions s2" "version_clock (snd ?g) = version_clock s2"
      using False by (simp_all add: try_then_def loop e batch_is_empty_def)
    have os: "\<forall>x \<in> set ?os. owned k (op_key x) \<and> op_bounded (version mt) x"
      using zadd_ops_owned [OF assms(2)] by (simp only: set_concat set_map) blast
    note cc = counted_commit [OF 4(1) assms(2) 4(3) ct(1) os s' refl Fne Fc za(1)]
    have "value_at (apply_ops ?os ?m) k mt = RZSet (zmerge ?z (last_scores ps))"
      using 4(5) za(2) by (simp add: value_at_def scores_at_def)
    then show ?thesis using cc r 4(5) by (simp add: meets_def replace_def)
  qed
  then show ?case .
qed (simp_all add: counted_type_def as_zset_value, simp add: scores_at_def fun_eq_iff)

lemma zrem_implements:
  assumes "store_ok view s" "valid_key k"
  shows "implements view k (zrem E k ms) (spec_zrem k ms) s"
  unfolding zrem_def spec_zrem_def
proof (rule implements_typed [OF assms(1,2), where val = "\<lambda>m mt. scores_at m k (version mt)"], goal_cases)
  case (3 s1 mt)
  let ?m = "view (engine s1)" and ?z = "scores_at (view (engine s1)) k (version mt)"
  let ?h = "fields_at (view (engine s1)) k (version mt)"
  let ?gone = "filter (\<lambda>f. f \<in> dom ?z) (firsts {} ms)"
  let ?F = "?h |` (- set ms)" and ?n = "card (set ms \<inter> dom ?z)"
  let ?b = "\<lparr>ops = concat (map (zrem_ops k (version mt) ?z) ?gone)\<rparr>"
  have fin: "finite (dom ?h)" by (rule finite_fields [OF view_finite])
  have ct: "counted_type (type_id mt)" using 3(7) by (simp add: counted_type_def)
  have cnt: "field_count mt = of_nat (card (dom ?h))" "card (dom ?h) < 2 ^ 32"
    using meta_wf_counted [of view s1 k mt] 3(5) ct by (simp_all add: counted_def contents_at_def)
  have ix: "index_wf ?m k (version mt)" by (rule zset_index_wf [OF 3(5,7)])
  have gone: "set ?gone = set ms \<inter> dom ?z" by auto
  have len: "length ?gone = ?n" using gone by (metis distinct_card distinct_filter distinct_firsts)
  have "\<forall>x \<in> set ?gone. ?z x = ?z x \<and> ?z x \<noteq> None" unfolding gone by blast
  from zrem_apply [OF ix _ this]
  have zr: "index_wf (apply_ops (ops ?b) ?m) k (version mt)"
    "fields_at (apply_ops (ops ?b) ?m) k (version mt) = ?h |` (- (set ms \<inter> dom ?z))"
    unfolding gone by simp_all
  have F: "?F = fields_at (apply_ops (ops ?b) ?m) k (version mt)"
    unfolding zr(2) by (auto simp: fun_eq_iff restrict_map_def) (metis not_None_eq)
  have Fc: "card (dom ?F) < 2 ^ 32" "(sat_dec ^^ ?n) (field_count mt) = of_nat (card (dom ?F))"
    using card_dom_restrict [OF fin, of ms] cnt by (simp_all add: sat_dec_of_nat)
  have Ff: "finite (dom ?F)" using fin by (simp add: rev_finite_subset)
  have z: "ops ?b = []" if "?n = 0" using that len by simp
  have run: "try_then (zrem_loop E k (version mt) ms {} (field_count mt) 0 batch_new)
      (\<lambda>(fc, removed, batch). finish_removal E k mt fc removed batch) s1
    = finish_removal E k mt ((sat_dec ^^ ?n) (field_count mt)) (int ?n) ?b s1"
    unfolding try_then_def zrem_loop_eq [OF ix] Let_def len by (simp add: batch_new_def)
  have os: "\<forall>x \<in> set (ops ?b). owned k (op_key x) \<and> op_bounded (version mt) x"
    using zrem_ops_owned [OF assms(2)] by (simp only: write_batch.simps set_concat set_map) blast
  have val: "value_at (apply_ops (ops ?b) ?m) k mt = RZSet (?z |` (- set ms))"
  proof -
    have "value_at (apply_ops (ops ?b) ?m) k mt = RZSet (map_option decode_score \<circ> ?F)"
      unfolding F using 3(7) by (simp add: value_at_def)
    also have "map_option decode_score \<circ> ?F = ?z |` (- set ms)"
      by (simp add: scores_at_def restrict_map_def fun_eq_iff)
    finally show ?thesis .
  qed
  have emp: "?F = Map.empty \<longleftrightarrow> dom ?z \<subseteq> set ms" by (simp add: restrict_empty_iff)
  from finish_removal_meets [OF 3(1) assms(2) 3(4,5) ct os F Fc(1) Ff Fc(2), of ?n, OF z zr(1)]
  show ?case unfolding val emp by (simp only: option.case run)
qed (simp_all add: as_zset_value meets_def reply_def)

lemma zscore_implements:
  assumes "store_ok view s" "valid_key k"
  shows "implements view k (zscore E k x) (spec_zscore k x) s"
  unfolding zscore_def spec_zscore_def
proof (rule implements_typed [OF assms, where val = "\<lambda>m mt. scores_at m k (version mt)"], goal_cases)
  case (3 s1 mt)
  let ?z = "scores_at (view (engine s1)) k (version mt)"
  have ix: "index_wf (view (engine s1)) k (version mt)" by (rule zset_index_wf [OF 3(5,7)])
  show ?case
  proof (cases "?z x")
    case None
    then have "view (engine s1) (subkey k (version mt) x) = None" by (simp add: scores_at_def fields_at_def)
    then show ?thesis using 3(1) None by (simp add: meets_def reply_def)
  next
    case (Some sc)
    then have "view (engine s1) (subkey k (version mt) x) = Some (encode_score sc)"
      using scores_at_Some [OF ix] by (simp add: fields_at_def)
    then show ?thesis using 3(1) Some by (simp add: meets_def reply_def try_then_def)
  qed
qed (simp_all add: as_zset_value meets_def reply_def)

lemma zcard_implements:
  assumes "store_ok view s" "valid_key k"
  shows "implements view k (zcard E k) (spec_zcard k) s"
  unfolding zcard_def spec_zcard_def
  by (rule implements_count [OF assms, where val = "\<lambda>m mt. scores_at m k (version mt)"])
    (simp_all add: as_zset_value counted_type_def)

lemma zset_scan:
  assumes "meta_wf (view (engine s1)) (versions s1) k mt" "type_id mt = TYPE_ZSET"
  obtains xs where "eng_scan_prefix E (engine s1) (zscore_prefix k (version mt)) = map Inr xs"
    "map (\<lambda>(key, x). drop (length (zscore_prefix k (version mt))) key) xs
      = map (\<lambda>y. encode_score (snd y) @ fst y) (zitems (scores_at (view (engine s1)) k (version mt)))"
proof -
  obtain xs where xs: "eng_scan_prefix E (engine s1) (zscore_prefix k (version mt)) = map Inr xs"
    "scans (view (engine s1)) (zscore_prefix k (version mt)) xs"
    using scan_eq [of "engine s1" "zscore_prefix k (version mt)"] by blast
  from that [OF xs(1) scans_zitems [OF xs(2) zset_index_wf [OF assms] view_finite]] show thesis .
qed

lemma zrange_implements:
  assumes "store_ok view s" "valid_key k"
  shows "implements view k (zrange E k start stop) (spec_zrange k start stop) s"
  unfolding zrange_def spec_zrange_def
proof (rule implements_typed [OF assms, where val = "\<lambda>m mt. scores_at m k (version mt)"], goal_cases)
  case (3 s1 mt)
  let ?z = "scores_at (view (engine s1)) k (version mt)"
  have fin: "finite (dom ?z)" using finite_fields [OF view_finite] by simp
  have "counted view s1 k mt" using meta_wf_counted [of view s1 k mt] 3(5,7) by (simp add: counted_type_def)
  then have len: "int (length (zitems ?z)) = uint (field_count mt)"
    using length_zitems [OF fin] by (simp add: counted_def contents_at_def uint_nat unat_of_nat)
  obtain xs where xs: "eng_scan_prefix E (engine s1) (zscore_prefix k (version mt)) = map Inr xs"
    "map (\<lambda>(key, x). drop (length (zscore_prefix k (version mt))) key) xs
      = map (\<lambda>y. encode_score (snd y) @ fst y) (zitems ?z)"
    by (rule zset_scan [OF 3(5,7)])
  show ?case
    using 3(1) normalize_range_index(1) [OF len, of start stop] zrange_loop_eq [OF xs(2)]
    by (simp add: meets_def reply_def xs(1) Let_def split: option.splits prod.splits)
qed (simp_all add: as_zset_value meets_def reply_def)

lemma zrange_by_score_implements:
  assumes "store_ok view s" "valid_key k" "\<not> f64_is_nan mn" "\<not> f64_is_nan mx"
  shows "implements view k (zrange_by_score E k mn mne mx mxe) (spec_zrange_by_score k mn mne mx mxe) s"
  unfolding zrange_by_score_def spec_zrange_by_score_def
proof (rule implements_typed [OF assms(1,2), where val = "\<lambda>m mt. scores_at m k (version mt)"], goal_cases)
  case (3 s1 mt)
  let ?z = "scores_at (view (engine s1)) k (version mt)"
  have fin: "finite (dom ?z)" using finite_fields [OF view_finite] by simp
  have nn: "\<forall>y \<in> set (zitems ?z). \<not> f64_is_nan (snd y)"
    using set_zitems [OF fin] scores_not_nan [OF zset_index_wf [OF 3(5,7)]] by auto
  obtain xs where xs: "eng_scan_prefix E (engine s1) (zscore_prefix k (version mt)) = map Inr xs"
    "map (\<lambda>(key, x). drop (length (zscore_prefix k (version mt))) key) xs
      = map (\<lambda>y. encode_score (snd y) @ fst y) (zitems ?z)"
    by (rule zset_scan [OF 3(5,7)])
  show ?case
    using 3(1) zrange_by_score_loop_eq [OF xs(2) sorted_zitems [OF fin] nn assms(3,4)]
    by (simp add: meets_def reply_def xs(1) Let_def)
qed (simp_all add: as_zset_value meets_def reply_def)

end

end
