(* ===== verification/List_Refine.thy ===== *)
theory List_Refine
  imports ZSet_Refine
begin

text \<open>
  The List commands of \<open>store.rs\<close> implement their specification.  A list is the records at the
  64-bit indexes \<open>head .. tail\<close>; the lemmas below are about indexes that have not wrapped
  around, which takes \<open>2 ^ 63\<close> pushes on one side of one list.
\<close>

definition llist :: "kv \<Rightarrow> bytes \<Rightarrow> u64 \<Rightarrow> u64 \<Rightarrow> u64 \<Rightarrow> bytes list" where
  "llist m k v h t = list_at m k v h (unat (t - h))"

definition elem :: "kv \<Rightarrow> bytes \<Rightarrow> u64 \<Rightarrow> nat \<Rightarrow> bytes option" where
  "elem m k v i = fields_at m k v (list_index_field (of_nat i))"

lemma list_index_field_inject [simp]: "list_index_field i = list_index_field j \<longleftrightarrow> i = j"
  by (simp add: list_index_field_def)

lemma unat_diff_u64: "h \<le> t \<Longrightarrow> unat (t - h) = unat t - unat (h :: u64)"
  by (simp add: unat_sub)

lemma llist_elems: "h \<le> t \<Longrightarrow> llist m k v h t = map (\<lambda>i. the (elem m k v i)) [unat h..<unat t]"
proof -
  assume "h \<le> t"
  have "[unat h..<unat t] = map (\<lambda>i. i + unat h) [0..<unat t - unat h]"
    using \<open>h \<le> t\<close> by (simp add: map_add_upt word_le_nat_alt)
  then show ?thesis
    using \<open>h \<le> t\<close>
    by (simp add: llist_def list_at_def elem_def unat_diff_u64 add.commute comp_def)
qed

lemma length_llist: "h \<le> t \<Longrightarrow> length (llist m k v h t) = unat (t - h)"
  by (simp add: llist_def list_at_def)

text \<open>The bounds invariant over natural-number indexes.\<close>

lemma bounds_wf_nat:
  "bounds_wf m k v h t \<longleftrightarrow>
     h \<le> t \<and> unat t - unat h < 2 ^ 63
     \<and> dom (fields_at m k v) = (\<lambda>i. list_index_field (of_nat i)) ` {unat h..<unat t}"
proof -
  have "{list_index_field i | i. h \<le> i \<and> i < t} = (\<lambda>i. list_index_field (of_nat i)) ` {unat h..<unat t}"
  proof (intro set_eqI iffI)
    fix x assume "x \<in> {list_index_field i | i. h \<le> i \<and> i < t}"
    then obtain i where i: "x = list_index_field i" "h \<le> i" "i < t" by blast
    then have "x = list_index_field (of_nat (unat i))" "unat i \<in> {unat h..<unat t}"
      by (simp_all add: word_le_nat_alt word_less_nat_alt)
    then show "x \<in> (\<lambda>i. list_index_field (of_nat i)) ` {unat h..<unat t}" by blast
  next
    fix x assume "x \<in> (\<lambda>i. list_index_field (of_nat i)) ` {unat h..<unat t}"
    then obtain i where i: "x = list_index_field (of_nat i)" "unat h \<le> i" "i < unat t" by auto
    then have "i < 2 ^ 64" using unat_u64_bound [of t] by simp
    then have "unat (of_nat i :: u64) = i" by (rule unat_of_nat_u64)
    with i show "x \<in> {list_index_field i | i. h \<le> i \<and> i < t}"
      by (auto simp: word_le_nat_alt word_less_nat_alt)
  qed
  then show ?thesis
    by (auto simp: bounds_wf_def unat_diff_u64 simp del: of_nat_unat)
qed

lemma bounds_elem:
  assumes "bounds_wf m k v h t" "unat h \<le> i" "i < unat t"
  shows "elem m k v i \<noteq> None"
proof -
  have "list_index_field (of_nat i) \<in> dom (fields_at m k v)"
    using assms unfolding bounds_wf_nat by auto
  then show ?thesis by (auto simp: elem_def)
qed

lemma elem_upd:
  assumes "i < 2 ^ 64" "j < 2 ^ 64"
  shows "elem (m(subkey k v (list_index_field (of_nat i)) := x)) k v j = (if j = i then x else elem m k v j)"
  using assms unat_of_nat_u64 [of i] unat_of_nat_u64 [of j]
  by (auto simp: elem_def read_write simp del: fun_upd_apply) (metis fun_upd_apply list_index_field_inject)+

lemma index_image_insert:
  "dom ((f :: kv)(list_index_field i \<mapsto> x)) = insert (list_index_field i) (dom f)"
  by simp

subsection \<open>One push\<close>

lemma push_right_one:
  fixes x :: bytes
  assumes b: "bounds_wf m k v h t" and r: "unat t + 1 < 2 ^ 64" "unat t - unat h + 1 < 2 ^ 63"
  defines "m' \<equiv> m(subkey k v (list_index_field t) \<mapsto> x)"
  shows "bounds_wf m' k v h (t + 1)" "llist m' k v h (t + 1) = llist m k v h t @ [x]"
proof -
  have ht: "h \<le> t" using b by (simp add: bounds_wf_def)
  have ut: "unat (t + 1) = Suc (unat t)" using r(1) by (simp add: unat_word_ariths)
  have ht1: "h \<le> t + 1" using ht ut by (simp add: word_le_nat_alt)
  have hn: "unat h \<le> unat t" using ht by (simp add: word_le_nat_alt)
  have m': "m' = m(subkey k v (list_index_field (of_nat (unat t))) := Some x)" by (simp add: m'_def)
  have "dom (fields_at m' k v) = insert (list_index_field t) (dom (fields_at m k v))"
    by (simp add: m'_def read_write del: fun_upd_apply)
  then show "bounds_wf m' k v h (t + 1)"
    using b ht1 r(2) hn unfolding bounds_wf_nat ut
    by (auto simp: atLeastLessThanSuc)
  have "elem m' k v i = elem m k v i" if "i < unat t" for i
    using that r(1) unfolding m' by (subst elem_upd) auto
  moreover have "elem m' k v (unat t) = Some x"
    using r(1) unfolding m' by (subst elem_upd) auto
  ultimately show "llist m' k v h (t + 1) = llist m k v h t @ [x]"
    using hn unfolding llist_elems [OF ht] llist_elems [OF ht1] ut by simp
qed

lemma push_left_one:
  fixes x :: bytes
  assumes b: "bounds_wf m k v h t" and r: "1 \<le> unat h" "unat t - unat h + 1 < 2 ^ 63"
  defines "m' \<equiv> m(subkey k v (list_index_field (h - 1)) \<mapsto> x)"
  shows "bounds_wf m' k v (h - 1) t" "llist m' k v (h - 1) t = x # llist m k v h t"
proof -
  have ht: "h \<le> t" using b by (simp add: bounds_wf_def)
  have "1 \<le> h" using r(1) by (simp add: word_le_nat_alt)
  then have uh: "unat h = Suc (unat (h - 1))" using r(1) by (simp add: unat_sub)
  have ht1: "h - 1 \<le> t" using ht uh by (simp add: word_le_nat_alt)
  have hn: "unat h \<le> unat t" using ht by (simp add: word_le_nat_alt)
  have m': "m' = m(subkey k v (list_index_field (of_nat (unat (h - 1)))) := Some x)" by (simp add: m'_def)
  have "dom (fields_at m' k v) = insert (list_index_field (h - 1)) (dom (fields_at m k v))"
    by (simp add: m'_def read_write del: fun_upd_apply)
  moreover have "{unat (h - 1)..<unat t} = insert (unat (h - 1)) {unat h..<unat t}"
    using uh hn by auto
  ultimately show "bounds_wf m' k v (h - 1) t"
    using b ht1 r(2) hn uh unfolding bounds_wf_nat by simp
  have b64: "i < 2 ^ 64" if "i < unat t" for i using that unat_u64_bound [of t] by simp
  have "elem m' k v i = elem m k v i" if "i < unat t" "unat h \<le> i" for i
    using that b64 uh hn unfolding m' by (subst elem_upd) auto
  moreover have "elem m' k v (unat (h - 1)) = Some x"
    using b64 uh hn unfolding m' by (subst elem_upd) auto
  moreover have "[unat (h - 1)..<unat t] = unat (h - 1) # [unat h..<unat t]"
    using uh hn by (simp add: upt_conv_Cons)
  ultimately show "llist m' k v (h - 1) t = x # llist m k v h t"
    unfolding llist_elems [OF ht] llist_elems [OF ht1] by simp
qed

subsection \<open>One pop\<close>

lemma pop_left_one:
  assumes b: "bounds_wf m k v h t" and lt: "h < t"
  defines "m' \<equiv> m(subkey k v (list_index_field h) := None)"
  shows "elem m k v (unat h) \<noteq> None" "bounds_wf m' k v (h + 1) t"
    "llist m k v h t = the (elem m k v (unat h)) # llist m' k v (h + 1) t"
proof -
  have hn: "unat h < unat t" using lt by (simp add: word_less_nat_alt)
  then have uh: "unat (h + 1) = Suc (unat h)" using unat_u64_bound [of t] by (simp add: unat_word_ariths)
  have ht: "h \<le> t" using lt by simp
  have ht1: "h + 1 \<le> t" using hn uh by (simp add: word_le_nat_alt)
  have m': "m' = m(subkey k v (list_index_field (of_nat (unat h))) := None)" by (simp add: m'_def)
  have b64: "i < 2 ^ 64" if "i < unat t" for i using that unat_u64_bound [of t] by simp
  show "elem m k v (unat h) \<noteq> None" by (rule bounds_elem [OF b]) (use hn in simp_all)
  have "dom (fields_at m' k v) = dom (fields_at m k v) - {list_index_field (of_nat (unat h))}"
    by (simp add: m'_def read_write del: fun_upd_apply)
  also have "\<dots> = (\<lambda>i. list_index_field (of_nat i)) ` {Suc (unat h)..<unat t}"
  proof -
    have inj: "inj_on (\<lambda>i. list_index_field (of_nat i)) {unat h..<unat t}"
      using b64 unat_of_nat_u64 by (auto simp: inj_on_def) (metis unat_of_nat_u64 b64)
    have "{Suc (unat h)..<unat t} = {unat h..<unat t} - {unat h}" by auto
    then show ?thesis using b hn inj_on_image_set_diff [OF inj, of "{unat h..<unat t}" "{unat h}"]
      unfolding bounds_wf_nat by simp
  qed
  finally show "bounds_wf m' k v (h + 1) t"
    using b ht1 unfolding bounds_wf_nat uh by auto
  have "elem m' k v i = elem m k v i" if "i < unat t" "Suc (unat h) \<le> i" for i
    using that b64 hn unfolding m' by (subst elem_upd) auto
  then show "llist m k v h t = the (elem m k v (unat h)) # llist m' k v (h + 1) t"
    unfolding llist_elems [OF ht] llist_elems [OF ht1] uh using hn by (simp add: upt_conv_Cons)
qed

lemma pop_right_one:
  assumes b: "bounds_wf m k v h t" and lt: "h < t"
  defines "m' \<equiv> m(subkey k v (list_index_field (t - 1)) := None)"
  shows "elem m k v (unat (t - 1)) \<noteq> None" "bounds_wf m' k v h (t - 1)"
    "llist m k v h t = llist m' k v h (t - 1) @ [the (elem m k v (unat (t - 1)))]"
proof -
  have hn: "unat h < unat t" using lt by (simp add: word_less_nat_alt)
  then have "1 \<le> t" by (simp add: word_le_nat_alt)
  then have ut: "unat t = Suc (unat (t - 1))" using hn by (simp add: unat_sub)
  have ht: "h \<le> t" using lt by simp
  have ht1: "h \<le> t - 1" using hn ut by (simp add: word_le_nat_alt)
  have m': "m' = m(subkey k v (list_index_field (of_nat (unat (t - 1)))) := None)" by (simp add: m'_def)
  have b64: "i < 2 ^ 64" if "i < unat t" for i using that unat_u64_bound [of t] by simp
  show "elem m k v (unat (t - 1)) \<noteq> None" by (rule bounds_elem [OF b]) (use hn ut in simp_all)
  have "dom (fields_at m' k v) = dom (fields_at m k v) - {list_index_field (of_nat (unat (t - 1)))}"
    by (simp add: m'_def read_write del: fun_upd_apply)
  also have "\<dots> = (\<lambda>i. list_index_field (of_nat i)) ` {unat h..<unat (t - 1)}"
  proof -
    have inj: "inj_on (\<lambda>i. list_index_field (of_nat i)) {unat h..<unat t}"
      using b64 unat_of_nat_u64 by (auto simp: inj_on_def) (metis unat_of_nat_u64 b64)
    have "{unat h..<unat (t - 1)} = {unat h..<unat t} - {unat (t - 1)}" using ut by auto
    then show ?thesis using b hn ut inj_on_image_set_diff [OF inj, of "{unat h..<unat t}" "{unat (t - 1)}"]
      unfolding bounds_wf_nat by simp
  qed
  finally show "bounds_wf m' k v h (t - 1)"
    using b ht1 ut unfolding bounds_wf_nat by auto
  have "elem m' k v i = elem m k v i" if "i < unat (t - 1)" for i
    using that b64 ut unfolding m' by (subst elem_upd) auto
  then show "llist m k v h t = llist m' k v h (t - 1) @ [the (elem m k v (unat (t - 1)))]"
    unfolding llist_elems [OF ht] llist_elems [OF ht1] ut using hn ut by simp
qed

subsection \<open>The loops\<close>

definition safe_ops :: "bytes \<Rightarrow> u64 \<Rightarrow> write_op list \<Rightarrow> bool" where
  "safe_ops k v os \<longleftrightarrow> (\<forall>x \<in> set os. owned k (op_key x) \<and> op_bounded v x)"

lemma safe_ops_simps [simp]:
  "safe_ops k v []"
  "valid_key k \<Longrightarrow> safe_ops k v (os @ [Put (subkey k v f) x]) \<longleftrightarrow> safe_ops k v os"
  "valid_key k \<Longrightarrow> safe_ops k v (os @ [Delete (subkey k v f)]) \<longleftrightarrow> safe_ops k v os"
  by (auto simp: safe_ops_def)

lemma llist_empty_iff: "h \<le> t \<Longrightarrow> llist m k v h t = [] \<longleftrightarrow> h = t"
  by (simp add: llist_elems) (auto simp: word_le_nat_alt word_unat_eq_iff)

lemma bounds_wf_le: "bounds_wf m k v h t \<Longrightarrow> h \<le> t"
  by (simp add: bounds_wf_def)

lemma bounds_wf_small: "bounds_wf m k v h t \<Longrightarrow> sint (t - h) = int (length (llist m k v h t))"
  by (simp add: bounds_wf_def length_llist sint_u64_small)

lemma push_loop_spec:
  assumes "valid_key k" "bounds_wf (apply_ops (ops b) m) k v h t" "safe_ops k v (ops b)"
    "if left then length vs \<le> unat h else unat t + length vs < 2 ^ 64"
    "unat t - unat h + length vs < 2 ^ 63" "push_loop k v left vs h t b = (h', t', b')"
  shows "bounds_wf (apply_ops (ops b') m) k v h' t' \<and> safe_ops k v (ops b')
    \<and> llist (apply_ops (ops b') m) k v h' t'
      = (if left then rev vs @ llist (apply_ops (ops b) m) k v h t
         else llist (apply_ops (ops b) m) k v h t @ vs)"
  using assms(2-)
proof (induction vs arbitrary: h t b)
  case Nil
  then show ?case by simp
next
  case (Cons x vs)
  have ht: "unat h \<le> unat t" using Cons.prems(1) by (simp add: bounds_wf_def word_le_nat_alt)
  show ?case
  proof (cases left)
    case True
    let ?b = "batch_put (subkey k v (list_index_field (h - 1))) x b"
    have r: "1 \<le> unat h" "unat t - unat h + 1 < 2 ^ 63" using True Cons.prems(3,4) by auto
    then have uh: "unat (h - 1) = unat h - 1" by (simp add: unat_sub word_le_nat_alt)
    note one = push_left_one [OF Cons.prems(1) r, of x]
    have "bounds_wf (apply_ops (ops ?b) m) k v (h - 1) t" using one(1) by (simp del: fun_upd_apply)
    from Cons.IH [OF this] show ?thesis
      using one(2) Cons.prems assms(1) True uh ht by (simp del: fun_upd_apply)
  next
    case False
    let ?b = "batch_put (subkey k v (list_index_field t)) x b"
    have r: "unat t + 1 < 2 ^ 64" "unat t - unat h + 1 < 2 ^ 63" using False Cons.prems(3,4) by auto
    then have ut: "unat (t + 1) = unat t + 1" by (simp add: unat_word_ariths)
    note one = push_right_one [OF Cons.prems(1) r, of x]
    have "bounds_wf (apply_ops (ops ?b) m) k v h (t + 1)" using one(1) by (simp del: fun_upd_apply)
    from Cons.IH [OF this] show ?thesis
      using one(2) Cons.prems assms(1) False ut ht by (simp del: fun_upd_apply)
  qed
qed

definition popped :: "bool \<Rightarrow> nat \<Rightarrow> 'a list \<Rightarrow> 'a list" where
  "popped left n xs = (if left then take n xs else take n (rev xs))"

definition remaining :: "bool \<Rightarrow> nat \<Rightarrow> 'a list \<Rightarrow> 'a list" where
  "remaining left n xs = (if left then drop n xs else take (length xs - n) xs)"

lemma popped_simps [simp]:
  "popped left n [] = []" "popped left 0 xs = []"
  "popped True (Suc n) (x # xs) = x # popped True n xs"
  "popped False (Suc n) (xs @ [x]) = x # popped False n xs"
  by (simp_all add: popped_def)

lemma remaining_simps [simp]:
  "remaining left n [] = []" "remaining left 0 xs = xs"
  "remaining True (Suc n) (x # xs) = remaining True n xs"
  "remaining False (Suc n) (xs @ [x]) = remaining False n xs"
  by (simp_all add: remaining_def)

lemma popped_empty_iff: "xs \<noteq> [] \<Longrightarrow> popped left n xs = [] \<longleftrightarrow> n = 0"
  by (simp add: popped_def)

lemma remaining_empty_iff: "remaining left n xs = [] \<longleftrightarrow> length xs \<le> n"
  by (auto simp: remaining_def)

lemma elem_delete_other:
  assumes "i \<noteq> unat j" "i < 2 ^ 64"
  shows "elem (m(subkey k v (list_index_field j) := None)) k v i = elem m k v i"
proof -
  have "unat j < 2 ^ 64" using unat_u64_bound [of j] by simp
  from elem_upd [OF this assms(2), of m k v None] assms(1) show ?thesis by (simp del: fun_upd_apply)
qed

context reliable_engine
begin

lemma pop_loop_spec:
  assumes "valid_key k" "bounds_wf (apply_ops (ops b) (view (engine s))) k v h t" "safe_ops k v (ops b)"
    "\<And>i. unat h \<le> i \<Longrightarrow> i < unat t \<Longrightarrow>
       elem (view (engine s)) k v i = elem (apply_ops (ops b) (view (engine s))) k v i"
    "n = count - length out" "L = llist (apply_ops (ops b) (view (engine s))) k v h t"
  shows "\<exists>h' t' b'. pop_loop E k v left count h t out b s = (Inr (h', t', out @ popped left n L, b'), s)
    \<and> bounds_wf (apply_ops (ops b') (view (engine s))) k v h' t' \<and> safe_ops k v (ops b')
    \<and> llist (apply_ops (ops b') (view (engine s))) k v h' t' = remaining left n L"
  using assms(2-)
proof (induction n arbitrary: h t b out L)
  case 0
  then show ?case by (subst pop_loop.simps) auto
next
  case (Suc n)
  let ?m = "view (engine s)"
  have le: "h \<le> t" using Suc.prems(1) by (rule bounds_wf_le)
  show ?case
  proof (cases "h = t")
    case True
    then have "L = []" using Suc.prems(5) llist_empty_iff [OF le] by simp
    then show ?thesis using True Suc.prems(1,2,5) by (subst pop_loop.simps) auto
  next
    case False
    then have lt: "h < t" using le by simp
    have more: "length out < count" using Suc.prems(4) by simp
    show ?thesis
    proof (cases left)
      case True
      let ?b = "batch_delete (subkey k v (list_index_field h)) b"
      note one = pop_left_one [OF Suc.prems(1) lt]
      obtain x where x: "?m (subkey k v (list_index_field h)) = Some x" "elem (apply_ops (ops b) ?m) k v (unat h) = Some x"
        using one(1) Suc.prems(3) [of "unat h"] lt by (auto simp: word_less_nat_alt elem_def fields_at_def)
      let ?L = "llist (apply_ops (ops ?b) ?m) k v (h + 1) t"
      have L: "L = x # ?L" using one(3) Suc.prems(5) x(2) by (simp del: fun_upd_apply)
      have uh: "unat (h + 1) = Suc (unat h)"
        using lt unat_u64_bound [of t] by (simp add: unat_word_ariths word_less_nat_alt)
      have "\<exists>h' t' b'. pop_loop E k v left count (h + 1) t (out @ [x]) ?b s
          = (Inr (h', t', (out @ [x]) @ popped left n ?L, b'), s)
        \<and> bounds_wf (apply_ops (ops b') ?m) k v h' t' \<and> safe_ops k v (ops b')
        \<and> llist (apply_ops (ops b') ?m) k v h' t' = remaining left n ?L"
      proof (rule Suc.IH)
        show "bounds_wf (apply_ops (ops ?b) ?m) k v (h + 1) t" using one(2) by (simp del: fun_upd_apply)
        show "safe_ops k v (ops ?b)" using Suc.prems(2) assms(1) by simp
        show "elem ?m k v i = elem (apply_ops (ops ?b) ?m) k v i" if "unat (h + 1) \<le> i" "i < unat t" for i
          using that uh Suc.prems(3) [of i] unat_u64_bound [of t]
          by (simp add: elem_delete_other del: fun_upd_apply)
      qed (use Suc.prems(4) in \<open>simp_all del: fun_upd_apply\<close>)
      then show ?thesis using more lt x(1) True L by (subst pop_loop.simps) (simp add: Let_def)
    next
      case False
      let ?b = "batch_delete (subkey k v (list_index_field (t - 1))) b"
      note one = pop_right_one [OF Suc.prems(1) lt]
      have ut: "unat t = Suc (unat (t - 1))"
        using lt by (simp add: unat_sub word_less_nat_alt word_le_nat_alt)
      obtain x where x: "?m (subkey k v (list_index_field (t - 1))) = Some x"
        "elem (apply_ops (ops b) ?m) k v (unat (t - 1)) = Some x"
        using one(1) Suc.prems(3) [of "unat (t - 1)"] lt ut
        by (auto simp: word_less_nat_alt elem_def fields_at_def)
      let ?L = "llist (apply_ops (ops ?b) ?m) k v h (t - 1)"
      have L: "L = ?L @ [x]" using one(3) Suc.prems(5) x(2) by (simp del: fun_upd_apply)
      have "\<exists>h' t' b'. pop_loop E k v left count h (t - 1) (out @ [x]) ?b s
          = (Inr (h', t', (out @ [x]) @ popped left n ?L, b'), s)
        \<and> bounds_wf (apply_ops (ops b') ?m) k v h' t' \<and> safe_ops k v (ops b')
        \<and> llist (apply_ops (ops b') ?m) k v h' t' = remaining left n ?L"
      proof (rule Suc.IH)
        show "bounds_wf (apply_ops (ops ?b) ?m) k v h (t - 1)" using one(2) by (simp del: fun_upd_apply)
        show "safe_ops k v (ops ?b)" using Suc.prems(2) assms(1) by simp
        show "elem ?m k v i = elem (apply_ops (ops ?b) ?m) k v i" if "unat h \<le> i" "i < unat (t - 1)" for i
          using that ut Suc.prems(3) [of i] unat_u64_bound [of t]
          by (simp add: elem_delete_other del: fun_upd_apply)
      qed (use Suc.prems(4) in \<open>simp_all del: fun_upd_apply\<close>)
      then show ?thesis using more lt x(1) False L by (subst pop_loop.simps) (simp add: Let_def)
    qed
  qed
qed

lemma lrange_loop_eq:
  assumes "\<forall>i \<in> set is. fields_at (view (engine s)) k v (list_index_field (h + of_nat i)) \<noteq> None"
  shows "lrange_loop E k v h is out s =
    (Inr (out @ map (\<lambda>i. the (fields_at (view (engine s)) k v (list_index_field (h + of_nat i)))) is), s)"
  using assms by (induction "is" arbitrary: out) (auto simp: fields_at_def)

end

subsection \<open>Committing new bounds\<close>

lemma list_bounds_be64: "type_id mt = TYPE_LIST \<Longrightarrow> payload mt = be64 h @ be64 t \<Longrightarrow> list_bounds mt = Some (h, t)"
  by (simp add: list_bounds_def slice_def)

lemma list_meta:
  assumes "meta_wf m vm k mt" "type_id mt = TYPE_LIST"
  obtains h t where "list_bounds mt = Some (h, t)" "bounds_wf m k (version mt) h t" "h < t"
    "list_value m k mt = llist m k (version mt) h t" "vm_get k vm = Some (version mt)"
proof -
  from assms obtain h t where p: "payload mt = be64 h @ be64 t" and b: "bounds_wf m k (version mt) h t"
    and ne: "fields_at m k (version mt) \<noteq> Map.empty" and vm: "vm_get k vm = Some (version mt)"
    by (auto simp: meta_wf_def)
  have lb: "list_bounds mt = Some (h, t)" by (rule list_bounds_be64 [OF assms(2) p])
  have "dom (fields_at m k (version mt)) \<noteq> {}" using ne by (metis dom_eq_empty_conv)
  then have "h < t" using b unfolding bounds_wf_nat by (auto simp: word_less_nat_alt)
  then show thesis using that lb b vm by (simp add: list_value_def llist_def)
qed

lemma list_commit:
  assumes ok: "store_ok view s1" "valid_key k" "prepared view s1 s2 k mt" "type_id mt = TYPE_LIST"
    and os: "safe_ops k (version mt) os"
    and s': "view (engine s') = (apply_ops os (view (engine s1)))(meta_key k \<mapsto> meta_encode (set_list_bounds h t mt))"
      "versions s' = versions s2" "version_clock s' = version_clock s2"
    and b: "bounds_wf (apply_ops os (view (engine s1))) k (version mt) h t" "h \<noteq> t"
  shows "store_ok view s'"
    "db_of view s' = (db_of view s1)(k \<mapsto> (RList (llist (apply_ops os (view (engine s1))) k (version mt) h t), expire_ms mt))"
proof -
  let ?mt = "set_list_bounds h t mt"
  let ?os = "os @ [Put (meta_key k) (meta_encode ?mt)]"
  have v: "view (engine s') = apply_ops ?os (view (engine s1))" using s'(1) by simp
  have p: "version_clock s1 \<le> version_clock s'" "version mt \<le> version_clock s'"
    "vm_get k (versions s') = Some (version mt)"
    "\<And>k'. k' \<noteq> k \<Longrightarrow> vm_get k' (versions s') = vm_get k' (versions s1)"
    using ok(3) s' by (auto simp: prepared_def)
  have "unat h \<in> {unat h..<unat t}" using b bounds_wf_le [OF b(1)]
    by (auto simp: word_le_nat_alt word_unat_eq_iff)
  then have "fields_at (apply_ops os (view (engine s1))) k (version mt) \<noteq> Map.empty"
    using b(1) unfolding bounds_wf_nat by (metis dom_empty image_is_empty empty_iff)
  then have mwf: "meta_wf (apply_ops os (view (engine s1))) (versions s') k ?mt"
    using p(3) ok(4) b by (auto simp: meta_wf_def set_list_bounds_def)
  have os': "\<forall>x \<in> set ?os. owned k (op_key x) \<and> op_bounded (version_clock s') x"
    using os op_bounded_subset [OF _ p(2)] by (auto simp: safe_ops_def)
  have "key_wf (view (engine s')) (versions s') k"
    using mwf unfolding s'(1) by (simp add: key_wf_simps(2) [of _ _ ?mt])
  note c = commit [of view s1 k s' ?os, OF ok(1,2) v p(1) os' p(4) this]
  show "store_ok view s'" by (rule c(1))
  have "value_at (apply_ops os (view (engine s1))) k ?mt = RList (llist (apply_ops os (view (engine s1))) k (version mt) h t)"
    using ok(4) by (simp add: value_at_def llist_def)
  then have "abs_kv (view (engine s')) k = Some (RList (llist (apply_ops os (view (engine s1))) k (version mt) h t), expire_ms mt)"
    using ok(2) unfolding s'(1) by (simp add: abs_kv_simps(2) [of _ _ ?mt])
  then show "db_of view s' = (db_of view s1)(k \<mapsto> (RList (llist (apply_ops os (view (engine s1))) k (version mt) h t), expire_ms mt))"
    using c(2) by simp
qed

lemma prepared_set_bounds:
  assumes "prepared view s1 s2 k mt" "contents_at view s1 k mt = Map.empty"
  shows "prepared view s1 s2 k (set_list_bounds h t mt)"
  using assms by (simp add: prepared_def contents_at_def)

lemma bounds_wf_empty: "fields_at m k v = Map.empty \<Longrightarrow> bounds_wf m k v h h"
  by (simp add: bounds_wf_nat)

text \<open>Room for \<open>n\<close> more elements on one side of a list.\<close>

definition list_room :: "('e \<Rightarrow> kv) \<Rightarrow> 'e store \<Rightarrow> bytes \<Rightarrow> nat \<Rightarrow> bool \<Rightarrow> bool" where
  "list_room view s k n left \<longleftrightarrow>
     n < 2 ^ 63
     \<and> (case Option.bind (meta_at (view (engine s)) k) list_bounds of
          None \<Rightarrow> True
        | Some (h, t) \<Rightarrow>
            (if left then n \<le> unat h else unat t + n < 2 ^ 64) \<and> unat (t - h) + n < 2 ^ 63)"

context reliable_engine
begin

lemma push_meets:
  assumes ok: "store_ok view s1" "valid_key k" "prepared view s1 s2 k mt" "type_id mt = TYPE_LIST"
      "list_bounds mt = Some (h, t)"
    and b: "bounds_wf (view (engine s1)) k (version mt) h t"
    and r: "if left then length vs \<le> unat h else unat t + length vs < 2 ^ 64"
      "unat t - unat h + length vs < 2 ^ 63" "vs \<noteq> []"
    and ys: "ys = (if left then rev vs @ llist (view (engine s1)) k (version mt) h t
        else llist (view (engine s1)) k (version mt) h t @ vs)"
  shows "meets view
      (try_then (bounds_or_corrupt mt) (\<lambda>(head0, tail0).
        let (head, tail, batch) = push_loop k (version mt) left vs head0 tail0 batch_new
        in try_then (engine_write E
             (batch_put (meta_key k) (meta_encode (set_list_bounds head tail mt)) batch))
             (\<lambda>_. ok (sint (tail - head)))) s2)
      (replace k (Some (RList ys, expire_ms mt)) (int (length ys)) (db_of view s1))"
proof -
  obtain h' t' b' where loop: "push_loop k (version mt) left vs h t batch_new = (h', t', b')"
    using prod_cases3 by blast
  have e: "engine s2 = engine s1" using ok(3) by (simp add: prepared_def)
  have sp: "bounds_wf (apply_ops (ops b') (view (engine s1))) k (version mt) h' t'"
    "safe_ops k (version mt) (ops b')"
    "llist (apply_ops (ops b') (view (engine s1))) k (version mt) h' t' = ys"
    using push_loop_spec [OF ok(2) _ _ r(1,2) loop, of "view (engine s1)"] b ys by auto
  have ne: "h' \<noteq> t'"
    using sp r(3) ys llist_empty_iff [OF bounds_wf_le [OF sp(1)]] by (auto split: if_splits)
  let ?s' = "s2\<lparr>engine := snd (eng_write E (engine s1)
    (batch_put (meta_key k) (meta_encode (set_list_bounds h' t' mt)) b'))\<rparr>"
  have v: "view (engine ?s') = (apply_ops (ops b') (view (engine s1)))(meta_key k \<mapsto> meta_encode (set_list_bounds h' t' mt))"
    "versions ?s' = versions s2" "version_clock ?s' = version_clock s2"
    by simp_all
  have "store_ok view ?s'" "db_of view ?s' = (db_of view s1)(k \<mapsto> (RList ys, expire_ms mt))"
    using list_commit [OF ok(1-4) sp(2) v sp(1) ne] sp(3) by simp_all
  then show ?thesis
    using ok(5) bounds_wf_small [OF sp(1)] sp(3)
    by (simp add: bounds_or_corrupt_def loop e meets_def replace_def)
qed

lemma push_implements:
  assumes "store_ok view s" "valid_key k" "version_clock s \<noteq> - 1" "vs \<noteq> []" "list_room view s k (length vs) left"
  shows "implements view k (store_push E k vs left) (spec_push k vs left) s"
  unfolding store_push_def spec_push_def Let_def [of "\<lambda>xs e. _ xs e"] try_then_assoc
proof (rule implements_typed [OF assms(1,2), where val = "\<lambda>m mt. list_value m k mt"], goal_cases)
  case 1
  then show ?case by (simp add: as_value)
next
  case (2 s1)
  obtain mt s2 where n: "new_composite_meta k TYPE_LIST s1 = (mt, s2)" by fastforce
  have clk: "version_clock s1 \<noteq> - 1" using 2(2) assms(3) by simp
  note p = prepared_new [OF 2(1) assms(2) 2(6) clk n]
  let ?mt = "set_list_bounds LIST_INITIAL_INDEX LIST_INITIAL_INDEX mt"
  have f: "fields_at (view (engine s1)) k (version mt) = Map.empty" using p(5) by (simp add: contents_at_def)
  have i: "unat LIST_INITIAL_INDEX = 2 ^ 63" by (simp add: LIST_INITIAL_INDEX_def)
  have l: "length vs < 2 ^ 63" using assms(5) by (simp add: list_room_def)
  have bw: "bounds_wf (view (engine s1)) k (version ?mt) LIST_INITIAL_INDEX LIST_INITIAL_INDEX"
    using f by (simp add: bounds_wf_empty)
  have "llist (view (engine s1)) k (version ?mt) LIST_INITIAL_INDEX LIST_INITIAL_INDEX = []"
    by (simp add: llist_empty_iff)
  with push_meets [OF 2(1) assms(2) prepared_set_bounds [OF p(1,5)] _ _ bw _ _ assms(4), of left] p(2,3) n i l
  show ?case by (auto simp: Let_def try_then_assoc)
next
  case (3 s1 mt)
  obtain h t where ht: "list_bounds mt = Some (h, t)" "bounds_wf (view (engine s1)) k (version mt) h t"
    "list_value (view (engine s1)) k mt = llist (view (engine s1)) k (version mt) h t"
    by (rule list_meta [OF 3(5,7)])
  have p: "prepared view s1 s1 k mt" by (rule prepared_found [OF 3(1) assms(2) 3(4,5)]) (simp add: 3(7))
  have "meta_at (view (engine s)) k = Some mt" using 3(4,8) by (simp add: meta_at_simps)
  then have r: "if left then length vs \<le> unat h else unat t + length vs < 2 ^ 64"
    "unat t - unat h + length vs < 2 ^ 63"
    using assms(5) ht(1) unat_diff_u64 [OF bounds_wf_le [OF ht(2)]] by (auto simp: list_room_def)
  from push_meets [OF 3(1) assms(2) p 3(7) ht(1,2) r assms(4) refl] show ?case
    by (cases left) (simp_all add: ht(3) Let_def)
qed

lemma pop_implements:
  assumes "store_ok view s" "valid_key k"
  shows "implements view k (store_pop E k n left) (spec_pop k n left) s"
  unfolding store_pop_def spec_pop_def
proof (rule implements_typed [OF assms(1,2), where val = "\<lambda>m mt. list_value m k mt"], goal_cases)
  case (3 s1 mt)
  let ?m = "view (engine s1)"
  obtain h t where ht: "list_bounds mt = Some (h, t)" "bounds_wf ?m k (version mt) h t" "h < t"
    "list_value ?m k mt = llist ?m k (version mt) h t"
    by (rule list_meta [OF 3(5,7)])
  let ?L = "llist ?m k (version mt) h t"
  have p: "prepared view s1 s1 k mt" by (rule prepared_found [OF 3(1) assms(2) 3(4,5)]) (simp add: 3(7))
  have vb: "version mt \<le> version_clock s1" using p by (simp add: prepared_def)
  have Lne: "?L \<noteq> []" using ht(3) llist_empty_iff [of h t] by simp
  obtain h' t' b' where run: "pop_loop E k (version mt) left n h t [] batch_new s1 = (Inr (h', t', popped left n ?L, b'), s1)"
    and bw: "bounds_wf (apply_ops (ops b') ?m) k (version mt) h' t'" and sf: "safe_ops k (version mt) (ops b')"
    and rest: "llist (apply_ops (ops b') ?m) k (version mt) h' t' = remaining left n ?L"
    using pop_loop_spec [where b = batch_new and s = s1 and out = "[]" and count = n and left = left, OF assms(2)] ht(2)
    by fastforce
  let ?g = "(\<lambda>m. try_then (bounds_or_corrupt m) (\<lambda>(head0, tail0).
          try_then (pop_loop E k (version m) left n head0 tail0 [] batch_new)
            (\<lambda>(head, tail, out, batch).
              if out \<noteq> [] then
                if head = tail then
                  try_then (engine_write E batch) (\<lambda>_.
                  try_then (logical_delete E k) (\<lambda>_. ok out))
                else
                  try_then (engine_write E
                    (batch_put (meta_key k) (meta_encode (set_list_bounds head tail m)) batch))
                    (\<lambda>_. ok out)
              else ok out))) mt s1"
  have at: "db_of view s1 k = Some (RList ?L, expire_ms mt)"
    using 3(6,7) ht(4) by (simp add: value_at_def list_value_def split: option.splits prod.splits)
  have emp: "h' = t' \<longleftrightarrow> length ?L \<le> n"
    using llist_empty_iff [OF bounds_wf_le [OF bw], of "apply_ops (ops b') ?m" k "version mt"]
    unfolding rest remaining_empty_iff by blast
  have fst_g: "fst ?g = Inr (popped left n ?L)"
    by (simp add: bounds_or_corrupt_def ht(1) try_then_def run)
  have "meets view ?g (replace k (if length ?L \<le> n then None else Some (RList (remaining left n ?L), expire_ms mt))
      (popped left n ?L) (db_of view s1))"
  proof -
    consider (zero) "n = 0" | (all) "n \<noteq> 0" "h' = t'" | (part) "n \<noteq> 0" "h' \<noteq> t'" by blast
    then show ?thesis
    proof cases
      case zero
      then have "popped left n ?L = []" by simp
      then have "snd ?g = s1" by (simp add: bounds_or_corrupt_def ht(1) try_then_def run)
      then show ?thesis using zero fst_g Lne 3(1) at by (simp add: meets_def replace_def fun_upd_idem)
    next
      case all
      then have v: "view (engine (snd ?g)) = (apply_ops (ops b') ?m)(meta_key k := None)"
        "versions (snd ?g) = vm_remove k (versions s1)" "version_clock (snd ?g) = version_clock s1"
        using Lne by (simp_all add: bounds_or_corrupt_def ht(1) try_then_def run popped_empty_iff)
      from counted_delete [OF 3(1) assms(2) vb sf [unfolded safe_ops_def] v] all emp fst_g
      show ?thesis by (simp add: meets_def replace_def)
    next
      case part
      then have v: "view (engine (snd ?g)) = (apply_ops (ops b') ?m)(meta_key k \<mapsto> meta_encode (set_list_bounds h' t' mt))"
        "versions (snd ?g) = versions s1" "version_clock (snd ?g) = version_clock s1"
        using Lne by (simp_all add: bounds_or_corrupt_def ht(1) try_then_def run popped_empty_iff)
      from list_commit [OF 3(1) assms(2) p 3(7) sf v bw part(2)] part(2) emp fst_g rest
      show ?thesis by (simp add: meets_def replace_def)
    qed
  qed
  then show ?case unfolding ht(4) popped_def remaining_def by (simp only: option.case)
qed (simp_all add: as_value meets_def reply_def)

lemma lrange_implements:
  assumes "store_ok view s" "valid_key k"
  shows "implements view k (lrange E k start stop) (spec_lrange k start stop) s"
  unfolding lrange_def spec_lrange_def
proof (rule implements_typed [OF assms(1,2), where val = "\<lambda>m mt. list_value m k mt"], goal_cases)
  case (3 s1 mt)
  let ?m = "view (engine s1)"
  obtain h t where ht: "list_bounds mt = Some (h, t)" "bounds_wf ?m k (version mt) h t"
    "list_value ?m k mt = llist ?m k (version mt) h t"
    by (rule list_meta [OF 3(5,7)])
  let ?L = "llist ?m k (version mt) h t"
  let ?e = "\<lambda>i. fields_at ?m k (version mt) (list_index_field (h + of_nat i))"
  have len: "int (length ?L) = sint (t - h)" using bounds_wf_small [OF ht(2)] by simp
  have nth: "?e i \<noteq> None" "?L ! i = the (?e i)" if "i < length ?L" for i
  proof -
    have i: "unat h + i < unat t"
      using that length_llist [OF bounds_wf_le [OF ht(2)]] unat_diff_u64 [OF bounds_wf_le [OF ht(2)]] by simp
    show "?e i \<noteq> None"
      using bounds_elem [OF ht(2), of "unat h + i"] i by (simp add: elem_def)
    show "?L ! i = the (?e i)" using that by (simp add: llist_def list_at_def)
  qed
  show ?case
  proof (cases "normalize_range start stop (sint (t - h))")
    case None
    then show ?thesis using 3(1) ht normalize_range_index(1) [OF len, of start stop]
      by (simp add: bounds_or_corrupt_def meets_def reply_def)
  next
    case (Some p)
    obtain lo hi where p: "p = (lo, hi)" by (cases p)
    have b: "lo \<le> hi" "hi < length ?L" using normalize_range_index(2) [OF len] Some p by blast+
    have ns: "nths ?L {i. lo \<le> i \<and> i \<le> hi} = map (\<lambda>i. the (?e i)) [lo..<Suc hi]"
      unfolding nths_interval
      by (rule nth_equalityI) (use b nth(2) in \<open>auto simp: nth_append simp del: upt_Suc\<close>)
    have "\<forall>i \<in> set [lo..<Suc hi]. ?e i \<noteq> None" using nth(1) b by auto
    from lrange_loop_eq [OF this, of "[]"]
    show ?thesis using 3(1) ht normalize_range_index(1) [OF len, of start stop] Some p ns
      by (simp add: bounds_or_corrupt_def meets_def reply_def del: upt_Suc)
  qed
qed (simp_all add: as_value meets_def reply_def)

lemma llen_implements:
  assumes "store_ok view s" "valid_key k"
  shows "implements view k (llen E k) (spec_llen k) s"
  unfolding llen_def spec_llen_def
proof (rule implements_typed [OF assms(1,2), where val = "\<lambda>m mt. list_value m k mt"], goal_cases)
  case (3 s1 mt)
  obtain h t where ht: "list_bounds mt = Some (h, t)" "bounds_wf (view (engine s1)) k (version mt) h t"
    "list_value (view (engine s1)) k mt = llist (view (engine s1)) k (version mt) h t"
    by (rule list_meta [OF 3(5,7)])
  then show ?case using 3(1) bounds_wf_small [OF ht(2)] by (simp add: meets_def reply_def)
qed (simp_all add: as_value meets_def reply_def)

end

end
