(* ===== verification/Admin_Refine.thy ===== *)
theory Admin_Refine
  imports List_Refine
begin

text \<open>
  Compaction with the version-map filter, \<open>flush_all\<close>, \<open>dbsize\<close>, and opening a store over an
  existing engine (a restart).  Compaction is invisible to clients and leaves only records of
  current versions; a restart rebuilds the version map from the metadata records.
\<close>

text \<open>Two maps that agree on what a key currently uses represent the same value there.\<close>

lemma current_records_enough:
  assumes "m' (meta_key k) = m (meta_key k)"
    "\<And>mt. m (meta_key k) = Some (meta_encode mt) \<Longrightarrow> type_id mt \<noteq> TYPE_STRING \<Longrightarrow>
       fields_at m' k (version mt) = fields_at m k (version mt)
       \<and> index_at m' k (version mt) = index_at m k (version mt)"
    "vm_get k vm' = vm_get k vm" "key_wf m vm k" "valid_key k"
  shows "key_wf m' vm' k" "abs_kv m' k = abs_kv m k"
proof -
  show "key_wf m' vm' k"
  proof (cases "m (meta_key k)")
    case None
    then show ?thesis using assms by (simp add: key_wf_def)
  next
    case (Some raw)
    then obtain mt where mt: "m (meta_key k) = Some (meta_encode mt)" "meta_wf m vm k mt"
      using assms(4) by (auto simp: key_wf_def meta_decode_iff split: option.splits)
    have "meta_wf m' vm' k mt = meta_wf m vm k mt"
    proof (cases "type_id mt = TYPE_STRING")
      case False
      note f = assms(2) [OF mt(1) False]
      show ?thesis
        unfolding meta_wf_def count_wf_def index_wf_def bounds_wf_def f [THEN conjunct1] f [THEN conjunct2] assms(3) ..
    qed (simp add: meta_wf_def assms(3))
    then show ?thesis using mt assms(1) key_wf_simps(2) [of m' k mt vm'] by simp
  qed
  show "abs_kv m' k = abs_kv m k"
  proof (cases "m (meta_key k)")
    case None
    then show ?thesis using assms(1) by (simp add: abs_kv_simps)
  next
    case (Some raw)
    then obtain mt where mt: "m (meta_key k) = Some (meta_encode mt)"
      using assms(4) by (auto simp: key_wf_def meta_decode_iff split: option.splits)
    have "value_at m' k mt = value_at m k mt"
    proof (cases "type_id mt = TYPE_STRING")
      case False
      show ?thesis unfolding value_at_def list_at_def assms(2) [OF mt False, THEN conjunct1] ..
    qed (simp add: value_at_def)
    then show ?thesis using mt assms(1,5) by (simp add: abs_kv_simps)
  qed
qed

text \<open>A compaction keeps metadata and the records of tracked structures; \<open>vm\<close>, which it goes by, may track
  more than the map \<open>vm0\<close> the records are well-formed for.\<close>

lemma compacts_records:
  assumes "compacts (\<lambda>k v. \<not> g \<or> gc_should_keep vm k v) range_default m m'" "store_wf m vm0 vc"
    and "\<And>k v. vm_get k vm0 = Some v \<Longrightarrow> vm_get k vm = Some v"
  shows "m' raw = None \<or> m' raw = m raw" "m' (meta_key k) = m (meta_key k)"
    "valid_key k \<Longrightarrow> m (meta_key k) = Some (meta_encode mt) \<Longrightarrow> type_id mt \<noteq> TYPE_STRING \<Longrightarrow>
       fields_at m' k (version mt) = fields_at m k (version mt) \<and> index_at m' k (version mt) = index_at m k (version mt)"
proof -
  show sub: "m' raw = None \<or> m' raw = m raw" for raw
    using assms(1) by (metis compacts_def map_le_def domIff)
  have keep: "m' raw = m raw" if "should_keep vm raw" for raw
    using assms(1) that sub unfolding compacts_def gc_should_keep_def by (metis not_None_eq)
  show "m' (meta_key k) = m (meta_key k)" by (rule keep) simp
  assume k: "valid_key k" and mt: "m (meta_key k) = Some (meta_encode mt)" "type_id mt \<noteq> TYPE_STRING"
  have "meta_wf m vm0 k mt" using assms(2) k mt(1) by (simp add: store_wf_def key_wf_def split: option.splits)
  then have "vm_get k vm = Some (version mt)" using mt(2) by (intro assms(3)) (simp add: meta_wf_def)
  then have "m' (subkey k (version mt) f) = m (subkey k (version mt) f)"
    "m' (zscore_prefix k (version mt) @ x) = m (zscore_prefix k (version mt) @ x)" for f x
    using k by (auto intro!: keep simp: should_keep_subkey should_keep_zscore)
  then show "fields_at m' k (version mt) = fields_at m k (version mt) \<and> index_at m' k (version mt) = index_at m k (version mt)"
    by (simp add: fields_at_def index_at_def fun_eq_iff)
qed

lemma compacts_keeps_db:
  assumes "compacts (\<lambda>k v. \<not> g \<or> gc_should_keep vm k v) range_default m m'" "store_wf m vm0 vc"
    and "\<And>k v. vm_get k vm0 = Some v \<Longrightarrow> vm_get k vm = Some v"
  shows "abs_kv m' = abs_kv m"
proof
  fix k
  have "key_wf m vm0 k" if "valid_key k" using assms(2) that by (simp add: store_wf_def)
  then show "abs_kv m' k = abs_kv m k"
    using current_records_enough(2) [OF compacts_records(2,3) [OF assms] refl, of k]
    by (cases "valid_key k") (auto simp: abs_kv_def)
qed

lemma compacts_current:
  assumes "compacts (\<lambda>k v. \<not> g \<or> gc_should_keep vm k v) range_default m m'" "store_wf m vm vc"
  shows "store_wf m' vm vc" "abs_kv m' = abs_kv m"
    "g \<Longrightarrow> m' raw \<noteq> None \<Longrightarrow> parse_owner_version raw = Some (k, v) \<Longrightarrow> vm_get k vm = Some v"
proof -
  note sub = compacts_records(1) [OF assms] and meta = compacts_records(2) [OF assms] and rec = compacts_records(3) [OF assms]
  have key: "key_wf m vm k" if "valid_key k" for k using assms(2) that by (simp add: store_wf_def)
  have "versions_bounded m' vc"
    using assms(2) sub unfolding store_wf_def by (metis versions_bounded_subset)
  moreover have "keys_valid m'" using assms(2) by (simp add: store_wf_def keys_valid_def meta)
  ultimately show "store_wf m' vm vc"
    using current_records_enough(1) [OF meta rec refl key] unfolding store_wf_def by blast
  show "abs_kv m' = abs_kv m" by (rule compacts_keeps_db [OF assms])
  assume "g" and "m' raw \<noteq> None" and p: "parse_owner_version raw = Some (k, v)"
  then obtain x where "m raw = Some x" "m' raw \<noteq> None" using sub [of raw] by auto
  then have "should_keep vm raw"
    using assms(1) \<open>g\<close> unfolding compacts_def gc_should_keep_def by (metis in_range_default)
  then show "vm_get k vm = Some v" using p by (auto simp: should_keep_def split: option.splits)
qed

subsection \<open>Deleting whole families\<close>

lemma apply_deletes: "apply_ops (map Delete ks) m = m |` (- set ks)"
proof (induction ks arbitrary: m)
  case Nil
  then show ?case by (simp add: restrict_map_def)
next
  case (Cons k ks)
  then show ?case by (simp add: Cons.IH del: fun_upd_apply) (auto simp: fun_eq_iff restrict_map_def)
qed

lemma fold_batch_delete:
  "ops (fold (\<lambda>(k, v). batch_delete k) xs b) = ops b @ map Delete (map fst xs)"
  by (induction xs arbitrary: b) auto

lemma fold_count: "fold (\<lambda>(k, v) n. n + 1) xs acc = acc + int (length xs)"
  by (induction xs arbitrary: acc) auto

subsection \<open>Rebuilding the version map\<close>

definition composite :: "byte \<Rightarrow> bool" where
  "composite ty \<longleftrightarrow> ty \<in> {TYPE_HASH, TYPE_SET, TYPE_ZSET, TYPE_LIST}"

definition rebuilt :: "kv \<Rightarrow> version_map" where
  "rebuilt m k =
     (case meta_at m k of
        None \<Rightarrow> None
      | Some mt \<Rightarrow> if composite (type_id mt) then Some (version mt) else None)"

lemma rebuild_fold:
  assumes "distinct (map fst xs)" "\<forall>x \<in> set xs. prefix [META_PREFIX] (fst x)"
  shows "fold (\<lambda>(k, v). rebuild_step k v) xs vm k =
    (case map_of xs (meta_key k) of
       None \<Rightarrow> vm k
     | Some raw \<Rightarrow> (case meta_decode raw of
          None \<Rightarrow> vm k
        | Some mt \<Rightarrow> if composite (type_id mt) then Some (version mt) else vm k))"
  using assms
proof (induction xs arbitrary: vm)
  case Nil
  then show ?case by simp
next
  case (Cons x xs)
  obtain uk raw where x: "x = (meta_key uk, raw)"
    using Cons.prems(2) by (cases x) (auto simp: prefix_def meta_key_def)
  have nx: "map_of xs (meta_key uk) = None" using Cons.prems(1) x by (auto simp: map_of_eq_None_iff)
  have step: "rebuild_step (meta_key uk) raw vm = (case meta_decode raw of
      None \<Rightarrow> vm | Some mt \<Rightarrow> if composite (type_id mt) then vm(uk \<mapsto> version mt) else vm)"
    by (simp add: rebuild_step_def meta_key_def vm_set_def composite_def split: option.splits)
  show ?case
    using Cons nx by (auto simp: x step split: option.splits)
qed

lemma map_of_scans:
  assumes "scans m p xs" "prefix p k"
  shows "map_of xs k = m k"
proof -
  have d: "distinct (map fst xs)" and st: "set xs = {(k, v). m k = Some v \<and> prefix p k}"
    using assms(1) by (simp_all add: scans_def strict_sorted_iff)
  show ?thesis
  proof (cases "m k")
    case None
    then show ?thesis using st by (auto simp: map_of_eq_None_iff)
  next
    case (Some v)
    then show ?thesis using st d assms(2) by (simp add: map_of_eq_Some_iff)
  qed
qed

lemma rebuilt_wf:
  assumes "store_wf m vm vc" "valid_key k"
  shows "rebuilt m k = vm_get k vm"
proof -
  have "key_wf m vm k" using assms by (simp add: store_wf_def)
  then show ?thesis
    using meta_wf_known [of m vm k]
    by (auto simp: key_wf_def rebuilt_def meta_at_def meta_wf_def composite_def known_type_def
        split: option.splits if_splits)
qed

context reliable_engine
begin

lemma compact_ok:
  assumes "store_ok view s"
  shows "\<exists>s'. store_compact E s = (Inr (), s') \<and> store_ok view s' \<and> db_of view s' = db_of view s
    \<and> versions s' = versions s \<and> version_clock s' = version_clock s \<and> gc_on (engine s') = gc_on (engine s)
    \<and> (gc_on (engine s) \<longrightarrow> (\<forall>raw k v. view (engine s') raw \<noteq> None \<longrightarrow> parse_owner_version raw = Some (k, v)
         \<longrightarrow> vm_get k (versions s) = Some v))"
proof -
  let ?c = "eng_compact_range E (gc_should_keep (versions s)) (engine s) (Some range_default)"
  have run: "store_compact E s = (Inr (), s\<lparr>engine := snd ?c\<rparr>)"
    unfolding store_compact_def by (subst compact_eq) simp
  have "compacts (\<lambda>k v. \<not> gc_on (engine s) \<or> gc_should_keep (versions s) k v) range_default
      (view (engine s)) (view (snd ?c))"
    using compact_view [of "engine s" "gc_should_keep (versions s)" "Some range_default"]
    by (simp add: range_or_all_def)
  note cc = compacts_current [OF this]
  have "store_wf (view (engine s)) (versions s) (version_clock s)" using assms by (simp add: store_ok_def)
  from cc(1-3) [OF this] run compact_gc show ?thesis
    by (simp add: store_ok_def db_of_def)
qed

lemma flush_all_ok:
  assumes "store_ok view s"
  shows "\<exists>s'. flush_all E s = (Inr (), s') \<and> store_ok view s' \<and> db_of view s' = Map.empty
    \<and> versions s' = Map.empty
    \<and> (\<forall>raw. view (engine s') raw = (if raw \<noteq> [] \<and> hd raw \<in> {META_PREFIX, SUBKEY_PREFIX, ZSCORE_PREFIX}
          then None else view (engine s) raw))"
proof -
  let ?m = "view (engine s)"
  let ?del = "\<lambda>k (v :: bytes) b. batch_delete k b"
  obtain x1 where x1: "scans ?m [META_PREFIX] x1"
    "\<And>f acc. engine_for E [META_PREFIX] f acc s = (Inr (fold (\<lambda>(k, v). f k v) x1 acc :: write_batch), s)"
    using scan_eq [of "engine s" "[META_PREFIX]"] by (auto simp: engine_for_def for_items_ok)
  obtain x2 where x2: "scans ?m [SUBKEY_PREFIX] x2"
    "\<And>f acc. engine_for E [SUBKEY_PREFIX] f acc s = (Inr (fold (\<lambda>(k, v). f k v) x2 acc :: write_batch), s)"
    using scan_eq [of "engine s" "[SUBKEY_PREFIX]"] by (auto simp: engine_for_def for_items_ok)
  obtain x3 where x3: "scans ?m [ZSCORE_PREFIX] x3"
    "\<And>f acc. engine_for E [ZSCORE_PREFIX] f acc s = (Inr (fold (\<lambda>(k, v). f k v) x3 acc :: write_batch), s)"
    using scan_eq [of "engine s" "[ZSCORE_PREFIX]"] by (auto simp: engine_for_def for_items_ok)
  let ?b = "fold (\<lambda>(k, v). ?del k v) x3 (fold (\<lambda>(k, v). ?del k v) x2 (fold (\<lambda>(k, v). ?del k v) x1 batch_new))"
  let ?s' = "s\<lparr>engine := snd (eng_write E (engine s) ?b), versions := vm_clear (versions s)\<rparr>"
  have run: "flush_all E s = (Inr (), ?s')"
    by (simp add: flush_all_def try_then_def x1(2) x2(2) x3(2))
  have ops: "ops ?b = map Delete (map fst (x1 @ x2 @ x3))"
    by (simp add: fold_batch_delete)
  have v: "view (engine ?s') = ?m |` (- set (map fst (x1 @ x2 @ x3)))"
  proof -
    have "view (engine ?s') = apply_ops (ops ?b) ?m" by simp
    then show ?thesis unfolding ops apply_deletes .
  qed
  have fam: "raw \<in> fst ` set xs \<longleftrightarrow> ?m raw \<noteq> None \<and> raw \<noteq> [] \<and> hd raw = p"
    if "scans ?m [p] xs" for p xs raw
  proof -
    have "raw \<in> fst ` set xs \<longleftrightarrow> ?m raw \<noteq> None \<and> prefix [p] raw"
      using that by (auto simp: scans_def image_iff)
    then show ?thesis by (cases raw) auto
  qed
  have all: "view (engine ?s') raw = (if raw \<noteq> [] \<and> hd raw \<in> {META_PREFIX, SUBKEY_PREFIX, ZSCORE_PREFIX}
      then None else ?m raw)" for raw
    unfolding v using fam [OF x1(1), of raw] fam [OF x2(1), of raw] fam [OF x3(1), of raw]
    by (auto simp: restrict_map_def)
  have mk: "view (engine ?s') (meta_key k) = None" for k
    using all [of "meta_key k"] by (simp add: meta_key_def)
  have "versions_bounded (view (engine ?s')) (version_clock s)"
  proof (rule versions_bounded_subset)
    show "versions_bounded ?m (version_clock s)" using assms by (simp add: store_ok_def store_wf_def)
    show "?m raw \<noteq> None" if "view (engine ?s') raw \<noteq> None" for raw
      using that all [of raw] by metis
  qed
  then have "store_ok view ?s'"
    using mk by (simp add: store_ok_def store_wf_def keys_valid_def key_wf_def vm_simps)
  moreover have "db_of view ?s' = Map.empty"
    using mk by (simp add: db_of_def abs_kv_def meta_at_def fun_eq_iff)
  ultimately show ?thesis using run all by (simp add: vm_clear_def)
qed

lemma dbsize_eq:
  assumes "store_ok view s"
  shows "dbsize E s = (Inr (int (card (dom (db_of view s)))), s)"
proof -
  obtain xs where xs: "scans (view (engine s)) [META_PREFIX] xs"
    "engine_for E [META_PREFIX] (\<lambda>_ _ n. n + 1 :: int) 0 s = (Inr (fold (\<lambda>(k, v) n. n + 1) xs 0), s)"
    by (rule engine_for_eq)
  have wf: "store_wf (view (engine s)) (versions s) (version_clock s)" using assms by (simp add: store_ok_def)
  have key: "(view (engine s) (meta_key k) \<noteq> None) = (k \<in> dom (db_of view s))" for k
  proof (cases "valid_key k")
    case True
    then show ?thesis using store_ok_key [OF assms True] by (auto simp: db_of_def abs_kv_simps)
  next
    case False
    then show ?thesis using wf by (auto simp: store_wf_def keys_valid_def db_of_def abs_kv_def)
  qed
  have img: "meta_key ` dom (db_of view s) = fst ` set xs"
  proof -
    have "fst ` set xs = {raw. view (engine s) raw \<noteq> None \<and> prefix [META_PREFIX] raw}"
      using xs(1) by (auto simp: scans_def image_iff)
    moreover have "prefix [META_PREFIX] raw \<longleftrightarrow> (\<exists>k. raw = meta_key k)" for raw
      by (cases raw) (auto simp: meta_key_def)
    ultimately have "fst ` set xs = meta_key ` {k. view (engine s) (meta_key k) \<noteq> None}" by auto
    then show ?thesis unfolding key by simp
  qed
  have "distinct (map fst xs)" using xs(1) by (simp add: scans_def strict_sorted_iff)
  from distinct_card [OF this] have "length xs = card (fst ` set xs)" by simp
  also have "\<dots> = card (dom (db_of view s))"
    unfolding img [symmetric] by (rule card_image) (simp add: inj_on_def)
  finally show ?thesis using xs(2) by (simp add: dbsize_def fold_count)
qed

lemma with_engine_ok:
  assumes "store_ok view s"
  shows "\<exists>s'. with_engine E (engine s) clk rd = Inr s' \<and> view (engine s') = view (engine s)
    \<and> gc_on (engine s') \<and> (\<forall>k. valid_key k \<longrightarrow> vm_get k (versions s') = vm_get k (versions s))
    \<and> version_clock s' = clk \<and> db_of view s' = db_of view s
    \<and> (version_clock s \<le> clk \<longrightarrow> store_ok view s')"
proof -
  let ?e = "eng_install_gc E (engine s)"
  obtain xs where xs: "eng_scan_prefix E ?e [META_PREFIX] = map Inr xs" "scans (view (engine s)) [META_PREFIX] xs"
    using scan_eq [of ?e "[META_PREFIX]"] install_view by metis
  let ?vm = "fold (\<lambda>(k, v). rebuild_step k v) xs vm_new"
  let ?s' = "\<lparr>engine = ?e, versions = ?vm, version_clock = clk, time = rd\<rparr>"
  have run: "with_engine E (engine s) clk rd = Inr ?s'"
    by (simp add: with_engine_def rebuild_version_map_def xs(1) for_items_ok vm_clear_def vm_new_def)
  have wf: "store_wf (view (engine s)) (versions s) (version_clock s)" using assms by (simp add: store_ok_def)
  have d: "distinct (map fst xs)" "\<forall>x \<in> set xs. prefix [META_PREFIX] (fst x)"
    using xs(2) by (auto simp: scans_def strict_sorted_iff)
  have "?vm k = rebuilt (view (engine s)) k" for k
    using rebuild_fold [OF d, of vm_new k] map_of_scans [OF xs(2), of "meta_key k"]
    by (simp add: rebuilt_def meta_at_def vm_new_def meta_key_def split: option.splits)
  then have vm: "vm_get k ?vm = vm_get k (versions s)" if "valid_key k" for k
    using rebuilt_wf [OF wf that] by (simp add: vm_get_def)
  have ok: "store_ok view ?s'" if "version_clock s \<le> clk"
  proof -
    have "key_wf (view (engine s)) ?vm k" if "valid_key k" for k
      using current_records_enough(1) [of "view (engine s)" k "view (engine s)" ?vm "versions s"] vm [OF that] that wf
      by (simp add: store_wf_def)
    then show ?thesis using wf versions_bounded_mono [OF _ that]
      by (simp add: store_ok_def store_wf_def install_view)
  qed
  show ?thesis
    using run vm ok by (simp add: install_view install_gc db_of_def)
qed

end

end
