(* ===== verification/Store_Correct.thy ===== *)
theory Store_Correct
  imports Admin_Refine
begin

text \<open>
  The correctness statements about \<open>store.rs\<close>: every command, run on a store that satisfies the
  invariant over an engine that meets its contract, answers as the abstract database does,
  changes that database as specified, and keeps the invariant.  The witnesses run the commands
  on a store over the in-memory database.
\<close>

abbreviation mem_view :: "mem rocks_engine \<Rightarrow> kv" where
  "mem_view \<equiv> \<lambda>e. map_of (db e)"

abbreviation mem_gc :: "mem rocks_engine \<Rightarrow> bool" where
  "mem_gc \<equiv> \<lambda>e. gc e \<noteq> None"

definition empty_store :: "mem rocks_engine store" where
  "empty_store =
     \<lparr>engine = \<lparr>db = [], gc = Some ()\<rparr>, versions = vm_new, version_clock = 5, time = (\<lambda>_. 1000000)\<rparr>"

lemma mem_engine: "reliable_engine (rocks mem_db) mem_view mem_gc"
  by (rule mem.engine_contract)

lemma empty_store_ok: "store_ok mem_view empty_store"
  by (simp add: store_ok_def store_wf_def empty_store_def key_wf_def vm_simps keys_valid_def versions_bounded_def)

lemma empty_store_db: "db_of mem_view empty_store = Map.empty"
  by (simp add: db_of_def abs_kv_def meta_at_def empty_store_def fun_eq_iff)

lemma empty_store_clock: "version_clock empty_store \<noteq> - 1"
  by (simp add: empty_store_def)

lemma live_db_unexpired:
  "db_of view s k = None \<or> (\<exists>v. db_of view s k = Some (v, 0)) \<Longrightarrow> live_db view k s = db_of view s"
  by (auto simp: live_db_def purge_def expired_def split: option.splits)

lemma empty_store_live: "live_db mem_view k empty_store = Map.empty"
  using live_db_unexpired [of mem_view empty_store k] by (simp add: empty_store_db)

lemma valid_short: "valid_key [107]"
  by (simp add: valid_key_def)

lemmas on_empty = mem_engine empty_store_ok valid_short empty_store_clock

lemma implements_iff:
  "implements view k f spec s \<longleftrightarrow>
     store_ok view (snd (f s)) \<and> fst (f s) = fst (spec (live_db view k s))
     \<and> db_of view (snd (f s)) = snd (spec (live_db view k s))"
  unfolding implements_def meets_def by (metis fst_conv prod.collapse snd_conv)

lemmas spec_unfold = spec_set_def spec_get_def spec_exists_def spec_type_def spec_del_def
  spec_expire_at_def spec_pttl_def spec_hset_def spec_hget_def spec_hexists_def spec_hgetall_def
  spec_hlen_def spec_hdel_def spec_sadd_def spec_srem_def spec_sismember_def spec_smembers_def
  spec_scard_def spec_zadd_def spec_zrem_def spec_zscore_def spec_zcard_def spec_zrange_def
  spec_zrange_by_score_def spec_push_def spec_pop_def spec_lrange_def spec_llen_def
  typed_def reply_def replace_def

subsection \<open>Sample stores\<close>

definition demo_hash :: "mem rocks_engine store" where
  "demo_hash = snd (hset (rocks mem_db) [107] [([97], [1]), ([98], [2])] empty_store)"

definition demo_set :: "mem rocks_engine store" where
  "demo_set = snd (sadd (rocks mem_db) [107] [[97], [98], [97]] empty_store)"

text \<open>The scores \<open>2.0\<close> and \<open>1.0\<close>.\<close>

definition demo_zset :: "mem rocks_engine store" where
  "demo_zset = snd (zadd (rocks mem_db) [107]
     [(0x4000000000000000, [97]), (0x3FF0000000000000, [98])] empty_store)"

definition demo_list :: "mem rocks_engine store" where
  "demo_list = snd (store_push (rocks mem_db) [107] [[1], [2], [3]] False empty_store)"

lemma demo_hash_ok:
  "store_ok mem_view demo_hash" "db_of mem_view demo_hash = [[107] \<mapsto> (RHash [[97] \<mapsto> [1], [98] \<mapsto> [2]], 0)]"
  using reliable_engine.hset_implements [OF mem_engine empty_store_ok valid_short empty_store_clock,
      of "[([97], [1]), ([98], [2])]"]
  unfolding demo_hash_def implements_iff by (simp_all add: spec_unfold empty_store_live fun_upd_twist)

lemma demo_set_ok:
  "store_ok mem_view demo_set" "db_of mem_view demo_set = [[107] \<mapsto> (RSet {[97], [98]}, 0)]"
  using reliable_engine.sadd_implements [OF mem_engine empty_store_ok valid_short empty_store_clock,
      of "[[97], [98], [97]]"]
  unfolding demo_set_def implements_iff by (simp_all add: spec_unfold empty_store_live insert_commute)

lemma demo_zset_ok:
  "store_ok mem_view demo_zset"
  "db_of mem_view demo_zset =
     [[107] \<mapsto> (RZSet [[97] \<mapsto> 0x4000000000000000, [98] \<mapsto> 0x3FF0000000000000], 0)]"
proof -
  have nn: "\<forall>p \<in> set [(0x4000000000000000 :: f64, [97] :: bytes), (0x3FF0000000000000, [98])]. \<not> f64_is_nan (fst p)"
    by (simp add: f64_is_nan_def f64_mag_def f64_inf_mag_def)
  have z: "zmerge Map.empty (last_scores [(0x4000000000000000, [97]), (0x3FF0000000000000, [98])])
      = [[97] \<mapsto> 0x4000000000000000, [98] \<mapsto> 0x3FF0000000000000]"
    by (auto simp: zmerge_def last_scores_def zput_def fun_eq_iff)
  show "store_ok mem_view demo_zset"
    "db_of mem_view demo_zset =
       [[107] \<mapsto> (RZSet [[97] \<mapsto> 0x4000000000000000, [98] \<mapsto> 0x3FF0000000000000], 0)]"
    using reliable_engine.zadd_implements [OF mem_engine empty_store_ok valid_short empty_store_clock _ nn] z
    unfolding demo_zset_def implements_iff by (simp_all add: spec_unfold empty_store_live)
qed

lemma demo_list_ok:
  "store_ok mem_view demo_list" "db_of mem_view demo_list = [[107] \<mapsto> (RList [[1], [2], [3]], 0)]"
proof -
  have "list_room mem_view empty_store [107] (length [[1], [2], [3] :: bytes]) False"
    by (simp add: list_room_def empty_store_def meta_at_def)
  from reliable_engine.push_implements [OF mem_engine empty_store_ok valid_short empty_store_clock _ this]
  show "store_ok mem_view demo_list" "db_of mem_view demo_list = [[107] \<mapsto> (RList [[1], [2], [3]], 0)]"
    unfolding demo_list_def implements_iff by (simp_all add: spec_unfold empty_store_live)
qed

lemma demo_live:
  "live_db mem_view [107] demo_hash = db_of mem_view demo_hash"
  "live_db mem_view [107] demo_set = db_of mem_view demo_set"
  "live_db mem_view [107] demo_zset = db_of mem_view demo_zset"
  "live_db mem_view [107] demo_list = db_of mem_view demo_list"
  by (rule live_db_unexpired; simp add: demo_hash_ok demo_set_ok demo_zset_ok demo_list_ok)+

lemmas demo = implements_iff spec_unfold empty_store_live demo_live demo_hash_ok demo_set_ok demo_zset_ok demo_list_ok
lemmas on_hash = mem_engine demo_hash_ok(1) valid_short
lemmas on_set = mem_engine demo_set_ok(1) valid_short
lemmas on_zset = mem_engine demo_zset_ok(1) valid_short
lemmas on_list = mem_engine demo_list_ok(1) valid_short

subsection \<open>Strings and keys\<close>

text \<open>\<open>PTTL\<close> answers -2 for a missing key, -1 for a key without expiry, and otherwise the time left
  until the expiry, never below zero, for expiry times below \<open>2 ^ 63\<close> milliseconds.\<close>

theorem pttl_refines:
  assumes "reliable_engine E view gc_on" "store_ok view s" "valid_key k"
    and "\<forall>v e. live_db view k s k = Some (v, e) \<longrightarrow> unat e < 2 ^ 63"
  shows "implements view k (pttl E k) (spec_pttl (of_nat (time s 1 div 1000)) k) s"
  using reliable_engine.pttl_implements [OF assms(1-3)] assms(4) by blast

theorem pttl_refines_witness:
  "fst (pttl (rocks mem_db) [107] demo_hash) = Inr (- 1)"
proof -
  have "\<forall>v e. live_db mem_view [107] demo_hash [107] = Some (v, e) \<longrightarrow> unat e < 2 ^ 63"
    by (simp add: demo)
  from pttl_refines [OF on_hash this] show ?thesis by (simp add: demo)
qed

subsection \<open>Commands without limits\<close>

text \<open>C25: Every read is the abstract database's: \<open>GET\<close>, \<open>EXISTS\<close>, \<open>TYPE\<close>; \<open>HGET\<close>, \<open>HEXISTS\<close>, \<open>HLEN\<close> and \<open>HGETALL\<close> (all
  fields in field order); \<open>SISMEMBER\<close>, \<open>SCARD\<close>, \<open>SMEMBERS\<close>; \<open>ZSCORE\<close>, \<open>ZCARD\<close>; \<open>LRANGE\<close> (both indexes inclusive,
  negative ones counted from the end) and \<open>LLEN\<close>; \<open>ZRANGE\<close> and \<open>ZRANGEBYSCORE\<close> (members in rank order, between
  two indexes or two scores).  Each sees the records of the current version only, answers
  \<open>WRONGTYPE\<close> on a key of another type, and treats a key whose expiry has passed as missing.\<close>

theorem reads_refine:
  assumes "reliable_engine E view gc_on" "store_ok view s" "valid_key k"
  shows "implements view k (store_get E k) (spec_get k) s
    \<and> implements view k (store_exists E k) (spec_exists k) s
    \<and> implements view k (type_of E k) (spec_type k) s
    \<and> implements view k (hget E k f) (spec_hget k f) s
    \<and> implements view k (hexists E k f) (spec_hexists k f) s
    \<and> implements view k (hlen E k) (spec_hlen k) s
    \<and> implements view k (hgetall E k) (spec_hgetall k) s
    \<and> implements view k (sismember E k f) (spec_sismember k f) s
    \<and> implements view k (scard E k) (spec_scard k) s
    \<and> implements view k (smembers E k) (spec_smembers k) s
    \<and> implements view k (zscore E k f) (spec_zscore k f) s
    \<and> implements view k (zcard E k) (spec_zcard k) s
    \<and> implements view k (lrange E k start stop) (spec_lrange k start stop) s
    \<and> implements view k (llen E k) (spec_llen k) s
    \<and> implements view k (zrange E k start stop) (spec_zrange k start stop) s
    \<and> (\<not> f64_is_nan mn \<and> \<not> f64_is_nan mx \<longrightarrow>
        implements view k (zrange_by_score E k mn mne mx mxe) (spec_zrange_by_score k mn mne mx mxe) s)"
  by (intro conjI impI reliable_engine.store_get_implements [OF assms] reliable_engine.store_exists_implements [OF assms]
      reliable_engine.type_of_implements [OF assms] reliable_engine.hget_implements [OF assms]
      reliable_engine.hexists_implements [OF assms] reliable_engine.hlen_implements [OF assms]
      reliable_engine.hgetall_implements [OF assms] reliable_engine.sismember_implements [OF assms]
      reliable_engine.scard_implements [OF assms] reliable_engine.smembers_implements [OF assms]
      reliable_engine.zscore_implements [OF assms] reliable_engine.zcard_implements [OF assms]
      reliable_engine.lrange_implements [OF assms] reliable_engine.llen_implements [OF assms]
      reliable_engine.zrange_implements [OF assms] reliable_engine.zrange_by_score_implements [OF assms]; (elim conjE)?; assumption?)

theorem reads_refine_witness:
  "fst (type_of (rocks mem_db) [107] demo_hash) = Inr ''hash''
    \<and> fst (hget (rocks mem_db) [107] [98] demo_hash) = Inr (Some [2])
    \<and> fst (hgetall (rocks mem_db) [107] demo_hash) = Inr [([97], [1]), ([98], [2])]
    \<and> fst (sismember (rocks mem_db) [107] [98] demo_set) = Inr True
    \<and> fst (smembers (rocks mem_db) [107] demo_set) = Inr [[97], [98]]
    \<and> fst (zscore (rocks mem_db) [107] [97] demo_zset) = Inr (Some 0x4000000000000000)
    \<and> fst (lrange (rocks mem_db) [107] (- 2) 100 demo_list) = Inr [[2], [3]]"
proof (intro conjI)
  show "fst (type_of (rocks mem_db) [107] demo_hash) = Inr ''hash''"
    "fst (hget (rocks mem_db) [107] [98] demo_hash) = Inr (Some [2])"
    "fst (hgetall (rocks mem_db) [107] demo_hash) = Inr [([97], [1]), ([98], [2])]"
    using reads_refine [OF on_hash, of "[98]"] by (simp_all add: demo items_def)
  show "fst (sismember (rocks mem_db) [107] [98] demo_set) = Inr True"
    "fst (smembers (rocks mem_db) [107] demo_set) = Inr [[97], [98]]"
    using reads_refine [OF on_set, of "[98]"] by (simp_all add: demo)
  show "fst (zscore (rocks mem_db) [107] [97] demo_zset) = Inr (Some 0x4000000000000000)"
    using reads_refine [OF on_zset, of "[97]"] by (simp add: demo)
  show "fst (lrange (rocks mem_db) [107] (- 2) 100 demo_list) = Inr [[2], [3]]"
    using reads_refine [OF on_list, of _ "- 2" 100] by (simp add: demo index_range_def redis_index_def nths_Cons)
qed

text \<open>C26: \<open>SET\<close> replaces whatever the key held; \<open>DEL\<close> removes the key and reports whether it was there; \<open>HDEL\<close> (distinct fields), \<open>SREM\<close> and \<open>ZREM\<close> remove
  exactly the elements named, return how many were present, and delete the key with its last element;
  setting an expiry changes nothing else.\<close>

theorem key_updates_refine:
  assumes "reliable_engine E view gc_on" "store_ok view s" "valid_key k"
  shows "(version_clock s \<noteq> - 1 \<longrightarrow> implements view k (store_set E k x t) (spec_set k x t) s)
    \<and> implements view k (store_del E k) (spec_del k) s
    \<and> (distinct fs \<longrightarrow> implements view k (hdel E k fs) (spec_hdel k fs) s)
    \<and> implements view k (srem E k fs) (spec_srem k fs) s
    \<and> implements view k (zrem E k fs) (spec_zrem k fs) s
    \<and> implements view k (expire_at E k t) (spec_expire_at k t) s"
  by (intro conjI impI reliable_engine.store_set_implements [OF assms]
      reliable_engine.store_del_implements [OF assms] reliable_engine.hdel_implements [OF assms]
      reliable_engine.srem_implements [OF assms] reliable_engine.zrem_implements [OF assms]
      reliable_engine.expire_at_implements [OF assms]) assumption

theorem key_updates_refine_witness:
  "db_of mem_view (snd (store_set (rocks mem_db) [107] [1, 2] 7 empty_store)) = [[107] \<mapsto> (RString [1, 2], 7)]
    \<and> db_of mem_view (snd (store_del (rocks mem_db) [107] demo_hash)) = Map.empty
    \<and> fst (hdel (rocks mem_db) [107] [[97], [120]] demo_hash) = Inr 1
    \<and> fst (srem (rocks mem_db) [107] [[97], [97], [120]] demo_set) = Inr 1
    \<and> db_of mem_view (snd (zrem (rocks mem_db) [107] [[97], [98], [97]] demo_zset)) = Map.empty"
proof (intro conjI)
  show "db_of mem_view (snd (store_set (rocks mem_db) [107] [1, 2] 7 empty_store)) = [[107] \<mapsto> (RString [1, 2], 7)]"
    using key_updates_refine [OF on_empty(1-3), of "[1, 2]" 7] on_empty(4) by (simp add: demo)
  show "db_of mem_view (snd (store_del (rocks mem_db) [107] demo_hash)) = Map.empty"
    "fst (hdel (rocks mem_db) [107] [[97], [120]] demo_hash) = Inr 1"
    using key_updates_refine [OF on_hash, of _ _ "[[97], [120]]"] by (simp_all add: demo)
  show "fst (srem (rocks mem_db) [107] [[97], [97], [120]] demo_set) = Inr 1"
    using key_updates_refine [OF on_set, of _ _ "[[97], [97], [120]]"] by (simp add: demo)
  show "db_of mem_view (snd (zrem (rocks mem_db) [107] [[97], [98], [97]] demo_zset)) = Map.empty"
    using key_updates_refine [OF on_zset, of _ _ "[[97], [98], [97]]"] by (simp add: demo)
qed

subsection \<open>Hashes\<close>

text \<open>\<open>HSET\<close> with distinct fields overwrites or creates exactly those fields, returns the number of
  fields created, creates the key when it is missing (at a fresh version, so no record of an earlier
  incarnation is visible), and keeps the stored count equal to the number of fields.\<close>

theorem hset_refines:
  assumes "reliable_engine E view gc_on" "store_ok view s" "valid_key k" "version_clock s \<noteq> - 1"
    and "ps \<noteq> []" "distinct (map fst ps)" "length ps < 2 ^ 32"
    and "\<forall>h e. live_db view k s k = Some (RHash h, e) \<longrightarrow> card (dom h) + length ps < 2 ^ 32"
  shows "implements view k (hset E k ps) (spec_hset k ps) s"
  using reliable_engine.hset_implements [OF assms(1-7)] assms(8) by blast

theorem hset_refines_witness:
  "fst (hset (rocks mem_db) [107] [([97], [9]), ([99], [3])] empty_store) = Inr 2
    \<and> db_of mem_view (snd (hset (rocks mem_db) [107] [([97], [9]), ([99], [3])] empty_store))
      = [[107] \<mapsto> (RHash [[97] \<mapsto> [9], [99] \<mapsto> [3]], 0)]"
  using hset_refines [OF on_empty, of "[([97], [9]), ([99], [3])]"] by (simp add: demo)

subsection \<open>Sets\<close>

text \<open>C11: \<open>SADD\<close> adds the given members, repeated ones counted once, returns the number actually added
  and keeps the stored cardinality.\<close>

theorem sadd_refines:
  assumes "reliable_engine E view gc_on" "store_ok view s" "valid_key k" "version_clock s \<noteq> - 1"
    and "ms \<noteq> []" "length ms < 2 ^ 32"
    and "\<forall>x e. live_db view k s k = Some (RSet x, e) \<longrightarrow> card x + length ms < 2 ^ 32"
  shows "implements view k (sadd E k ms) (spec_sadd k ms) s"
  using reliable_engine.sadd_implements [OF assms(1-6)] assms(7) by blast

theorem sadd_refines_witness:
  "fst (sadd (rocks mem_db) [107] [[97], [98], [97]] empty_store) = Inr 2
    \<and> db_of mem_view (snd (sadd (rocks mem_db) [107] [[97], [98], [97]] empty_store))
      = [[107] \<mapsto> (RSet {[97], [98]}, 0)]"
  using sadd_refines [OF on_empty, of "[[97], [98], [97]]"] by (simp add: demo insert_commute)

subsection \<open>Sorted sets\<close>

text \<open>C10: \<open>ZADD\<close> with no NaN gives each member the last score named for it (a numerically equal score
  leaves the stored one), returns the number of new members, and moves every changed member in the
  score index, so that index and members stay in step.\<close>

theorem zadd_refines:
  assumes "reliable_engine E view gc_on" "store_ok view s" "valid_key k" "version_clock s \<noteq> - 1"
    and "ps \<noteq> []" "\<forall>p \<in> set ps. \<not> f64_is_nan (fst p)" "length ps < 2 ^ 32"
    and "\<forall>z e. live_db view k s k = Some (RZSet z, e) \<longrightarrow> card (dom z) + length ps < 2 ^ 32"
  shows "implements view k (zadd E k ps) (spec_zadd k ps) s"
  using reliable_engine.zadd_implements [OF assms(1-7)] assms(8) by blast

theorem zadd_refines_witness:
  "fst (zadd (rocks mem_db) [107] [(0x4000000000000000, [97]), (0x3FF0000000000000, [97])] empty_store) = Inr 1
    \<and> store_ok mem_view
        (snd (zadd (rocks mem_db) [107] [(0x4000000000000000, [97]), (0x3FF0000000000000, [97])] empty_store))"
  using zadd_refines [OF on_empty, of "[(0x4000000000000000, [97]), (0x3FF0000000000000, [97])]"]
  by (simp add: demo f64_is_nan_def f64_mag_def f64_inf_mag_def)

text \<open>\<open>ZRANGE\<close> and \<open>ZRANGEBYSCORE\<close> list members in rank order (by score, then by member): the former
  the members whose rank lies between two Redis indexes, the latter exactly the members whose
  score lies in the interval, although its scan stops at the first score above the maximum.\<close>

theorem zset_ranges_refine:
  assumes "reliable_engine E view gc_on" "store_ok view s" "valid_key k"
    and "\<not> f64_is_nan mn" "\<not> f64_is_nan mx"
  shows "implements view k (zrange E k start stop) (spec_zrange k start stop) s
    \<and> implements view k (zrange_by_score E k mn mne mx mxe) (spec_zrange_by_score k mn mne mx mxe) s
    \<and> (\<forall>z. finite (dom z) \<longrightarrow> sorted_wrt zbefore (zitems z) \<and> set (zitems z) = {(m, x). z m = Some x})"
  using reliable_engine.zrange_implements [OF assms(1-3)]
    reliable_engine.zrange_by_score_implements [OF assms] sorted_zitems set_zitems
  by blast

theorem zset_ranges_refine_witness:
  "\<exists>xs. fst (zrange (rocks mem_db) [107] 0 (- 1) demo_zset) = Inr xs
    \<and> set xs = {([97], 0x4000000000000000), ([98], 0x3FF0000000000000)} \<and> sorted_wrt zbefore xs"
proof -
  let ?z = "[[97] \<mapsto> 0x4000000000000000, [98] \<mapsto> 0x3FF0000000000000] :: bytes \<rightharpoonup> f64"
  have nn: "\<not> f64_is_nan 0x3FF0000000000000" by (simp add: f64_is_nan_def f64_mag_def f64_inf_mag_def)
  have fin: "finite (dom ?z)" by simp
  have "index_range 0 (- 1) (zitems ?z) = zitems ?z"
    unfolding index_range_def by (rule nths_all) auto
  then show ?thesis
    using zset_ranges_refine [OF on_zset nn nn, of 0 "- 1" False False] set_zitems [OF fin] sorted_zitems [OF fin]
    by (auto simp: demo split: if_splits)
qed

subsection \<open>Lists\<close>

text \<open>C12: \<open>LPUSH\<close> and \<open>RPUSH\<close> add the values one by one at their end and return the new length, and
  \<open>LPOP\<close> and \<open>RPOP\<close> take up to \<open>n\<close> elements from theirs, deleting the key with its last element.  Pushes
  assume that the 64-bit index does not wrap around.\<close>

theorem list_updates_refine:
  assumes "reliable_engine E view gc_on" "store_ok view s" "valid_key k"
  shows "(version_clock s \<noteq> - 1 \<longrightarrow> vs \<noteq> [] \<longrightarrow> list_room view s k (length vs) left \<longrightarrow>
      implements view k (store_push E k vs left) (spec_push k vs left) s)
    \<and> implements view k (store_pop E k n left) (spec_pop k n left) s"
  using reliable_engine.push_implements [OF assms] reliable_engine.pop_implements [OF assms] by blast

theorem list_updates_refine_witness:
  "fst (store_pop (rocks mem_db) [107] 2 False demo_list) = Inr [[3], [2]]
    \<and> db_of mem_view (snd (store_pop (rocks mem_db) [107] 2 False demo_list)) = [[107] \<mapsto> (RList [[1]], 0)]"
  using list_updates_refine [OF on_list, of "[]" False 2] by (simp add: demo)

subsection \<open>Administration\<close>

text \<open>C15: A compaction is invisible: it keeps the invariant and every key, value and expiry, and when
  the version-map filter is installed only records of current versions remain after it.\<close>

theorem compaction_transparent:
  assumes "reliable_engine E view gc_on" "store_ok view s"
  shows "\<exists>s'. store_compact E s = (Inr (), s') \<and> store_ok view s' \<and> db_of view s' = db_of view s
    \<and> (gc_on (engine s) \<longrightarrow> (\<forall>raw k v. view (engine s') raw \<noteq> None \<longrightarrow> parse_owner_version raw = Some (k, v)
         \<longrightarrow> vm_get k (versions s) = Some v))"
  using reliable_engine.compact_ok [OF assms] by blast

theorem compaction_transparent_witness:
  "\<exists>s'. store_compact (rocks mem_db) demo_hash = (Inr (), s') \<and> store_ok mem_view s'
    \<and> db_of mem_view s' = [[107] \<mapsto> (RHash [[97] \<mapsto> [1], [98] \<mapsto> [2]], 0)]"
  using compaction_transparent [OF mem_engine demo_hash_ok(1)] unfolding demo_hash_ok(2) by blast

text \<open>\<open>FLUSHALL\<close> deletes every record of the three families and forgets every version, \<open>DBSIZE\<close> counts
  the keys that have a metadata record.\<close>

theorem flush_and_size:
  assumes "reliable_engine E view gc_on" "store_ok view s"
  shows "(\<exists>s'. flush_all E s = (Inr (), s') \<and> store_ok view s' \<and> db_of view s' = Map.empty
      \<and> versions s' = Map.empty
      \<and> (\<forall>raw. view (engine s') raw =
          (if raw \<noteq> [] \<and> hd raw \<in> {META_PREFIX, SUBKEY_PREFIX, ZSCORE_PREFIX} then None
           else view (engine s) raw)))
    \<and> dbsize E s = (Inr (int (card (dom (db_of view s)))), s)"
  using reliable_engine.flush_all_ok [OF assms] reliable_engine.dbsize_eq [OF assms] by blast

theorem flush_and_size_witness:
  "(\<exists>s'. flush_all (rocks mem_db) demo_hash = (Inr (), s') \<and> db_of mem_view s' = Map.empty)
    \<and> fst (dbsize (rocks mem_db) demo_hash) = Inr 1"
  using flush_and_size [OF mem_engine demo_hash_ok(1)] unfolding demo_hash_ok(2) by auto

text \<open>C16: Opening a store over the records another one left (a restart) rebuilds its version map from
  the metadata, installs the filter and shows the same database; the invariant holds again as soon
  as the version clock has reached its earlier value.\<close>

theorem restart_rebuilds:
  assumes "reliable_engine E view gc_on" "store_ok view s"
  shows "\<exists>s'. with_engine E (engine s) clock readings = Inr s' \<and> view (engine s') = view (engine s)
    \<and> gc_on (engine s') \<and> (\<forall>k. valid_key k \<longrightarrow> vm_get k (versions s') = vm_get k (versions s))
    \<and> version_clock s' = clock \<and> db_of view s' = db_of view s
    \<and> (version_clock s \<le> clock \<longrightarrow> store_ok view s')"
  using reliable_engine.with_engine_ok [OF assms] .

theorem restart_rebuilds_witness:
  "\<exists>s'. with_engine (rocks mem_db) (engine demo_hash) 0 (\<lambda>_. 5) = Inr s'
    \<and> db_of mem_view s' = [[107] \<mapsto> (RHash [[97] \<mapsto> [1], [98] \<mapsto> [2]], 0)]"
  using restart_rebuilds [OF mem_engine demo_hash_ok(1), of 0 "\<lambda>_. 5"] unfolding demo_hash_ok(2) by blast

end
