(* ===== verification/Store_Requests.thy ===== *)
theory Store_Requests
  imports Store_Correct
begin

text \<open>
  Requests: the operations of \<open>store.rs\<close> on one key as data, with their replies in one type, and their
  counterparts on the abstract database.  Each request, when \<open>admissible\<close>, implements its counterpart.
\<close>

datatype request =
    ReqSet bytes bytes u64
  | ReqGet bytes
  | ReqDel bytes
  | ReqExpireAt bytes u64
  | ReqHSet bytes "(bytes \<times> bytes) list"
  | ReqHDel bytes "bytes list"
  | ReqHGetAll bytes
  | ReqSAdd bytes "bytes list"
  | ReqSRem bytes "bytes list"
  | ReqZAdd bytes "(f64 \<times> bytes) list"
  | ReqZRem bytes "bytes list"
  | ReqPush bytes "bytes list" bool
  | ReqPop bytes nat bool

fun req_key :: "request \<Rightarrow> bytes" where
  "req_key (ReqSet k _ _) = k"
| "req_key (ReqGet k) = k"
| "req_key (ReqDel k) = k"
| "req_key (ReqExpireAt k _) = k"
| "req_key (ReqHSet k _) = k"
| "req_key (ReqHDel k _) = k"
| "req_key (ReqHGetAll k) = k"
| "req_key (ReqSAdd k _) = k"
| "req_key (ReqSRem k _) = k"
| "req_key (ReqZAdd k _) = k"
| "req_key (ReqZRem k _) = k"
| "req_key (ReqPush k _ _) = k"
| "req_key (ReqPop k _ _) = k"

text \<open>A request run on the store, with the replies of all operations in one type, and the same of the abstract
  database.\<close>

datatype outcome =
    OutUnit
  | OutBool bool
  | OutInt int
  | OutBytes "bytes option"
  | OutList "bytes list"
  | OutPairs "(bytes \<times> bytes) list"

fun request_op :: "'e engine_ops \<Rightarrow> request \<Rightarrow> ('e, outcome) sop" where
  "request_op E (ReqSet k x e) = try_then (store_set E k x e) (\<lambda>_. ok OutUnit)"
| "request_op E (ReqGet k) = try_then (store_get E k) (\<lambda>r. ok (OutBytes r))"
| "request_op E (ReqDel k) = try_then (store_del E k) (\<lambda>r. ok (OutBool r))"
| "request_op E (ReqExpireAt k t) = try_then (expire_at E k t) (\<lambda>r. ok (OutBool r))"
| "request_op E (ReqHSet k ps) = try_then (hset E k ps) (\<lambda>r. ok (OutInt r))"
| "request_op E (ReqHDel k fs) = try_then (hdel E k fs) (\<lambda>r. ok (OutInt r))"
| "request_op E (ReqHGetAll k) = try_then (hgetall E k) (\<lambda>r. ok (OutPairs r))"
| "request_op E (ReqSAdd k ms) = try_then (sadd E k ms) (\<lambda>r. ok (OutInt r))"
| "request_op E (ReqSRem k ms) = try_then (srem E k ms) (\<lambda>r. ok (OutInt r))"
| "request_op E (ReqZAdd k ps) = try_then (zadd E k ps) (\<lambda>r. ok (OutInt r))"
| "request_op E (ReqZRem k ms) = try_then (zrem E k ms) (\<lambda>r. ok (OutInt r))"
| "request_op E (ReqPush k vs left) = try_then (store_push E k vs left) (\<lambda>r. ok (OutInt r))"
| "request_op E (ReqPop k n left) = try_then (store_pop E k n left) (\<lambda>r. ok (OutList r))"

definition reply_as :: "('a \<Rightarrow> 'b) \<Rightarrow> 'a aop \<Rightarrow> 'b aop" where
  "reply_as f g d = (case g d of (Inl e, d') \<Rightarrow> (Inl e, d') | (Inr x, d') \<Rightarrow> (Inr (f x), d'))"

fun abs_op :: "request \<Rightarrow> outcome aop" where
  "abs_op (ReqSet k x e) = reply_as (\<lambda>_. OutUnit) (spec_set k x e)"
| "abs_op (ReqGet k) = reply_as OutBytes (spec_get k)"
| "abs_op (ReqDel k) = reply_as OutBool (spec_del k)"
| "abs_op (ReqExpireAt k t) = reply_as OutBool (spec_expire_at k t)"
| "abs_op (ReqHSet k ps) = reply_as OutInt (spec_hset k ps)"
| "abs_op (ReqHDel k fs) = reply_as OutInt (spec_hdel k fs)"
| "abs_op (ReqHGetAll k) = reply_as OutPairs (spec_hgetall k)"
| "abs_op (ReqSAdd k ms) = reply_as OutInt (spec_sadd k ms)"
| "abs_op (ReqSRem k ms) = reply_as OutInt (spec_srem k ms)"
| "abs_op (ReqZAdd k ps) = reply_as OutInt (spec_zadd k ps)"
| "abs_op (ReqZRem k ms) = reply_as OutInt (spec_zrem k ms)"
| "abs_op (ReqPush k vs left) = reply_as OutInt (spec_push k vs left)"
| "abs_op (ReqPop k n left) = reply_as OutList (spec_pop k n left)"

text \<open>The number of elements a key holds, against the 32-bit count.\<close>

definition elements :: "adb \<Rightarrow> bytes \<Rightarrow> nat" where
  "elements d k =
     (case d k of
        Some (RHash h, _) \<Rightarrow> card (dom h)
      | Some (RSet x, _) \<Rightarrow> card x
      | Some (RZSet z, _) \<Rightarrow> card (dom z)
      | _ \<Rightarrow> 0)"

text \<open>What the refinement needs of a request: elements to add and no NaN among the scores, which the command
  layer sees to; no field named twice in one \<open>HSET\<close> or \<open>HDEL\<close>, which it does not (\<open>Store_Findings\<close> has what
  happens then); a version clock below its last value; and the capacity limits of the encoding.\<close>

fun admissible :: "('e \<Rightarrow> kv) \<Rightarrow> 'e store \<Rightarrow> request \<Rightarrow> bool" where
  "admissible view s (ReqSet k x e) \<longleftrightarrow> version_clock s \<noteq> - 1"
| "admissible view s (ReqHSet k ps) \<longleftrightarrow>
     version_clock s \<noteq> - 1 \<and> ps \<noteq> [] \<and> distinct (map fst ps)
     \<and> elements (live_db view k s) k + length ps < 2 ^ 32"
| "admissible view s (ReqHDel k fs) \<longleftrightarrow> distinct fs"
| "admissible view s (ReqSAdd k ms) \<longleftrightarrow>
     version_clock s \<noteq> - 1 \<and> ms \<noteq> [] \<and> elements (live_db view k s) k + length ms < 2 ^ 32"
| "admissible view s (ReqZAdd k ps) \<longleftrightarrow>
     version_clock s \<noteq> - 1 \<and> ps \<noteq> [] \<and> (\<forall>p \<in> set ps. \<not> f64_is_nan (fst p))
     \<and> elements (live_db view k s) k + length ps < 2 ^ 32"
| "admissible view s (ReqPush k vs left) \<longleftrightarrow>
     version_clock s \<noteq> - 1 \<and> vs \<noteq> [] \<and> list_room view s k (length vs) left"
| "admissible view s _ \<longleftrightarrow> True"

lemma elements_bound:
  assumes "elements d k + n < 2 ^ 32"
  shows "n < 2 ^ 32" "d k = Some (RHash h, e) \<Longrightarrow> card (dom h) + n < 2 ^ 32"
    "d k = Some (RSet x, e) \<Longrightarrow> card x + n < 2 ^ 32"
    "d k = Some (RZSet z, e) \<Longrightarrow> card (dom z) + n < 2 ^ 32"
  using assms by (auto simp: elements_def)

lemma snd_try_ok: "snd (try_then m (\<lambda>x. ok (g x)) s) = snd (m s)"
  by (simp add: try_then_def split: prod.splits sum.splits)

lemma implements_reply:
  "implements view k f spec s \<Longrightarrow> implements view k (try_then f (\<lambda>x. ok (g x))) (reply_as g spec) s"
  by (auto simp: implements_iff try_then_def reply_as_def ok_def split: prod.splits sum.splits)

context reliable_engine
begin

lemma request_implements:
  assumes "store_ok view s" "valid_key (req_key r)" "admissible view s r"
  shows "implements view (req_key r) (request_op E r) (abs_op r) s"
  using assms
proof (cases r)
  case (ReqHSet k ps)
  then have "elements (live_db view k s) k + length ps < 2 ^ 32" using assms(3) by simp
  note b = elements_bound [OF this]
  show ?thesis unfolding ReqHSet request_op.simps abs_op.simps req_key.simps
    by (intro implements_reply hset_implements) (use ReqHSet assms b in auto)
next
  case (ReqSAdd k ms)
  then have "elements (live_db view k s) k + length ms < 2 ^ 32" using assms(3) by simp
  note b = elements_bound [OF this]
  show ?thesis unfolding ReqSAdd request_op.simps abs_op.simps req_key.simps
    by (intro implements_reply sadd_implements) (use ReqSAdd assms b in auto)
next
  case (ReqZAdd k ps)
  then have "elements (live_db view k s) k + length ps < 2 ^ 32" using assms(3) by simp
  note b = elements_bound [OF this]
  show ?thesis unfolding ReqZAdd request_op.simps abs_op.simps req_key.simps
    by (intro implements_reply zadd_implements) (use ReqZAdd assms b in auto)
qed (simp_all add: implements_reply [OF store_set_implements] implements_reply [OF store_get_implements]
    implements_reply [OF store_del_implements] implements_reply [OF expire_at_implements]
    implements_reply [OF hdel_implements] implements_reply [OF hgetall_implements]
    implements_reply [OF srem_implements] implements_reply [OF zrem_implements]
    implements_reply [OF push_implements] implements_reply [OF pop_implements])

end

end
