(* ===== verification/Store_Calls.thy ===== *)
theory Store_Calls
  imports Store_Requests
begin

text \<open>
  The operations of \<open>store.rs\<close> as sequences of calls.  A store is shared by all connections without a lock;
  what is atomic is one call: of the engine, of the version map, of a clock.  A \<open>prog\<close> is what a thread
  has still to do: the next call and, for each answer, the rest.  \<open>sliced\<close> says that an operation is such a
  sequence and that every record it reads or writes belongs to one key; every request is.
\<close>

subsection \<open>Calls and programs\<close>

datatype call =
    CallGet bytes
  | CallScan bytes
  | CallWrite write_batch
  | CallNextVersion
  | CallNow
  | CallTrack bytes u64
  | CallUntrack bytes

datatype answer =
    GotRecord "engine_error + bytes option"
  | GotItems "scan_item list"
  | GotWritten "engine_error + unit"
  | GotClock u64
  | GotNothing

fun do_call :: "'e engine_ops \<Rightarrow> call \<Rightarrow> 'e store \<Rightarrow> answer \<times> 'e store" where
  "do_call E (CallGet raw) s = (GotRecord (eng_get E (engine s) raw), s)"
| "do_call E (CallScan pre) s = (GotItems (eng_scan_prefix E (engine s) pre), s)"
| "do_call E (CallWrite b) s = (case engine_write E b s of (r, s') \<Rightarrow> (GotWritten r, s'))"
| "do_call E CallNextVersion s = (case next_version s of (v, s') \<Rightarrow> (GotClock v, s'))"
| "do_call E CallNow s = (case now_ms s of (t, s') \<Rightarrow> (GotClock t, s'))"
| "do_call E (CallTrack k v) s = (GotNothing, s\<lparr>versions := vm_set k v (versions s)\<rparr>)"
| "do_call E (CallUntrack k) s = (GotNothing, s\<lparr>versions := vm_remove k (versions s)\<rparr>)"

datatype 'a prog = Return 'a | Call call "answer \<Rightarrow> 'a prog"

primrec run_prog :: "'e engine_ops \<Rightarrow> 'a prog \<Rightarrow> 'e store \<Rightarrow> 'a \<times> 'e store" where
  "run_prog E (Return x) = (\<lambda>s. (x, s))"
| "run_prog E (Call c q) = (\<lambda>s. case do_call E c s of (a, s') \<Rightarrow> run_prog E (q a) s')"

text \<open>The calls that touch no records but those of \<open>k\<close>.\<close>

fun call_on :: "bytes \<Rightarrow> call \<Rightarrow> bool" where
  "call_on k (CallGet raw) \<longleftrightarrow> owned k raw"
| "call_on k (CallScan pre) \<longleftrightarrow> (\<exists>v. pre = subkey_prefix k v \<or> pre = zscore_prefix k v)"
| "call_on k (CallWrite b) \<longleftrightarrow> (\<forall>x \<in> set (ops b). owned k (op_key x))"
| "call_on k (CallTrack k' v) \<longleftrightarrow> k' = k"
| "call_on k (CallUntrack k') \<longleftrightarrow> k' = k"
| "call_on k _ \<longleftrightarrow> True"

primrec on_key :: "bytes \<Rightarrow> 'a prog \<Rightarrow> bool" where
  "on_key k (Return x) \<longleftrightarrow> True"
| "on_key k (Call c q) \<longleftrightarrow> call_on k c \<and> (\<forall>a. on_key k (q a))"

subsection \<open>Composing programs\<close>

primrec results :: "('a \<Rightarrow> bool) \<Rightarrow> ('r + 'a) prog \<Rightarrow> bool" where
  "results P (Return r) \<longleftrightarrow> (\<forall>x. r = Inr x \<longrightarrow> P x)"
| "results P (Call c q) \<longleftrightarrow> (\<forall>a. results P (q a))"

primrec prog_then :: "('r + 'b) prog \<Rightarrow> ('b \<Rightarrow> ('r + 'a) prog) \<Rightarrow> ('r + 'a) prog" where
  "prog_then (Return r) g = (case r of Inl e \<Rightarrow> Return (Inl e) | Inr x \<Rightarrow> g x)"
| "prog_then (Call c q) g = Call c (\<lambda>a. prog_then (q a) g)"

lemma prog_then_facts:
  assumes "results P p" "\<And>x. P x \<Longrightarrow> on_key k (g x) \<and> results Q (g x) \<and> run_prog E (g x) = f x"
  shows "on_key k p \<Longrightarrow> on_key k (prog_then p g)" "results Q (prog_then p g)"
    "run_prog E (prog_then p g) s = try_then (run_prog E p) f s"
proof -
  show "on_key k (prog_then p g)" if "on_key k p"
    using assms that by (induction p) (auto split: sum.splits)
  show "results Q (prog_then p g)"
    using assms by (induction p) (auto split: sum.splits)
  show "run_prog E (prog_then p g) s = try_then (run_prog E p) f s"
    using assms
  proof (induction p arbitrary: s)
    case (Return r)
    then show ?case by (cases r) (auto simp: try_then_def)
  next
    case (Call c q)
    then show ?case by (auto simp: try_then_def split: prod.splits)
  qed
qed

definition sliced :: "'e engine_ops \<Rightarrow> bytes \<Rightarrow> ('a \<Rightarrow> bool) \<Rightarrow> ('e, 'a) sop \<Rightarrow> bool" where
  "sliced E k P f \<longleftrightarrow> (\<exists>p. on_key k p \<and> results P p \<and> run_prog E p = f)"

named_theorems slices

lemma sliced_ok [slices]: "P x \<Longrightarrow> sliced E k P (ok x)"
  unfolding sliced_def by (intro exI [of _ "Return (Inr x)"]) (auto simp: ok_def)

lemma sliced_fail [slices]: "sliced E k P (fail e)"
  unfolding sliced_def by (intro exI [of _ "Return (Inl e)"]) (auto simp: fail_def)

lemma sliced_then:
  assumes "sliced E k P m" "\<And>x. P x \<Longrightarrow> sliced E k Q (f x)"
  shows "sliced E k Q (try_then m f)"
proof -
  obtain p where p: "on_key k p" "results P p" "run_prog E p = m" using assms(1) by (auto simp: sliced_def)
  obtain g where g: "\<And>x. P x \<Longrightarrow> on_key k (g x) \<and> results Q (g x) \<and> run_prog E (g x) = f x"
    using assms(2) unfolding sliced_def by metis
  note facts = prog_then_facts [OF p(2) g]
  show ?thesis unfolding sliced_def
    by (intro exI [of _ "prog_then p g"]) (use facts p in \<open>auto simp: fun_eq_iff\<close>)
qed

text \<open>When nothing need be known of the intermediate result.\<close>

lemma sliced_seq [slices]: "sliced E k (\<lambda>_. True) m \<Longrightarrow> (\<And>x. sliced E k Q (f x)) \<Longrightarrow> sliced E k Q (try_then m f)"
  by (rule sliced_then)

lemma sliced_call:
  assumes "call_on k c" "\<And>a. sliced E k P (f a)"
    "\<And>s. m s = (case do_call E c s of (a, s') \<Rightarrow> f a s')"
  shows "sliced E k P m"
proof -
  obtain q where "\<And>a. on_key k (q a) \<and> results P (q a) \<and> run_prog E (q a) = f a"
    using assms(2) unfolding sliced_def by metis
  then show ?thesis
    unfolding sliced_def using assms(1,3) by (intro exI [of _ "Call c q"]) (auto simp: fun_eq_iff)
qed

lemma sliced_splits [slices]:
  "(b \<Longrightarrow> sliced E k P f) \<Longrightarrow> (\<not> b \<Longrightarrow> sliced E k P g) \<Longrightarrow> sliced E k P (if b then f else g)"
  "sliced E k P f \<Longrightarrow> (\<And>x. sliced E k P (h x)) \<Longrightarrow> sliced E k P (case r of None \<Rightarrow> f | Some x \<Rightarrow> h x)"
  by (auto split: option.splits)

subsection \<open>The calls of the store\<close>

definition batch_on :: "bytes \<Rightarrow> write_batch \<Rightarrow> bool" where
  "batch_on k b \<longleftrightarrow> (\<forall>x \<in> set (ops b). owned k (op_key x))"

lemma batch_on_simps [simp]:
  "batch_on k batch_new"
  "batch_on k (batch_put raw x b) \<longleftrightarrow> owned k raw \<and> batch_on k b"
  "batch_on k (batch_delete raw b) \<longleftrightarrow> owned k raw \<and> batch_on k b"
  by (auto simp: batch_on_def batch_new_def batch_put_def batch_delete_def)

lemma sliced_get [slices]: "owned k raw \<Longrightarrow> sliced E k (\<lambda>_. True) (engine_get E raw)"
  by (rule sliced_call [where c = "CallGet raw" and
        f = "\<lambda>a. case a of GotRecord (Inr x) \<Rightarrow> ok x | GotRecord (Inl e) \<Rightarrow> fail e | _ \<Rightarrow> fail WrongType"])
    (auto simp: engine_get_def ok_def fail_def intro!: slices split: answer.splits sum.splits)

lemma sliced_write [slices]: "batch_on k b \<Longrightarrow> sliced E k (\<lambda>_. True) (engine_write E b)"
  by (rule sliced_call [where c = "CallWrite b" and
        f = "\<lambda>a. case a of GotWritten (Inr x) \<Rightarrow> ok x | GotWritten (Inl e) \<Rightarrow> fail e | _ \<Rightarrow> fail WrongType"])
    (auto simp: ok_def fail_def batch_on_def intro!: slices split: answer.splits sum.splits prod.splits)

lemma sliced_for [slices]:
  "pre = subkey_prefix k v \<or> pre = zscore_prefix k v \<Longrightarrow> sliced E k (\<lambda>_. True) (engine_for E pre g acc)"
  by (rule sliced_call [where c = "CallScan pre" and
        f = "\<lambda>a. case a of GotItems xs \<Rightarrow> (case for_items g xs acc of Inr x \<Rightarrow> ok x | Inl e \<Rightarrow> fail e) | _ \<Rightarrow> fail WrongType"])
    (auto simp: engine_for_def ok_def fail_def intro!: slices split: answer.splits sum.splits)

lemma sliced_untrack: "sliced E k (\<lambda>_. True) f \<Longrightarrow> sliced E k (\<lambda>_. True) (\<lambda>s. f (s\<lparr>versions := vm_remove k (versions s)\<rparr>))"
  by (rule sliced_call [where c = "CallUntrack k" and f = "\<lambda>_. f"]) simp_all

lemma sliced_track: "sliced E k (\<lambda>_. True) f \<Longrightarrow> sliced E k (\<lambda>_. True) (\<lambda>s. f (s\<lparr>versions := vm_set k v (versions s)\<rparr>))"
  by (rule sliced_call [where c = "CallTrack k v" and f = "\<lambda>_. f"]) simp_all

lemma sliced_clock:
  assumes "\<And>v. sliced E k (\<lambda>_. True) (f v)"
  shows "sliced E k (\<lambda>_. True) (\<lambda>s. case next_version s of (v, s') \<Rightarrow> f v s')"
    "sliced E k (\<lambda>_. True) (\<lambda>s. case now_ms s of (v, s') \<Rightarrow> f v s')"
  by (rule sliced_call [where c = CallNextVersion and f = "\<lambda>a. case a of GotClock v \<Rightarrow> f v | _ \<Rightarrow> fail WrongType"]
      sliced_call [where c = CallNow and f = "\<lambda>a. case a of GotClock v \<Rightarrow> f v | _ \<Rightarrow> fail WrongType"];
      auto intro!: assms slices split: answer.splits prod.splits)+

lemma sliced_new_meta [slices]:
  fixes E :: "'e engine_ops"
  shows "sliced E k (\<lambda>_. True) (infallible (new_composite_meta k ty))"
proof -
  have "(infallible (new_composite_meta k ty) :: ('e, meta) sop) = (\<lambda>s. case next_version s of (v, s') \<Rightarrow>
      ok \<lparr>type_id = ty, version = v, expire_ms = 0, payload = []\<rparr> (s'\<lparr>versions := vm_set k v (versions s')\<rparr>))"
    by (simp add: fun_eq_iff infallible_def new_composite_meta_def ok_def split: prod.splits)
  then show ?thesis by (simp only:) (intro sliced_clock(1) sliced_track sliced_ok, rule TrueI)
qed

lemma sliced_logical_delete [slices]: "sliced E k (\<lambda>_. True) (logical_delete E k)"
  unfolding logical_delete_def by (intro slices sliced_untrack) simp_all

lemma sliced_load_live [slices]: "sliced E k (\<lambda>_. True) (load_live_meta E k)"
proof -
  have "load_live_meta E k = try_then (load_meta E k) (\<lambda>r. case r of None \<Rightarrow> ok None | Some m \<Rightarrow>
      if expire_ms m \<noteq> 0 then (\<lambda>s. case now_ms s of (now, s') \<Rightarrow>
        (if expire_ms m \<le> now then try_then (logical_delete E k) (\<lambda>_. ok None) else ok (Some m)) s')
      else ok (Some m))"
    unfolding load_live_meta_def
    by (rule arg_cong [where f = "try_then (load_meta E k)"]) (simp add: fun_eq_iff split: option.splits prod.splits)
  then show ?thesis unfolding load_meta_def
    by (simp only:) (intro slices sliced_clock(2) TrueI owned_simps)
qed

lemma sliced_load_typed [slices]: "sliced E k (\<lambda>_. True) (load_typed E k ty)"
  unfolding load_typed_def by (intro slices) simp_all

lemma sliced_counted [slices]: "sliced E k (\<lambda>_. True) (load_or_new_counted E k ty)"
  unfolding load_or_new_counted_def by (intro slices) simp_all

lemma sliced_set: "sliced E k (\<lambda>_. True) (store_set E k x t)"
proof -
  have "store_set E k x t = (\<lambda>s. (\<lambda>s. case next_version s of (v, s') \<Rightarrow>
      put_meta E k \<lparr>type_id = TYPE_STRING, version = v, expire_ms = t, payload = x\<rparr> s')
        (s\<lparr>versions := vm_remove k (versions s)\<rparr>))"
    by (simp add: fun_eq_iff store_set_def Let_def)
  then show ?thesis
    unfolding put_meta_def by (simp only:) (intro sliced_untrack sliced_clock(1) slices, simp)
qed

lemma sliced_get_del_expire:
  "sliced E k (\<lambda>_. True) (store_get E k)" "sliced E k (\<lambda>_. True) (store_del E k)"
  "sliced E k (\<lambda>_. True) (expire_at E k t)" "valid_key k \<Longrightarrow> sliced E k (\<lambda>_. True) (hgetall E k)"
  unfolding store_get_def store_del_def expire_at_def put_meta_def hgetall_def Let_def
  by ((intro slices; simp)+) (intro slices; blast)

subsection \<open>Loops and the operations on collections\<close>

abbreviation on_batch :: "bytes \<Rightarrow> 'a \<times> 'b \<times> write_batch \<Rightarrow> bool" where
  "on_batch k \<equiv> (\<lambda>(_, _, b). batch_on k b)"

lemma sliced_score [slices]: "sliced E k (\<lambda>_. True) (decode_stored_score raw)"
  unfolding decode_stored_score_def by (intro slices TrueI)

lemma sliced_bounds [slices]: "sliced E k (\<lambda>_. True) (bounds_or_corrupt mt)"
  unfolding bounds_or_corrupt_def by (intro slices TrueI)

lemma sliced_loops:
  assumes "valid_key k" "batch_on k b"
  shows "sliced E k (on_batch k) (hset_loop E k v ps fc c b)"
    "sliced E k (on_batch k) (hdel_loop E k v fs fc c b)"
    "sliced E k (on_batch k) (sadd_loop E k v ms seen fc c b)"
    "sliced E k (on_batch k) (srem_loop E k v ms seen fc c b)"
    "sliced E k (on_batch k) (zadd_loop E k v qs fc c b)"
    "sliced E k (on_batch k) (zrem_loop E k v ms seen fc c b)"
proof -
  note own = owned_simps(2,4) [OF assms(1)]
  show "sliced E k (on_batch k) (hset_loop E k v ps fc c b)"
    using assms(2) by (induction ps arbitrary: fc c b) (auto simp: Let_def own intro!: slices)
  show "sliced E k (on_batch k) (hdel_loop E k v fs fc c b)"
    using assms(2) by (induction fs arbitrary: fc c b) (auto simp: Let_def own intro!: slices)
  show "sliced E k (on_batch k) (sadd_loop E k v ms seen fc c b)"
    using assms(2) by (induction ms arbitrary: seen fc c b) (auto simp: Let_def own intro!: slices)
  show "sliced E k (on_batch k) (srem_loop E k v ms seen fc c b)"
    using assms(2) by (induction ms arbitrary: seen fc c b) (auto simp: Let_def own intro!: slices)
  show "sliced E k (on_batch k) (zadd_loop E k v qs fc c b)"
    using assms(2) by (induction qs arbitrary: fc c b) (auto simp: Let_def own intro!: slices)
  show "sliced E k (on_batch k) (zrem_loop E k v ms seen fc c b)"
    using assms(2) by (induction ms arbitrary: seen fc c b) (auto simp: Let_def own intro!: slices)
qed

lemma push_loop_on:
  assumes "push_loop k v left vs h t b = (h', t', b')" "valid_key k" "batch_on k b"
  shows "batch_on k b'"
  using assms(1,3) owned_simps(2) [OF assms(2)]
  by (induction vs arbitrary: h t b) (auto split: if_splits)

lemma sliced_pop_loop:
  assumes "valid_key k" "batch_on k b"
  shows "sliced E k (\<lambda>(_, _, _, b). batch_on k b) (pop_loop E k v left n h t out b)"
  using assms
proof (induction E k v left n h t out b rule: pop_loop.induct)
  case (1 E k v left n h t out b)
  then show ?case
    by (subst pop_loop.simps) (auto simp: Let_def owned_simps intro!: slices simp del: pop_loop.simps)
qed

lemma sliced_finish_removal: "batch_on k b \<Longrightarrow> sliced E k (\<lambda>_. True) (finish_removal E k m fc n b)"
  unfolding finish_removal_def by (intro slices) simp_all

lemma sliced_updates:
  assumes "valid_key k"
  shows "sliced E k (\<lambda>_. True) (hset E k ps)" "sliced E k (\<lambda>_. True) (sadd E k ms)"
    "sliced E k (\<lambda>_. True) (zadd E k qs)" "sliced E k (\<lambda>_. True) (store_push E k vs left)"
proof -
  note l = sliced_loops [OF assms batch_on_simps(1)]
  show "sliced E k (\<lambda>_. True) (hset E k ps)"
    unfolding hset_def by (intro sliced_seq sliced_counted sliced_then [OF l(1)]) (auto intro!: slices)
  show "sliced E k (\<lambda>_. True) (sadd E k ms)"
    unfolding sadd_def by (intro sliced_seq sliced_counted sliced_then [OF l(3)]) (auto intro!: slices)
  show "sliced E k (\<lambda>_. True) (zadd E k qs)"
    unfolding zadd_def by (intro sliced_seq sliced_counted sliced_then [OF l(5)]) (auto intro!: slices)
  show "sliced E k (\<lambda>_. True) (store_push E k vs left)"
    unfolding store_push_def
    by (intro sliced_seq) (auto intro!: slices dest!: push_loop_on [OF _ assms batch_on_simps(1)] split: prod.splits)
qed

lemma sliced_removals:
  assumes "valid_key k"
  shows "sliced E k (\<lambda>_. True) (hdel E k fs)" "sliced E k (\<lambda>_. True) (srem E k ms)"
    "sliced E k (\<lambda>_. True) (zrem E k ms)" "sliced E k (\<lambda>_. True) (store_pop E k n left)"
proof -
  note l = sliced_loops [OF assms batch_on_simps(1)] and p = sliced_pop_loop [OF assms batch_on_simps(1)]
  show "sliced E k (\<lambda>_. True) (hdel E k fs)"
    unfolding hdel_def
    by (intro slices sliced_then [OF l(2)]) (auto intro: sliced_finish_removal)
  show "sliced E k (\<lambda>_. True) (srem E k ms)"
    unfolding srem_def
    by (intro slices sliced_then [OF l(4)]) (auto intro: sliced_finish_removal)
  show "sliced E k (\<lambda>_. True) (zrem E k ms)"
    unfolding zrem_def
    by (intro slices sliced_then [OF l(6)]) (auto intro: sliced_finish_removal)
  show "sliced E k (\<lambda>_. True) (store_pop E k n left)"
    unfolding store_pop_def
    by (intro sliced_seq sliced_load_typed) (auto intro!: slices sliced_then [OF p] split: option.splits prod.splits)
qed

end
