(* ===== verification/Store_Isolation.thy ===== *)
theory Store_Isolation
  imports Store_Calls
begin

text \<open>
  Connections on different keys.  Threads run requests on one store, call by call, in any interleaving.
  A call sees and changes only the records and the tracked version of its thread's key, and of the
  clocks only that they have moved on: so each thread runs as it would alone, at some readings of the
  clock (\<open>call_simulated\<close>), and the whole run is one in which the requests are executed one
  after the other.  On the same key there is no such result: see \<open>Store_Races\<close>.
\<close>

subsection \<open>Requests as programs\<close>

text \<open>A program that makes the calls of a request, one at a time.\<close>

definition calls_of :: "'e engine_ops \<Rightarrow> request \<Rightarrow> (engine_error + outcome) prog \<Rightarrow> bool" where
  "calls_of E r p \<longleftrightarrow> on_key (req_key r) p \<and> run_prog E p = request_op E r"

lemma requests_have_calls:
  assumes "valid_key (req_key r)"
  shows "\<exists>p. calls_of E r p"
proof -
  have "sliced E (req_key r) (\<lambda>_. True) (request_op E r)"
    using assms
    by (cases r) (auto intro!: sliced_seq sliced_ok sliced_set sliced_get_del_expire sliced_updates sliced_removals)
  then show ?thesis by (auto simp: sliced_def calls_of_def)
qed

subsection \<open>What a thread on one key sees and changes\<close>

definition agree :: "('e \<Rightarrow> kv) \<Rightarrow> bytes \<Rightarrow> 'e store \<Rightarrow> 'e store \<Rightarrow> bool" where
  "agree view k s t \<longleftrightarrow>
     (\<forall>raw. owned k raw \<longrightarrow> view (engine t) raw = view (engine s) raw)
     \<and> vm_get k (versions t) = vm_get k (versions s)"

definition untouched :: "('e \<Rightarrow> kv) \<Rightarrow> bytes set \<Rightarrow> 'e store \<Rightarrow> 'e store \<Rightarrow> bool" where
  "untouched view K s s' \<longleftrightarrow>
     (\<forall>raw. (\<forall>k \<in> K. \<not> owned k raw) \<longrightarrow> view (engine s') raw = view (engine s) raw)
     \<and> (\<forall>k. k \<notin> K \<longrightarrow> vm_get k (versions s') = vm_get k (versions s))
     \<and> version_clock s \<le> version_clock s'"

lemma owned_unique: "owned k raw \<Longrightarrow> owned k' raw \<Longrightarrow> k' = k"
  by (auto simp: owned_def codec_simps)

lemma agree_reads:
  assumes "agree view k s t" "valid_key k"
  shows "view (engine t) (meta_key k) = view (engine s) (meta_key k)"
    "meta_at (view (engine t)) k = meta_at (view (engine s)) k"
    "fields_at (view (engine t)) k v = fields_at (view (engine s)) k v"
    "index_at (view (engine t)) k v = index_at (view (engine s)) k v"
  using assms by (auto simp: agree_def meta_at_def fields_at_def index_at_def fun_eq_iff)

lemma agree_db:
  assumes "agree view k s t" "valid_key k"
  shows "db_of view t k = db_of view s k"
    "key_wf (view (engine t)) (versions t) k \<longleftrightarrow> key_wf (view (engine s)) (versions s) k"
proof -
  note r = agree_reads [OF assms]
  have "value_at (view (engine t)) k mt = value_at (view (engine s)) k mt" for mt
    unfolding value_at_def list_at_def r ..
  then show "db_of view t k = db_of view s k" by (simp add: db_of_def abs_kv_def r)
  have g: "vm_get k (versions t) = vm_get k (versions s)" using assms(1) by (simp add: agree_def)
  show "key_wf (view (engine t)) (versions t) k \<longleftrightarrow> key_wf (view (engine s)) (versions s) k"
    unfolding key_wf_def meta_wf_def count_wf_def index_wf_def bounds_wf_def r g ..
qed

lemma agree_untouched:
  assumes "agree view k s t" "untouched view K s s'" "k \<notin> K"
  shows "agree view k s' t"
  using assms owned_unique [of k] unfolding agree_def untouched_def by metis

lemma untouched_trans:
  "untouched view K s s' \<Longrightarrow> untouched view {k} s' s'' \<Longrightarrow> k \<in> K \<Longrightarrow> untouched view K s s''"
  unfolding untouched_def by (auto intro: order_trans)

lemma apply_ops_at: "m raw = m' raw \<Longrightarrow> apply_ops os m raw = apply_ops os m' raw"
proof (induction os arbitrary: m m')
  case (Cons x os)
  then have "apply_op x m raw = apply_op x m' raw" by (cases x) simp_all
  then show ?case using Cons.IH [of "apply_op x m" "apply_op x m'"] by simp
qed simp

lemma clock_inc_mono:
  fixes x y :: u64
  assumes "x \<le> y" "y \<noteq> - 1"
  shows "x + 1 \<le> y + 1"
proof (cases "x = y")
  case False
  then have "x + 1 \<le> y" using assms(1) by (intro inc_le) simp
  moreover have "y < y + 1" using version_candidate_gt [OF assms(2), of 0] by (simp add: version_candidate_def)
  ultimately show ?thesis by simp
qed simp

lemma prefix_owned:
  assumes "call_on k (CallScan pre)" "valid_key k" "prefix pre raw"
  shows "owned k raw"
  using assms owned_simps(2) [OF assms(2), unfolded subkey_def] by (auto simp: prefix_def)

context reliable_engine
begin

lemma scan_agrees:
  assumes "call_on k (CallScan pre)" "valid_key k" "agree view k s t"
  shows "eng_scan_prefix E (engine t) pre = eng_scan_prefix E (engine s) pre"
proof -
  obtain xs ys where x: "eng_scan_prefix E (engine s) pre = map Inr xs" and y: "eng_scan_prefix E (engine t) pre = map Inr ys"
    using scan_total by metis
  have "scans (view (engine s)) pre ys"
    using scan_sound [OF y] prefix_owned [OF assms(1,2)] assms(3) by (auto simp: scans_def agree_def)
  then show ?thesis using scans_unique [OF scan_sound [OF x]] x y by simp
qed

lemma write_call:
  "do_call E (CallWrite b) s = (GotWritten (Inr ()), s\<lparr>engine := snd (eng_write E (engine s) b)\<rparr>)"
  using write_eq [of "engine s" b] by (cases "eng_write E (engine s) b") (simp add: engine_write_def)

lemma call_untouched:
  assumes "do_call E c s = (a, s')" "call_on k c" "version_clock s \<noteq> - 1"
  shows "untouched view {k} s s'"
  using assms
proof (cases c)
  case (CallWrite b)
  then show ?thesis using assms same_except_apply_ops [of "ops b" k]
    by (auto simp: untouched_def same_except_def write_call view_write simp del: do_call.simps)
next
  case CallNextVersion
  then show ?thesis using assms version_candidate_gt [OF assms(3)]
    by (auto simp: untouched_def next_version_eq less_imp_le)
qed (auto simp: untouched_def now_ms_def vm_simps)

text \<open>A call made in the middle of other threads gives the answer it would give to a thread alone, at some
  clock reading.\<close>

lemma call_simulated:
  assumes "do_call E c s = (a, s')" "call_on k c" "valid_key k" "version_clock s \<noteq> - 1"
    and "agree view k s t" "version_clock t \<le> version_clock s"
  obtains h t' where "\<forall>\<tau>. do_call E c (t\<lparr>time := h \<tau>\<rparr>) = (a, t'\<lparr>time := \<tau>\<rparr>)"
    "agree view k s' t'" "version_clock t' \<le> version_clock s'"
proof (cases c)
  case (CallGet raw)
  then show thesis using assms by (intro that [of "\<lambda>\<tau>. \<tau>" t]) (auto simp: get_eq agree_def)
next
  case (CallScan pre)
  then show thesis using assms scan_agrees [of k pre s t] by (intro that [of "\<lambda>\<tau>. \<tau>" t]) auto
next
  case (CallWrite b)
  let ?t = "t\<lparr>engine := snd (eng_write E (engine t) b)\<rparr>"
  have s': "a = GotWritten (Inr ())" "s' = s\<lparr>engine := snd (eng_write E (engine s) b)\<rparr>"
    using assms(1) CallWrite by (simp_all add: write_call del: do_call.simps)
  have "agree view k s' ?t"
    using assms(5) unfolding s'(2) agree_def
    by (simp add: view_write) (blast intro: apply_ops_at)
  then show thesis using assms(6) s' CallWrite
    by (intro that [of "\<lambda>\<tau>. \<tau>" ?t]) (simp_all add: write_call del: do_call.simps)
next
  case CallNextVersion
  let ?v = "version_candidate (version_clock s) (of_nat (time s 0))"
  have "version_clock t + 1 \<le> version_clock s + 1"
    by (rule clock_inc_mono [OF assms(6,4)])
  then have "version_candidate (version_clock t) (of_nat (unat ?v)) = ?v"
    by (simp add: version_candidate_def max.assoc [symmetric] max_def [of "version_clock t + 1"])
  then show thesis using assms CallNextVersion
    by (intro that [of "\<lambda>\<tau>. case_nat (unat ?v) \<tau>" "t\<lparr>version_clock := ?v\<rparr>"])
      (auto simp: next_version_eq agree_def)
next
  case CallNow
  then show thesis using assms
    by (intro that [of "\<lambda>\<tau>. case_nat (time s 0) \<tau>" t]) (auto simp: now_ms_def agree_def)
next
  case (CallTrack k' v)
  then show thesis using assms
    by (intro that [of "\<lambda>\<tau>. \<tau>" "t\<lparr>versions := vm_set k' v (versions t)\<rparr>"]) (auto simp: agree_def vm_simps)
next
  case (CallUntrack k')
  then show thesis using assms
    by (intro that [of "\<lambda>\<tau>. \<tau>" "t\<lparr>versions := vm_remove k' (versions t)\<rparr>"]) (auto simp: agree_def vm_simps)
qed

end

subsection \<open>Interleaved threads\<close>

text \<open>The states threads can reach, one call of one thread at a time, before the version clock is exhausted.\<close>

inductive interleaved ::
  "'e engine_ops \<Rightarrow> 'e store \<times> 'a prog list \<Rightarrow> 'e store \<times> 'a prog list \<Rightarrow> bool" for E c where
  begin_threads: "interleaved E c c"
| thread_call: "interleaved E c (s, ps) \<Longrightarrow> i < length ps \<Longrightarrow> ps ! i = Call cl q \<Longrightarrow> version_clock s \<noteq> - 1 \<Longrightarrow>
    do_call E cl s = (a, s') \<Longrightarrow> interleaved E c (s', ps[i := q a])"

text \<open>Thread \<open>p\<close> of request \<open>r\<close>, begun at \<open>s\<close>, is where a thread alone would be, at clock readings of its own.\<close>

definition as_alone ::
  "'e engine_ops \<Rightarrow> ('e \<Rightarrow> kv) \<Rightarrow> 'e store \<Rightarrow> 'e store \<Rightarrow> request \<Rightarrow> (engine_error + outcome) prog \<Rightarrow> bool" where
  "as_alone E view s cur r p \<longleftrightarrow>
     on_key (req_key r) p
     \<and> (\<exists>g t. (\<forall>\<tau>. request_op E r (s\<lparr>time := g \<tau>\<rparr>) = run_prog E p (t\<lparr>time := \<tau>\<rparr>))
         \<and> agree view (req_key r) cur t \<and> version_clock t \<le> version_clock cur)"

lemma as_alone_begin: "calls_of E r p \<Longrightarrow> as_alone E view s s r p"
  unfolding calls_of_def as_alone_def
  by (auto simp: agree_def intro!: exI [of _ "\<lambda>\<tau>. \<tau>"] exI [of _ s])

lemma as_alone_other:
  assumes "as_alone E view s cur r p" "untouched view K cur cur'" "req_key r \<notin> K"
  shows "as_alone E view s cur' r p"
proof -
  obtain g t where gt: "\<forall>\<tau>. request_op E r (s\<lparr>time := g \<tau>\<rparr>) = run_prog E p (t\<lparr>time := \<tau>\<rparr>)"
      "agree view (req_key r) cur t" "version_clock t \<le> version_clock cur" "on_key (req_key r) p"
    using assms(1) by (auto simp: as_alone_def)
  moreover have "version_clock t \<le> version_clock cur'" using gt(3) assms(2) by (auto simp: untouched_def)
  ultimately show ?thesis using agree_untouched [OF gt(2) assms(2,3)] unfolding as_alone_def by blast
qed

context reliable_engine
begin

lemma as_alone_call:
  assumes "as_alone E view s cur r (Call c q)" "valid_key (req_key r)" "version_clock cur \<noteq> - 1"
    "do_call E c cur = (a, cur')"
  shows "as_alone E view s cur' r (q a)"
proof -
  obtain g t where gt: "\<forall>\<tau>. request_op E r (s\<lparr>time := g \<tau>\<rparr>) = run_prog E (Call c q) (t\<lparr>time := \<tau>\<rparr>)"
      "agree view (req_key r) cur t" "version_clock t \<le> version_clock cur" "call_on (req_key r) c" "on_key (req_key r) (q a)"
    using assms(1) by (auto simp: as_alone_def)
  obtain h t' where h: "\<forall>\<tau>. do_call E c (t\<lparr>time := h \<tau>\<rparr>) = (a, t'\<lparr>time := \<tau>\<rparr>)"
      "agree view (req_key r) cur' t'" "version_clock t' \<le> version_clock cur'"
    by (rule call_simulated [OF assms(4) gt(4) assms(2,3) gt(2,3)])
  have "request_op E r (s\<lparr>time := g (h \<tau>)\<rparr>) = run_prog E (q a) (t'\<lparr>time := \<tau>\<rparr>)" for \<tau>
    using gt(1) h(1) by simp
  then show ?thesis unfolding as_alone_def using gt(5) h(2,3) by (intro conjI exI [of _ "\<lambda>\<tau>. g (h \<tau>)"]) auto
qed

lemma interleaved_alone:
  assumes "interleaved E (s, ps0) (cur, ps)" "list_all2 (calls_of E) rs ps0"
    "distinct (map req_key rs)" "\<forall>r \<in> set rs. valid_key (req_key r)"
  shows "list_all2 (as_alone E view s cur) rs ps \<and> untouched view (req_key ` set rs) s cur"
  using assms(1)
proof (induction "(cur, ps)" arbitrary: cur ps rule: interleaved.induct)
  case begin_threads
  show ?case using assms(2) by (auto simp: untouched_def intro: list.rel_mono_strong as_alone_begin)
next
  case (thread_call cur ps i cl q a cur')
  then have al: "list_all2 (as_alone E view s cur) rs ps" and un: "untouched view (req_key ` set rs) s cur" by auto
  have len: "length rs = length ps" using al by (rule list_all2_lengthD)
  have i: "as_alone E view s cur (rs ! i) (Call cl q)" "valid_key (req_key (rs ! i))" "rs ! i \<in> set rs"
    using list_all2_nthD2 [OF al thread_call(3)] thread_call(3,4) assms(4) len by auto
  then have on: "call_on (req_key (rs ! i)) cl" by (simp add: as_alone_def)
  note f = call_untouched [OF thread_call(6) on thread_call(5)]
  have "as_alone E view s cur' (rs ! j) (ps[i := q a] ! j)" if "j < length ps" for j
  proof (cases "j = i")
    case True
    then show ?thesis using as_alone_call [OF i(1,2) thread_call(5,6)] that by simp
  next
    case False
    then have "req_key (rs ! j) \<notin> {req_key (rs ! i)}"
      using assms(3) that thread_call(3) len by (simp add: distinct_conv_nth)
    then show ?thesis using as_alone_other [OF list_all2_nthD2 [OF al that] f] False by simp
  qed
  then show ?case using len untouched_trans [OF un f] i(3) by (auto simp: list_all2_conv_all_nth)
qed

text \<open>A thread that has finished.\<close>

lemma alone_done:
  assumes "as_alone E view s cur r (Return out)" "store_ok view s" "valid_key (req_key r)"
    "\<forall>\<tau>. admissible view (s\<lparr>time := \<tau>\<rparr>) r"
  obtains now t where "out = fst (abs_op r (purge now (req_key r) (db_of view s)))"
    "db_of view cur (req_key r) = snd (abs_op r (purge now (req_key r) (db_of view s))) (req_key r)"
    "store_ok view t" "agree view (req_key r) cur t" "version_clock t \<le> version_clock cur"
proof -
  obtain g t where gt: "\<forall>\<tau>. request_op E r (s\<lparr>time := g \<tau>\<rparr>) = (out, t\<lparr>time := \<tau>\<rparr>)"
      "agree view (req_key r) cur t" "version_clock t \<le> version_clock cur"
    using assms(1) by (auto simp: as_alone_def)
  define s1 where "s1 = s\<lparr>time := g (time t)\<rparr>"
  have run: "request_op E r s1 = (out, t)" using spec [OF gt(1), of "time t"] by (simp add: s1_def)
  have "store_ok view s1" "admissible view s1 r" using assms(2,4) by (simp_all add: s1_def store_ok_def)
  from request_implements [OF this(1) assms(3) this(2)]
  have t: "store_ok view t" "out = fst (abs_op r (live_db view (req_key r) s1))"
      "db_of view t = snd (abs_op r (live_db view (req_key r) s1))"
    by (simp_all add: implements_iff run)
  have "live_db view (req_key r) s1 = purge (ms_now s1) (req_key r) (db_of view s)"
    by (simp add: live_db_def db_of_def s1_def)
  then show thesis using that [of "ms_now s1" t] t gt(2,3) agree_db(1) [OF gt(2) assms(3)] by simp
qed

end

subsection \<open>One request after the other\<close>

fun serial :: "(request \<times> u64) list \<Rightarrow> adb \<Rightarrow> (engine_error + outcome) list \<times> adb" where
  "serial [] d = ([], d)"
| "serial ((r, now) # rs) d =
     (case abs_op r (purge now (req_key r) d) of (x, d') \<Rightarrow> (case serial rs d' of (xs, d'') \<Rightarrow> (x # xs, d'')))"

definition local_op :: "bytes \<Rightarrow> 'a aop \<Rightarrow> bool" where
  "local_op k f \<longleftrightarrow>
     (\<forall>d d'. d k = d' k \<longrightarrow> fst (f d) = fst (f d') \<and> snd (f d) k = snd (f d') k)
     \<and> (\<forall>d k'. k' \<noteq> k \<longrightarrow> snd (f d) k' = d k')"

lemma local_opI:
  "(\<And>d d'. d k = d' k \<Longrightarrow> fst (f d) = fst (f d') \<and> snd (f d) k = snd (f d') k) \<Longrightarrow>
    (\<And>d k'. k' \<noteq> k \<Longrightarrow> snd (f d) k' = d k') \<Longrightarrow> local_op k f"
  unfolding local_op_def by blast

lemma local_opD:
  assumes "local_op k f"
  shows "d k = d' k \<Longrightarrow> fst (f d) = fst (f d')" "d k = d' k \<Longrightarrow> snd (f d) k = snd (f d') k"
    "k' \<noteq> k \<Longrightarrow> snd (f d) k' = d k'"
  using assms unfolding local_op_def by blast+

lemma local_op_typed:
  assumes "local_op k f" "\<And>v e. local_op k (g v e)"
  shows "local_op k (typed sel k f g)"
proof (rule local_opI)
  fix d d' :: adb assume eq: "d k = d' k"
  show "fst (typed sel k f g d) = fst (typed sel k f g d') \<and> snd (typed sel k f g d) k = snd (typed sel k f g d') k"
    using local_opD(1,2) [OF assms(1), where d = d and d' = d'] local_opD(1,2) [OF assms(2), where d = d and d' = d'] eq
    by (simp add: typed_def split: option.split prod.split)
next
  fix d :: adb and k' assume "k' \<noteq> k"
  then show "snd (typed sel k f g d) k' = d k'"
    using local_opD(3) [OF assms(1)] local_opD(3) [OF assms(2)] by (simp add: typed_def split: option.split prod.split)
qed

lemma reply_as_eq: "reply_as h f d = (map_sum id h (fst (f d)), snd (f d))"
  by (simp add: reply_as_def split: prod.split sum.split)

lemma local_op_rules:
  "local_op k (reply x)" "local_op k (replace k v x)"
  by (rule local_opI; simp add: reply_def replace_def)+

lemma local_op_reply_as: "local_op k f \<Longrightarrow> local_op k (reply_as h f)"
proof (rule local_opI)
  fix d d' :: adb
  assume "local_op k f" "d k = d' k"
  then have "fst (f d) = fst (f d')" "snd (f d) k = snd (f d') k" by (rule local_opD)+
  then show "fst (reply_as h f d) = fst (reply_as h f d') \<and> snd (reply_as h f d) k = snd (reply_as h f d') k"
    by (simp add: reply_as_eq)
qed (simp add: reply_as_eq local_opD(3))

lemma local_op_spec_fun: "local_op k (spec_del k)" "local_op k (spec_expire_at k t)"
  by (rule local_opI; simp add: spec_del_def spec_expire_at_def replace_def reply_def split: option.split)+

lemma abs_op_local: "local_op (req_key r) (abs_op r)"
  by (cases r)
    (simp_all add: spec_set_def spec_get_def spec_hset_def spec_hdel_def spec_hgetall_def spec_sadd_def spec_srem_def
      spec_zadd_def spec_zrem_def spec_push_def spec_pop_def Let_def local_op_rules local_op_reply_as local_op_typed local_op_spec_fun)

lemma purged_local: "local_op k f \<Longrightarrow> local_op k (\<lambda>d. f (purge now k d))"
proof (rule local_opI)
  fix d d' :: adb
  assume "local_op k f" "d k = d' k"
  moreover have "purge now k d k = purge now k d' k" using \<open>d k = d' k\<close> by (auto simp: purge_def split: option.split)
  ultimately show "fst (f (purge now k d)) = fst (f (purge now k d')) \<and> snd (f (purge now k d)) k = snd (f (purge now k d')) k"
    using local_opD(1,2) by blast
qed (simp add: local_opD(3) purge_at)

lemmas requests_local = local_opD [OF purged_local [OF abs_op_local]]

lemma serial_cons:
  "serial ((r, now) # rs) d = (let y = abs_op r (purge now (req_key r) d); ys = serial rs (snd y) in (fst y # fst ys, snd ys))"
  by (simp add: Let_def split: prod.splits)

lemma serial_other: "k \<notin> req_key ` fst ` set xs \<Longrightarrow> snd (serial xs d) k = d k"
proof (induction xs arbitrary: d)
  case (Cons x xs)
  then show ?case by (cases x) (simp add: serial_cons Let_def requests_local(3) del: serial.simps(2))
qed simp

lemma serial_distinct:
  assumes "distinct (map (req_key \<circ> fst) xs)" "\<forall>x \<in> set xs. d (req_key (fst x)) = d' (req_key (fst x))"
  shows "fst (serial xs d) = map (\<lambda>(r, now). fst (abs_op r (purge now (req_key r) d'))) xs
    \<and> (\<forall>(r, now) \<in> set xs. snd (serial xs d) (req_key r) = snd (abs_op r (purge now (req_key r) d')) (req_key r))"
  using assms
proof (induction xs arbitrary: d)
  case (Cons x xs)
  obtain r now where x: "x = (r, now)" by fastforce
  let ?y = "abs_op r (purge now (req_key r) d)"
  have l: "fst ?y = fst (abs_op r (purge now (req_key r) d'))"
    "snd ?y (req_key r) = snd (abs_op r (purge now (req_key r) d')) (req_key r)" "\<And>k. k \<noteq> req_key r \<Longrightarrow> snd ?y k = d k"
    using requests_local(1,2) [of d r d' now] requests_local(3) Cons.prems(2) x by simp_all
  have "\<forall>x \<in> set xs. snd ?y (req_key (fst x)) = d' (req_key (fst x))"
    using Cons.prems x l(3) by (force simp: image_iff)
  note ih = Cons.IH [OF _ this]
  have "req_key r \<notin> req_key ` fst ` set xs" using Cons.prems(1) x by (auto simp: image_comp)
  then show ?case using ih Cons.prems(1) l(1,2) serial_other [of "req_key r" xs "snd ?y"] x
    by (auto simp: serial_cons Let_def simp del: serial.simps(2))
qed simp

context reliable_engine
begin

text \<open>The invariant holds of a store that agrees, key by key, with stores of which it holds.\<close>

lemma store_ok_pieces:
  assumes "store_ok view s" "untouched view K s s'" "\<forall>k \<in> K. valid_key k"
    "\<forall>k \<in> K. \<exists>t. store_ok view t \<and> agree view k s' t \<and> version_clock t \<le> version_clock s'"
  shows "store_ok view s'"
proof -
  have piece: "\<exists>t. store_ok view t \<and> agree view k s' t \<and> version_clock t \<le> version_clock s'" for k
  proof (cases "k \<in> K")
    case False
    have "agree view k s s" by (simp add: agree_def)
    then show ?thesis using agree_untouched [OF _ assms(2) False] assms(1,2) by (auto simp: untouched_def)
  qed (use assms(4) in blast)
  have "key_wf (view (engine s')) (versions s') k" if "valid_key k" for k
    using piece [of k] agree_db(2) [OF _ that] that by (auto simp: store_ok_def store_wf_def)
  moreover have "keys_valid (view (engine s'))"
    using piece unfolding keys_valid_def store_ok_def store_wf_def agree_def by (metis owned_simps(1))
  moreover have "v \<le> version_clock s'"
    if raw: "view (engine s') raw \<noteq> None" "parse_owner_version raw = Some (k, v)" for raw k v
  proof -
    obtain t where t: "store_ok view t" "agree view k s' t" "version_clock t \<le> version_clock s'" using piece by blast
    have "view (engine t) raw \<noteq> None" using t(2) raw by (auto simp: agree_def owned_def)
    then have "v \<le> version_clock t" using t(1) raw(2) by (auto simp: store_ok_def store_wf_def versions_bounded_def)
    then show ?thesis using t(3) by simp
  qed
  ultimately show ?thesis by (auto simp: store_ok_def store_wf_def versions_bounded_def)
qed

lemma threads_done:
  assumes ok: "store_ok view s" and calls: "list_all2 (calls_of E) rs ps"
    and keys: "distinct (map req_key rs)" "\<forall>r \<in> set rs. valid_key (req_key r)"
    and adm: "\<forall>r \<in> set rs. \<forall>\<tau>. admissible view (s\<lparr>time := \<tau>\<rparr>) r"
    and run: "interleaved E (s, ps) (s', map Return outs)"
  obtains now where "length outs = length rs" "store_ok view s'"
    "\<And>i. i < length rs \<Longrightarrow> outs ! i = fst (abs_op (rs ! i) (purge (now i) (req_key (rs ! i)) (db_of view s)))"
    "\<And>i. i < length rs \<Longrightarrow> db_of view s' (req_key (rs ! i))
      = snd (abs_op (rs ! i) (purge (now i) (req_key (rs ! i)) (db_of view s))) (req_key (rs ! i))"
    "\<And>k. k \<notin> req_key ` set rs \<Longrightarrow> db_of view s' k = db_of view s k"
proof -
  note al = interleaved_alone [OF run calls keys]
  then have len: "length outs = length rs" and un: "untouched view (req_key ` set rs) s s'"
    using list_all2_lengthD by fastforce+
  have "\<exists>now t. outs ! i = fst (abs_op (rs ! i) (purge now (req_key (rs ! i)) (db_of view s)))
      \<and> db_of view s' (req_key (rs ! i)) = snd (abs_op (rs ! i) (purge now (req_key (rs ! i)) (db_of view s))) (req_key (rs ! i))
      \<and> store_ok view t \<and> agree view (req_key (rs ! i)) s' t \<and> version_clock t \<le> version_clock s'"
    if "i < length rs" for i
  proof -
    have "as_alone E view s s' (rs ! i) (Return (outs ! i))"
      using list_all2_nthD [OF conjunct1 [OF al] that] that len by simp
    from alone_done [OF this ok] show ?thesis using that keys(2) adm nth_mem by metis
  qed
  then obtain now t where nt: "\<And>i. i < length rs \<Longrightarrow> outs ! i = fst (abs_op (rs ! i) (purge (now i) (req_key (rs ! i)) (db_of view s)))
      \<and> db_of view s' (req_key (rs ! i)) = snd (abs_op (rs ! i) (purge (now i) (req_key (rs ! i)) (db_of view s))) (req_key (rs ! i))
      \<and> store_ok view (t i) \<and> agree view (req_key (rs ! i)) s' (t i) \<and> version_clock (t i) \<le> version_clock s'"
    by metis
  have "\<forall>k \<in> req_key ` set rs. \<exists>t. store_ok view t \<and> agree view k s' t \<and> version_clock t \<le> version_clock s'"
    using nt by (auto simp: in_set_conv_nth) blast
  then have ok': "store_ok view s'" using store_ok_pieces [OF ok un] keys(2) by blast
  have "db_of view s' k = db_of view s k" if "k \<notin> req_key ` set rs" for k
    using agree_db(1) [OF agree_untouched [OF _ un that]]
    by (cases "valid_key k") (simp_all add: agree_def db_of_def abs_kv_def)
  with that [of now, OF len ok'] nt show thesis by blast
qed

lemma interleaved_serial:
  assumes "store_ok view s" "list_all2 (calls_of E) rs ps" "distinct (map req_key rs)"
    "\<forall>r \<in> set rs. valid_key (req_key r)" "\<forall>r \<in> set rs. \<forall>\<tau>. admissible view (s\<lparr>time := \<tau>\<rparr>) r"
    "interleaved E (s, ps) (s', map Return outs)"
  shows "\<exists>nows. length nows = length rs \<and> serial (zip rs nows) (db_of view s) = (outs, db_of view s') \<and> store_ok view s'"
proof -
  let ?d = "db_of view s"
  obtain now where n: "length outs = length rs" "store_ok view s'"
    "\<And>i. i < length rs \<Longrightarrow> outs ! i = fst (abs_op (rs ! i) (purge (now i) (req_key (rs ! i)) ?d))"
    "\<And>i. i < length rs \<Longrightarrow> db_of view s' (req_key (rs ! i))
      = snd (abs_op (rs ! i) (purge (now i) (req_key (rs ! i)) ?d)) (req_key (rs ! i))"
    "\<And>k. k \<notin> req_key ` set rs \<Longrightarrow> db_of view s' k = ?d k"
    by (rule threads_done [OF assms]) blast
  let ?xs = "zip rs (map now [0..<length rs])"
  have fs: "fst ` set ?xs = set rs" by (simp flip: set_map)
  have "distinct (map (req_key \<circ> fst) ?xs)" using assms(3) by (simp flip: map_map)
  from serial_distinct [OF this, of ?d ?d]
  have ser: "fst (serial ?xs ?d) = map (\<lambda>(r, now). fst (abs_op r (purge now (req_key r) ?d))) ?xs"
    "\<forall>(r, now) \<in> set ?xs. snd (serial ?xs ?d) (req_key r) = snd (abs_op r (purge now (req_key r) ?d)) (req_key r)" by auto
  have "fst (serial ?xs ?d) = outs" unfolding ser(1) using n(1,3) by (auto intro: nth_equalityI)
  moreover have "snd (serial ?xs ?d) k = db_of view s' k" for k
  proof (cases "k \<in> req_key ` set rs")
    case True
    then obtain i where i: "i < length rs" "k = req_key (rs ! i)" by (auto simp: in_set_conv_nth)
    then have "(rs ! i, now i) \<in> set ?xs" by (auto simp: in_set_zip intro!: exI [of _ i])
    then show ?thesis using ser(2) n(4) [OF i(1)] i(2) by fastforce
  next
    case False
    then show ?thesis using n(5) [OF False] serial_other [of k ?xs ?d] by (simp add: fs)
  qed
  ultimately show ?thesis using n(2) by (intro exI [of _ "map now [0..<length rs]"]) (auto simp: prod_eq_iff)
qed

end

subsection \<open>The property\<close>

text \<open>C3: Requests on different keys do not interfere, although the store takes no lock.  Threads that run
  requests on distinct keys, interleaved between any two of their calls of the engine, the version
  map and the clocks, end with the replies and the database of an execution one after the other on the
  abstract database, each at some time; and the invariant holds again.\<close>

theorem different_keys_serializable:
  assumes "reliable_engine E view gc_on" "store_ok view s" "list_all2 (calls_of E) rs ps"
    and "distinct (map req_key rs)" "\<forall>r \<in> set rs. valid_key (req_key r)"
    and "\<forall>r \<in> set rs. \<forall>\<tau>. admissible view (s\<lparr>time := \<tau>\<rparr>) r"
    and "interleaved E (s, ps) (s', map Return outs)"
  shows "\<exists>nows. length nows = length rs \<and> serial (zip rs nows) (db_of view s) = (outs, db_of view s') \<and> store_ok view s'"
  by (rule reliable_engine.interleaved_serial [OF assms])

text \<open>The calls of a \<open>SET\<close>.\<close>

definition set_write :: "bytes \<Rightarrow> bytes \<Rightarrow> u64 \<Rightarrow> answer \<Rightarrow> (engine_error + outcome) prog" where
  "set_write k x e a =
     (let v = (case a of GotClock v \<Rightarrow> v | _ \<Rightarrow> 0);
          m = \<lparr>type_id = TYPE_STRING, version = v, expire_ms = e, payload = x\<rparr>
      in Call (CallWrite (batch_put (meta_key k) (meta_encode m) batch_new)) (\<lambda>b.
           Return (case b of GotWritten (Inr _) \<Rightarrow> Inr OutUnit | GotWritten (Inl e) \<Rightarrow> Inl e | _ \<Rightarrow> Inl WrongType)))"

definition set_calls :: "bytes \<Rightarrow> bytes \<Rightarrow> u64 \<Rightarrow> (engine_error + outcome) prog" where
  "set_calls k x e = Call (CallUntrack k) (\<lambda>_. Call CallNextVersion (set_write k x e))"

lemma set_calls_of: "calls_of E (ReqSet k x e) (set_calls k x e)"
proof -
  have "batch_on k (batch_put (meta_key k) y batch_new)" for y by simp
  then show ?thesis
    by (simp add: calls_of_def set_calls_def set_write_def Let_def batch_on_def fun_eq_iff store_set_def put_meta_def
        try_then_def ok_def split: prod.splits sum.splits)
qed

context reliable_engine
begin

lemma set_write_step:
  assumes "interleaved E c (s, ps)" "i < length ps" "ps ! i = set_write k x e a" "version_clock s \<noteq> - 1"
  shows "\<exists>s'. interleaved E c (s', ps[i := Return (Inr OutUnit)]) \<and> version_clock s' = version_clock s"
  using interleaved.thread_call [OF assms(1,2) _ assms(4) write_call] assms(3) by (fastforce simp: set_write_def Let_def)

lemma version_step:
  assumes "interleaved E c (s, ps)" "i < length ps" "ps ! i = Call CallNextVersion q" "version_clock s \<noteq> - 1"
  shows "\<exists>a s'. interleaved E c (s', ps[i := q a]) \<and> time s' = (\<lambda>n. time s (Suc n))
    \<and> version_clock s' = version_candidate (version_clock s) (of_nat (time s 0))"
proof -
  let ?v = "version_candidate (version_clock s) (of_nat (time s 0))"
  have "do_call E CallNextVersion s = (GotClock ?v, s\<lparr>time := \<lambda>n. time s (Suc n), version_clock := ?v\<rparr>)"
    by (simp add: next_version_eq)
  from interleaved.thread_call [OF assms this] show ?thesis by (intro exI conjI) (assumption, simp_all)
qed

lemma two_sets_interleave:
  assumes "version_clock s = 5" "time s = (\<lambda>_. 1000000)"
  shows "\<exists>s'. interleaved E (s, [set_calls k x e, set_calls k' x' e']) (s', map Return [Inr OutUnit, Inr OutUnit])"
proof -
  let ?c = "(s, [set_calls k x e, set_calls k' x' e'])"
  note step = interleaved.thread_call [where E = E and c = ?c]
  define s1 where "s1 = s\<lparr>versions := vm_remove k (versions s)\<rparr>"
  define s2 where "s2 = s1\<lparr>versions := vm_remove k' (versions s1)\<rparr>"
  have "interleaved E ?c (s1, [Call CallNextVersion (set_write k x e), set_calls k' x' e'])"
    using step [OF interleaved.begin_threads, of 0] assms by (simp add: set_calls_def s1_def)
  from step [OF this, of 1]
  have "interleaved E ?c (s2, [Call CallNextVersion (set_write k x e), Call CallNextVersion (set_write k' x' e')])"
    using assms by (simp add: set_calls_def s1_def s2_def)
  from version_step [OF this, of 0]
  obtain a s3 where "interleaved E ?c (s3, [set_write k x e a, Call CallNextVersion (set_write k' x' e')])"
      and s3: "version_clock s3 = 1000000" "time s3 = (\<lambda>_. 1000000)"
    using assms by (auto simp: s1_def s2_def version_candidate_def)
  from version_step [OF this(1), of 1]
  obtain b s4 where "interleaved E ?c (s4, [set_write k x e a, set_write k' x' e' b])" and "version_clock s4 = 1000001"
    using s3 by (auto simp: version_candidate_def)
  from set_write_step [OF this(1), of 1 k' x' e' b] this(2)
  obtain s5 where "interleaved E ?c (s5, [set_write k x e a, Return (Inr OutUnit)])" "version_clock s5 = 1000001" by auto
  from set_write_step [OF this(1), of 0 k x e a] this(2) show ?thesis by auto
qed

end

theorem different_keys_serializable_witness:
  "\<exists>s'. interleaved (rocks mem_db) (empty_store, [set_calls [107] [1] 0, set_calls [108] [2] 0])
      (s', map Return [Inr OutUnit, Inr OutUnit])
    \<and> db_of mem_view s' = [[107] \<mapsto> (RString [1], 0), [108] \<mapsto> (RString [2], 0)] \<and> store_ok mem_view s'"
proof -
  let ?rs = "[ReqSet [107] [1] 0, ReqSet [108] [2] 0]"
  have start: "version_clock empty_store = 5" "time empty_store = (\<lambda>_. 1000000)" by (simp_all add: empty_store_def)
  obtain s' where run: "interleaved (rocks mem_db) (empty_store, [set_calls [107] [1] 0, set_calls [108] [2] 0])
      (s', map Return [Inr OutUnit, Inr OutUnit])"
    using reliable_engine.two_sets_interleave [OF mem_engine, of empty_store "[107]" "[1]" 0 "[108]" "[2]" 0, OF start] by blast
  have "\<exists>nows. length nows = length ?rs \<and> serial (zip ?rs nows) (db_of mem_view empty_store)
      = ([Inr OutUnit, Inr OutUnit], db_of mem_view s') \<and> store_ok mem_view s'"
    by (rule different_keys_serializable [OF mem_engine empty_store_ok _ _ _ _ run])
      (simp_all add: set_calls_of valid_key_def empty_store_def)
  then obtain a b where "serial [(ReqSet [107] [1] 0, a), (ReqSet [108] [2] 0, b)] (db_of mem_view empty_store)
      = ([Inr OutUnit, Inr OutUnit], db_of mem_view s')" "store_ok mem_view s'"
    by (auto simp: length_Suc_conv)
  then show ?thesis using run by (auto simp: empty_store_db spec_set_def replace_def reply_as_def)
qed

end
