(* ===== verification/Store_Findings.thy ===== *)
theory Store_Findings
  imports Store_Correct
begin

text \<open>
  What the Hash commands do when one call names a field twice.  \<open>sadd\<close>, \<open>srem\<close> and \<open>zrem\<close> skip
  repetitions with a \<open>seen\<close> set; \<open>hset\<close> and \<open>hdel\<close> look every field up in the engine before any
  of them is written, so a repetition is counted again.  And what a \<open>SET\<close> whose write fails leaves
  behind.
\<close>

context reliable_engine
begin

lemma load_typed_unexpired:
  assumes "view (engine s) (meta_key k) = Some (meta_encode mt)" "expire_ms mt = 0" "type_id mt = ty"
  shows "load_typed E k ty s = (Inr (Some mt), s)"
  using assms by (simp add: load_typed_def load_live_meta_def load_meta_def try_then_def)

lemma hash_reads_unexpired:
  assumes "view (engine s) (meta_key k) = Some (meta_encode mt)" "expire_ms mt = 0" "type_id mt = TYPE_HASH"
  shows "fst (hgetall E k s) = Inr (items (fields_at (view (engine s)) k (version mt)))"
    "fst (hlen E k s) = Inr (uint (field_count mt))"
proof -
  note lt = load_typed_unexpired [OF assms]
  let ?p = "subkey_prefix k (version mt)"
  obtain xs where xs: "scans (view (engine s)) ?p xs"
    "engine_for E ?p (\<lambda>k v out. out @ [(drop (length ?p) k, v)]) [] s
      = (Inr (fold (\<lambda>(k, v) out. out @ [(drop (length ?p) k, v)]) xs []), s)"
    by (rule engine_for_eq)
  show "fst (hgetall E k s) = Inr (items (fields_at (view (engine s)) k (version mt)))"
    using scans_items [OF xs(1) view_finite] xs(2) by (simp add: hgetall_def try_then_def lt Let_def fold_snoc_map)
  show "fst (hlen E k s) = Inr (uint (field_count mt))" by (simp add: hlen_def load_count_def try_then_def lt)
qed

lemma hset_twice_run:
  assumes "store_ok view s" "valid_key k" "version_clock s \<noteq> - 1" "live_db view k s k = None"
  obtains s' mt where "hset E k [(f, x), (f, y)] s = (Inr 2, s')"
    "view (engine s') (meta_key k) = Some (meta_encode mt)" "expire_ms mt = 0" "type_id mt = TYPE_HASH"
    "field_count mt = 2" "fields_at (view (engine s')) k (version mt) = [f \<mapsto> y]"
proof -
  obtain s1 where s1: "load_live_meta E k s = (Inr (meta_at (view (engine s1)) k), s1)"
    "store_ok view s1" "db_of view s1 = live_db view k s" "version_clock s1 = version_clock s"
    by (rule load_live [OF assms(1,2)])
  have n: "meta_at (view (engine s1)) k = None"
  proof -
    have "abs_kv (view (engine s1)) k = None" using s1(3) assms(4) by (simp add: db_of_def)
    then show ?thesis using assms(2) by (simp add: abs_kv_def)
  qed
  have lt: "load_typed E k TYPE_HASH s = (Inr None, s1)"
    using s1(1) n by (simp add: load_typed_def try_then_def)
  obtain mt s2 where new: "new_composite_meta k TYPE_HASH s1 = (mt, s2)" by fastforce
  have d: "db_of view s1 k = None" using s1(3) assms(4) by simp
  have c: "version_clock s1 \<noteq> - 1" using s1(4) assms(3) by simp
  note p = prepared_new [OF s1(2) assms(2) d c new]
  have lo: "load_or_new_counted E k TYPE_HASH s = (Inr (set_field_count 0 mt), s2)"
    using lt new by (simp add: load_or_new_counted_def try_then_def infallible_def)
  have fe: "fields_at (view (engine s2)) k (version mt) = Map.empty"
    using p(4,5) by (simp add: contents_at_def)
  let ?mt = "set_field_count 2 (set_field_count 0 mt)"
  let ?b = "\<lparr>ops = put_ops k (version mt) [(f, x), (f, y)] @ [Put (meta_key k) (meta_encode ?mt)]\<rparr>"
  let ?s' = "s2\<lparr>engine := snd (eng_write E (engine s2) ?b)\<rparr>"
  have run: "hset E k [(f, x), (f, y)] s = (Inr 2, ?s')"
    using lo fun_cong [OF fe, of f] p(2)
    by (simp add: hset_def try_then_def Let_def batch_put_def batch_new_def put_ops_def fields_at_def)
  have v: "view (engine ?s') = (apply_ops (put_ops k (version mt) [(f, x), (f, y)])
      (view (engine s2)))(meta_key k \<mapsto> meta_encode ?mt)" by simp
  have "fields_at (view (engine ?s')) k (version mt)
      = fields_at (apply_ops (put_ops k (version mt) [(f, x), (f, y)]) (view (engine s2))) k (version mt)"
    unfolding v by (rule fields_read_write(1))
  also have "\<dots> = [f \<mapsto> y]" by (simp add: fields_put_ops fe)
  finally have "fields_at (view (engine ?s')) k (version ?mt) = [f \<mapsto> y]" by simp
  moreover have "view (engine ?s') (meta_key k) = Some (meta_encode ?mt)" unfolding v by simp
  ultimately show thesis using that [of ?s' ?mt] run p(2,3)
    by (simp add: field_count_def set_field_count_def)
qed

lemma hdel_twice_implements:
  assumes "store_ok view s" "valid_key k" "live_db view k s k = Some (RHash h, e)" "card (dom h) = 2" "h f \<noteq> None"
  shows "implements view k (hdel E k [f, f]) (typed as_hash k (reply 0) (\<lambda>h e. replace k None 2)) s"
  unfolding hdel_def
proof (rule implements_typed [OF assms(1,2), where val = "\<lambda>m mt. fields_at m k (version mt)"], goal_cases)
  case (3 s1 mt)
  let ?h = "fields_at (view (engine s1)) k (version mt)"
  have h: "?h = h" using 3(3,6,7) assms(3) by (simp add: value_at_def)
  have ct: "counted_type (type_id mt)" using 3(7) by (simp add: counted_type_def)
  have "field_count mt = of_nat (card (dom ?h))"
    using meta_wf_counted [of view s1 k mt] 3(5) ct by (simp add: counted_def contents_at_def)
  then have fc: "field_count mt = 2" using h assms(4) by simp
  let ?b = "\<lparr>ops = delete_ops k (version mt) [f, f]\<rparr>"
  let ?g = "finish_removal E k mt 0 2 ?b s1"
  have run: "try_then (hdel_loop E k (version mt) [f, f] (field_count mt) 0 batch_new)
      (\<lambda>(fc, removed, batch). finish_removal E k mt fc removed batch) s1 = ?g"
  proof -
    have "view (engine s1) (subkey k (version mt) f) = h f" using h by (auto simp: fields_at_def)
    then show ?thesis
      using assms(5) fc by (auto simp: try_then_def Let_def batch_new_def batch_delete_def delete_ops_def sat_dec_def)
  qed
  have "type_id mt \<noteq> TYPE_STRING" by (simp add: 3(7))
  then have vb: "version mt \<le> version_clock s1"
    using prepared_found [OF 3(1) assms(2) 3(4,5)] by (simp add: prepared_def)
  have os: "\<forall>x \<in> set (ops ?b). owned k (op_key x) \<and> op_bounded (version mt) x"
    using delete_ops_owned [OF assms(2)] by simp
  have v: "view (engine (snd ?g)) = (apply_ops (ops ?b) (view (engine s1)))(meta_key k := None)"
    "versions (snd ?g) = vm_remove k (versions s1)" "version_clock (snd ?g) = version_clock s1"
    "fst ?g = Inr 2"
    by (simp_all add: finish_removal_def try_then_def)
  from counted_delete [OF 3(1) assms(2) vb os v(1-3)] v(4) show ?case
    by (simp only: option.case run) (simp add: meets_def replace_def)
qed (simp_all add: as_value meets_def reply_def)

end

lemma hset_repeated_field:
  assumes "reliable_engine E view gc_on" "store_ok view s" "valid_key k" "version_clock s \<noteq> - 1"
    and "live_db view k s k = None"
  shows "fst (hset E k [(f, x), (f, y)] s) = Inr 2
    \<and> fst (hlen E k (snd (hset E k [(f, x), (f, y)] s))) = Inr 2
    \<and> fst (hgetall E k (snd (hset E k [(f, x), (f, y)] s))) = Inr [(f, y)]"
proof -
  note re = reliable_engine.hset_twice_run [OF assms]
  obtain s' mt where r: "hset E k [(f, x), (f, y)] s = (Inr 2, s')"
    and m: "view (engine s') (meta_key k) = Some (meta_encode mt)" "expire_ms mt = 0" "type_id mt = TYPE_HASH"
    and c: "field_count mt = 2" and fs: "fields_at (view (engine s')) k (version mt) = [f \<mapsto> y]"
    by (rule re)
  show ?thesis using reliable_engine.hash_reads_unexpired [OF assms(1) m] by (simp add: r c fs items_def)
qed

text \<open>C40: A field named twice is counted twice.  \<open>HSET k f x f y\<close> on a missing key reports two created fields
  and stores a count of two, while the hash has the one field \<open>f\<close>: from then on \<open>HLEN\<close> disagrees with
  \<open>HGETALL\<close>.  \<open>HDEL k f f\<close> on a hash of two fields reports two removals, takes the count to zero and
  deletes the whole key, including the other field, which the call never named.\<close>

theorem repeated_fields_miscounted:
  assumes "reliable_engine E view gc_on" "store_ok view s" "valid_key k"
  shows "(live_db view k s k = None \<and> version_clock s \<noteq> - 1 \<longrightarrow>
      fst (hset E k [(f, x), (f, y)] s) = Inr 2
      \<and> fst (hlen E k (snd (hset E k [(f, x), (f, y)] s))) = Inr 2
      \<and> fst (hgetall E k (snd (hset E k [(f, x), (f, y)] s))) = Inr [(f, y)])
    \<and> (live_db view k s k = Some (RHash h, e) \<and> card (dom h) = 2 \<and> h f \<noteq> None \<longrightarrow>
      fst (hdel E k [f, f] s) = Inr 2 \<and> db_of view (snd (hdel E k [f, f] s)) k = None)"
proof (intro conjI impI; elim conjE)
  assume "live_db view k s k = None" "version_clock s \<noteq> - 1"
  then show "fst (hset E k [(f, x), (f, y)] s) = Inr 2"
    "fst (hlen E k (snd (hset E k [(f, x), (f, y)] s))) = Inr 2"
    "fst (hgetall E k (snd (hset E k [(f, x), (f, y)] s))) = Inr [(f, y)]"
    using hset_repeated_field [OF assms] by blast+
next
  assume h: "live_db view k s k = Some (RHash h, e)" "card (dom h) = 2" "h f \<noteq> None"
  then show "fst (hdel E k [f, f] s) = Inr 2" "db_of view (snd (hdel E k [f, f] s)) k = None"
    using reliable_engine.hdel_twice_implements [OF assms h]
    by (simp_all add: implements_iff typed_def replace_def)
qed

theorem repeated_fields_miscounted_witness:
  "fst (hlen (rocks mem_db) [107] (snd (hset (rocks mem_db) [107] [([102], [1]), ([102], [2])] empty_store))) = Inr 2
    \<and> fst (hdel (rocks mem_db) [107] [[97], [97]] demo_hash) = Inr 2
    \<and> db_of mem_view (snd (hdel (rocks mem_db) [107] [[97], [97]] demo_hash)) [107] = None"
  using repeated_fields_miscounted [OF on_empty(1-3), of "[102]" "[1]" "[2]"] on_empty(4)
    repeated_fields_miscounted [OF on_hash, where f = "[97]" and h = "[[97] \<mapsto> [1], [98] \<mapsto> [2]]" and e = 0]
  by (simp add: empty_store_live demo)

subsection \<open>A failing write\<close>

context general_engine
begin

lemma store_set_failed:
  assumes "store_set E k x exp s = (Inl e, s1)"
  shows "view (engine s1) = view (engine s)" "gc_on (engine s1) = gc_on (engine s)"
    "versions s1 = vm_remove k (versions s)"
proof -
  obtain b e1 where "eng_write E (engine s) b = (Inl e, e1)" "engine s1 = e1" "versions s1 = vm_remove k (versions s)"
    using assms by (auto simp: store_set_def next_version_eq put_meta_def engine_write_def Let_def split: prod.splits)
  then show "view (engine s1) = view (engine s)" "gc_on (engine s1) = gc_on (engine s)"
      "versions s1 = vm_remove k (versions s)"
    using write_failed [of "engine s" b e e1] write_gc [of "engine s" b] by simp_all
qed

lemma compact_untracked:
  assumes "store_compact E s = (Inr (), s')" "gc_on (engine s)" "valid_key k" "vm_get k (versions s) = None"
  shows "view (engine s') (meta_key k) = view (engine s) (meta_key k)" "fields_at (view (engine s')) k v = Map.empty"
proof -
  have c: "compacts (\<lambda>r x. should_keep (versions s) r) range_default (view (engine s)) (view (engine s'))"
    using assms(1,2) compact_sound [of "gc_should_keep (versions s)" "engine s" "Some range_default" "engine s'"]
    by (auto simp: store_compact_def gc_should_keep_def range_or_all_def split: prod.splits)
  have sub: "view (engine s') \<subseteq>\<^sub>m view (engine s)" using c by (simp add: compacts_def)
  have "view (engine s') (meta_key k) = Some y" if "view (engine s) (meta_key k) = Some y" for y
    using c that by (simp add: compacts_def should_keep_meta_key)
  moreover have "view (engine s') (meta_key k) = None" if "view (engine s) (meta_key k) = None"
    using sub that by (metis domIff map_le_implies_dom_le subset_iff)
  ultimately show "view (engine s') (meta_key k) = view (engine s) (meta_key k)" by (metis not_Some_eq)
  show "fields_at (view (engine s')) k v = Map.empty"
  proof
    fix f
    have "\<not> should_keep (versions s) (subkey k v f)" using assms(3,4) by (simp add: should_keep_subkey)
    then have "view (engine s') (subkey k v f) = None" if "view (engine s) (subkey k v f) \<noteq> None"
      using c that by (auto simp: compacts_def)
    moreover have "view (engine s') (subkey k v f) = None" if "view (engine s) (subkey k v f) = None"
      using sub that by (metis domIff map_le_implies_dom_le subset_iff)
    ultimately show "fields_at (view (engine s')) k v f = None" by (cases "view (engine s) (subkey k v f)") (auto simp: fields_at_def)
  qed
qed

end

text \<open>C39: A \<open>SET\<close> that fails loses data.  \<open>set\<close> stops tracking the key's structure before it writes; when the
  write fails the client is told so and the database is as before, but the next compaction takes
  the live fields of a hash for garbage: the key is left with its metadata and no field.\<close>

theorem failed_set_loses_hash:
  assumes "general_engine E view gc_on" "gc_on (engine s)" "valid_key k"
    and "db_of view s k = Some (RHash h, ex)"
    and "store_set E k x expire s = (Inl e, s1)" "store_compact E s1 = (Inr (), s2)"
  shows "db_of view s1 = db_of view s \<and> db_of view s2 k = Some (RHash Map.empty, ex)"
proof -
  note failed = general_engine.store_set_failed [OF assms(1,5)]
  have gone: "vm_get k (versions s1) = None" using failed(3) by (simp add: vm_simps)
  note rest = general_engine.compact_untracked [OF assms(1,6) _ assms(3) gone]
  obtain mt where mt: "meta_at (view (engine s)) k = Some mt" "value_at (view (engine s)) k mt = RHash h" "expire_ms mt = ex"
    using assms(3,4) by (auto simp: db_of_def abs_kv_def)
  then have hash: "type_id mt = TYPE_HASH" by (auto simp: value_at_def split: if_splits option.splits prod.splits)
  have "meta_at (view (engine s2)) k = Some mt"
    using mt(1) rest(1) failed assms(2) by (simp add: meta_at_def)
  moreover have "value_at (view (engine s2)) k mt = RHash Map.empty"
    using rest(2) [of "version mt"] failed(2) assms(2) hash by (simp add: value_at_def)
  ultimately show ?thesis using failed(1) assms(3) mt(3) by (simp add: db_of_def abs_kv_def)
qed

text \<open>An engine whose disk is full: every write fails, everything else works.\<close>

definition full_disk :: "mem rocks_engine engine_ops" where
  "full_disk = (rocks mem_db)\<lparr>eng_write := (\<lambda>e b. (Inl (Backend ''disk full''), e))\<rparr>"

lemma full_disk_engine: "general_engine full_disk mem_view mem_gc"
proof -
  note m = reliable_engine.axioms(1) [OF mem_engine, unfolded general_engine_def]
  show ?thesis unfolding general_engine_def full_disk_def using m by simp
qed

theorem failed_set_loses_hash_witness:
  "\<exists>s e s1 s2. db_of mem_view s [107] = Some (RHash [[97] \<mapsto> [1], [98] \<mapsto> [2]], 0)
     \<and> store_set full_disk [107] [9] 0 s = (Inl e, s1) \<and> store_compact full_disk s1 = (Inr (), s2)
     \<and> db_of mem_view s2 [107] = Some (RHash Map.empty, 0)"
proof -
  obtain s where s: "mem_gc (engine s)" "db_of mem_view s [107] = Some (RHash [[97] \<mapsto> [1], [98] \<mapsto> [2]], 0)"
    using reliable_engine.with_engine_ok [OF mem_engine demo_hash_ok(1), of 9 "\<lambda>_. 0"] demo_hash_ok(2)
    by (metis fun_upd_same)
  obtain s1 where s1: "store_set full_disk [107] [9] 0 s = (Inl (Backend ''disk full''), s1)"
    by (simp add: store_set_def next_version_eq put_meta_def engine_write_def full_disk_def)
  obtain s2 where s2: "store_compact full_disk s1 = (Inr (), s2)"
    using reliable_engine.compact_total [OF mem_engine, of "gc_should_keep (versions s1)" "engine s1" "Some range_default"]
    by (cases "eng_compact_range (rocks mem_db) (gc_should_keep (versions s1)) (engine s1) (Some range_default)")
      (simp add: store_compact_def full_disk_def)
  show ?thesis using failed_set_loses_hash [OF full_disk_engine s(1) valid_short s(2) s1 s2] s(2) s1 s2 by blast
qed

end
