(* ===== verification/Store_Restart.thy ===== *)
theory Store_Restart
  imports Store_Findings
begin

text \<open>
  A restart after the wall clock has stepped back.  \<open>VERSION_CLOCK\<close> is a static that starts at zero in
  every process, so what keeps versions increasing across a restart is the wall clock alone.
  \<open>Store_Steps\<close> and \<open>restart_rebuilds\<close> assume that it is above the versions on disk; here is what happens when it has
  gone back.
\<close>

context reliable_engine
begin

lemma del_unexpired:
  assumes "view (engine s) (meta_key k) = Some (meta_encode mt)" "expire_ms mt = 0"
  shows "fst (store_del E k s) = Inr True"
    "view (engine (snd (store_del E k s))) = (view (engine s))(meta_key k := None)"
  using assms by (simp_all add: store_del_def load_live_meta_def load_meta_def logical_delete_def try_then_def)

lemma with_engine_state:
  assumes "with_engine E e clock readings = Inr s"
  shows "view (engine s) = view e" "version_clock s = clock" "time s = readings"
  using assms install_view [of e]
  by (auto simp: with_engine_def rebuild_version_map_def Let_def split: sum.splits)

text \<open>\<open>HSET\<close> on a key without metadata, at a version whose records are still there.\<close>

lemma hset_at_old_version:
  assumes "view (engine s) (meta_key k) = None" "valid_key k"
    and "version_candidate (version_clock s) (of_nat (time s 0)) = v"
    and "fields_at (view (engine s)) k v = h" "h g = None"
  obtains s' mt where "hset E k [(g, y)] s = (Inr 1, s')"
    "view (engine s') (meta_key k) = Some (meta_encode mt)" "expire_ms mt = 0" "type_id mt = TYPE_HASH"
    "field_count mt = 1" "version mt = v" "fields_at (view (engine s')) k v = h(g \<mapsto> y)"
proof -
  let ?mt = "set_field_count 1 (set_field_count 0 \<lparr>type_id = TYPE_HASH, version = v, expire_ms = 0, payload = []\<rparr>)"
  let ?b = "batch_put (meta_key k) (meta_encode ?mt) (batch_put (subkey k v g) y batch_new)"
  have none: "view (engine s) (subkey k v g) = None" using assms(4,5) by (auto simp: fields_at_def)
  have "load_typed E k TYPE_HASH s = (Inr None, s)"
    using assms(1) by (simp add: load_typed_def load_live_meta_def load_meta_def try_then_def)
  then have run: "\<exists>s'. hset E k [(g, y)] s = (Inr 1, s') \<and> view (engine s')
      = (view (engine s))(subkey k v g \<mapsto> y, meta_key k \<mapsto> meta_encode ?mt)"
    using none assms(3)
    by (simp add: hset_def load_or_new_counted_def try_then_def infallible_def new_composite_meta_def next_version_eq
        set_field_count_def field_count_def Let_def)
  then obtain s' where s': "hset E k [(g, y)] s = (Inr 1, s')"
      "view (engine s') = (view (engine s))(subkey k v g \<mapsto> y, meta_key k \<mapsto> meta_encode ?mt)" by blast
  have "fields_at (view (engine s')) k v = fields_at ((view (engine s))(subkey k v g \<mapsto> y)) k v"
    unfolding s'(2) by (rule fields_read_write(1))
  also have "\<dots> = h(g \<mapsto> y)" using assms(2,4) by (auto simp: fields_at_def fun_eq_iff subkey_inject)
  finally show thesis using that [OF s'(1), of ?mt] s'(2) by (simp add: set_field_count_def field_count_def)
qed

end

text \<open>C37: Deleted data comes back.  A hash is deleted, the process restarts before a compaction has removed the
  hash's records, and the wall clock, having stepped back, shows the time of the hash's version
  again: the key is missing, as it should be, until one \<open>HSET\<close> of a new field, after which \<open>HGETALL\<close> returns the
  deleted fields with the new one, and \<open>HLEN\<close> says one.\<close>

theorem clock_step_back_revives:
  assumes "reliable_engine E view gc_on" "valid_key k"
    and "view (engine s) (meta_key k) = Some (meta_encode mt)" "type_id mt = TYPE_HASH" "expire_ms mt = 0"
    and "fields_at (view (engine s)) k (version mt) = h" "h g = None" "version mt \<noteq> 0"
    and "store_del E k s = (r, s1)" "with_engine E (engine s1) 0 readings = Inr s2"
    and "of_nat (readings 0) = version mt" "hset E k [(g, y)] s2 = (r', s3)"
  shows "r = Inr True \<and> db_of view s2 k = None \<and> r' = Inr 1
    \<and> fst (hgetall E k s3) = Inr (items (h(g \<mapsto> y))) \<and> fst (hlen E k s3) = Inr 1"
proof -
  note del = reliable_engine.del_unexpired [OF assms(1,3,5)]
  note st = reliable_engine.with_engine_state [OF assms(1,10)]
  have v2: "view (engine s2) = (view (engine s))(meta_key k := None)" using st(1) del(2) assms(9) by simp
  have ver: "version_candidate (version_clock s2) (of_nat (time s2 0)) = version mt"
    using st(2,3) assms(8,11) by (simp add: version_candidate_def max_def word_le_nat_alt unat_eq_zero Suc_le_eq unat_gt_0)
  have f2: "fields_at (view (engine s2)) k (version mt) = h" unfolding v2 fields_read_write(1) by (rule assms(6))
  have m2: "view (engine s2) (meta_key k) = None" by (simp add: v2)
  obtain s3' mt' where h3: "hset E k [(g, y)] s2 = (Inr 1, s3')"
    "view (engine s3') (meta_key k) = Some (meta_encode mt')" "expire_ms mt' = 0" "type_id mt' = TYPE_HASH"
    "field_count mt' = 1" "version mt' = version mt" "fields_at (view (engine s3')) k (version mt) = h(g \<mapsto> y)"
    by (rule reliable_engine.hset_at_old_version [OF assms(1) m2 assms(2) ver f2 assms(7), of y]) blast
  then have s3: "s3' = s3" "r' = Inr 1" using assms(12) by simp_all
  note reads = reliable_engine.hash_reads_unexpired [OF assms(1) h3(2-4)]
  have "db_of view s2 k = None" using m2 by (simp add: db_of_def abs_kv_def meta_at_def)
  then show ?thesis using reads h3(5-7) s3 del(1) assms(9) by simp
qed

theorem clock_step_back_revives_witness:
  "\<exists>s1 s2 s3 r r'. store_del (rocks mem_db) [107] (snd (hset (rocks mem_db) [107] [([97], [1])] empty_store)) = (r, s1)
    \<and> with_engine (rocks mem_db) (engine s1) 0 (\<lambda>_. 1000000) = Inr s2
    \<and> hset (rocks mem_db) [107] [([98], [2])] s2 = (r', s3)
    \<and> fst (hgetall (rocks mem_db) [107] s3) = Inr [([97], [1]), ([98], [2])] \<and> fst (hlen (rocks mem_db) [107] s3) = Inr 1"
proof -
  let ?E = "rocks mem_db"
  have empty: "mem_view (engine empty_store) (meta_key [107]) = None" "fields_at (mem_view (engine empty_store)) [107] 1000000 = Map.empty"
    by (simp_all add: empty_store_def fields_at_def fun_eq_iff)
  have ver: "version_candidate (version_clock empty_store) (of_nat (time empty_store 0)) = 1000000"
    by (simp add: empty_store_def version_candidate_def)
  obtain s mt where s: "hset ?E [107] [([97], [1])] empty_store = (Inr 1, s)"
    "mem_view (engine s) (meta_key [107]) = Some (meta_encode mt)" "expire_ms mt = 0" "type_id mt = TYPE_HASH"
    "version mt = 1000000" "fields_at (mem_view (engine s)) [107] (version mt) = [[97] \<mapsto> [1]]"
    by (rule reliable_engine.hset_at_old_version [OF mem_engine empty(1) valid_short ver empty(2), of "[97]" "[1]"]) simp_all
  obtain r s1 where s1: "store_del ?E [107] s = (r, s1)" by fastforce
  obtain s2 where s2: "with_engine ?E (engine s1) 0 (\<lambda>_. 1000000) = Inr s2"
    using reliable_engine.scan_total [OF mem_engine, of "eng_install_gc ?E (engine s1)" "[META_PREFIX]"]
    by (auto simp: with_engine_def rebuild_version_map_def Let_def for_items_ok)
  obtain r' s3 where s3: "hset ?E [107] [([98], [2])] s2 = (r', s3)" by fastforce
  have side: "[[97 :: byte] \<mapsto> [1 :: byte]] [98] = None" "version mt \<noteq> 0" "of_nat 1000000 = version mt" using s(5) by simp_all
  have "fst (hgetall ?E [107] s3) = Inr (items [[97] \<mapsto> [1], [98] \<mapsto> [2]])" "fst (hlen ?E [107] s3) = Inr 1"
    using clock_step_back_revives [OF mem_engine valid_short s(2,4,3,6) side(1,2) s1 s2 side(3) s3] by blast+
  moreover have "items [[97] \<mapsto> [1], [98] \<mapsto> [2]] = [([97], [1]), ([98], [2 :: byte])]" by (simp add: items_def)
  ultimately show ?thesis using s(1) s1 s2 s3 by simp
qed

end
