(* ===== verification/Store_Steps.thy ===== *)
theory Store_Steps
  imports Store_Isolation Store_Restart
begin

text \<open>
  The store as a state machine: requests interleaved with background compactions and restarts of the process.
  Each step is labelled with what a client sees of it: the request, the time it was executed at and its
  reply; compactions and restarts show nothing.  A restart is a new process, whose \<open>VERSION_CLOCK\<close> starts at
  zero: what keeps versions increasing is the wall clock.  A trace of the store is a serial execution on the abstract
  database, with the same replies.
\<close>

subsection \<open>Steps\<close>

datatype event = Did request u64 "engine_error + outcome" | Compacted | Restarted

text \<open>After a restart the wall clock stays above some \<open>c\<close> that no version on disk exceeds.\<close>

inductive store_step ::
  "'e engine_ops \<Rightarrow> ('e \<Rightarrow> kv) \<Rightarrow> 'e store \<Rightarrow> event \<Rightarrow> 'e store \<Rightarrow> bool" for E view where
  command: "valid_key (req_key r) \<Longrightarrow> admissible view s r \<Longrightarrow> request_op E r s = (x, s') \<Longrightarrow>
    store_step E view s (Did r (ms_now s) x) s'"
| compaction: "store_compact E s = (x, s') \<Longrightarrow> store_step E view s Compacted s'"
| restart: "with_engine E (engine s) 0 readings = Inr s' \<Longrightarrow> versions_bounded (view (engine s)) c \<Longrightarrow>
    \<forall>n. c < of_nat (readings n) \<Longrightarrow> store_step E view s Restarted s'"

inductive store_run ::
  "'e engine_ops \<Rightarrow> ('e \<Rightarrow> kv) \<Rightarrow> 'e store \<Rightarrow> event list \<Rightarrow> 'e store \<Rightarrow> bool" for E view where
  run_refl: "store_run E view s [] s"
| run_step: "store_run E view s evs s' \<Longrightarrow> store_step E view s' ev s'' \<Longrightarrow> store_run E view s (evs @ [ev]) s''"

inductive_cases store_step_cases [consumes 1, case_names command compaction restart]: "store_step E view s ev s'"

text \<open>What the clients asked, when, and what they were answered.\<close>

fun asked :: "event list \<Rightarrow> (request \<times> u64) list" where
  "asked [] = []"
| "asked (Did r now x # evs) = (r, now) # asked evs"
| "asked (_ # evs) = asked evs"

fun answers_in :: "event list \<Rightarrow> (engine_error + outcome) list" where
  "answers_in [] = []"
| "answers_in (Did r now x # evs) = x # answers_in evs"
| "answers_in (_ # evs) = answers_in evs"

subsection \<open>A version clock that lags behind\<close>

text \<open>A store whose version clock lags behind the versions in use does as one whose clock is \<open>c\<close>, as long as the
  wall clock is above \<open>c\<close>: both draw the reading.\<close>

definition covers :: "u64 \<Rightarrow> 'e store \<Rightarrow> bool" where
  "covers c s \<longleftrightarrow> version_clock s = c \<or> version_clock s \<le> c \<and> (\<forall>n. c < of_nat (time s n))"

definition store_ready :: "('e \<Rightarrow> kv) \<Rightarrow> 'e store \<Rightarrow> bool" where
  "store_ready view s \<longleftrightarrow> (\<exists>c. covers c s \<and> store_ok view (s\<lparr>version_clock := c\<rparr>))"

definition same_but_clock :: "'e store \<Rightarrow> 'e store \<Rightarrow> bool" where
  "same_but_clock s t \<longleftrightarrow> covers (version_clock t) s \<and> t = s\<lparr>version_clock := version_clock t\<rparr>"

lemma lagging_version:
  assumes "covers c s"
  shows "version_candidate (version_clock s) (of_nat (time s 0)) = version_candidate c (of_nat (time s 0))"
proof (cases "version_clock s = c")
  case False
  have above: "version_candidate p now = now" if "p < now" for p now :: u64
    using that by (simp add: version_candidate_def max_def inc_le)
  have "version_clock s \<le> c" "c < of_nat (time s 0)" using assms False by (auto simp: covers_def)
  then show ?thesis using above [of "version_clock s"] above [of c] by simp
qed simp

lemma call_same:
  assumes "same_but_clock s t" "do_call E c s = (a, s')"
  shows "\<exists>t'. do_call E c t = (a, t') \<and> same_but_clock s' t'"
proof -
  obtain d where t: "t = s\<lparr>version_clock := d\<rparr>" "covers d s" using assms(1) by (metis same_but_clock_def)
  show ?thesis
  proof (cases c)
    case CallNextVersion
    then show ?thesis using assms(2) lagging_version [OF t(2)]
      by (auto simp: t(1) next_version_eq same_but_clock_def covers_def)
  next
    case CallNow
    then show ?thesis using assms(2) t by (auto simp: now_ms_def same_but_clock_def covers_def)
  qed (use assms(2) t in \<open>auto simp: same_but_clock_def covers_def engine_write_def split: prod.splits\<close>)
qed

lemma prog_same:
  assumes "same_but_clock s t" "run_prog E p s = (x, s')"
  shows "\<exists>t'. run_prog E p t = (x, t') \<and> same_but_clock s' t'"
  using assms
proof (induction p arbitrary: s t)
  case (Call c q)
  obtain a s1 where a: "do_call E c s = (a, s1)" by fastforce
  from call_same [OF Call.prems(1) this] obtain t1 where "do_call E c t = (a, t1)" "same_but_clock s1 t1" by blast
  then show ?case using Call.IH [of "q a" s1 t1] Call.prems(2) a by simp
qed simp

lemma request_same:
  assumes "same_but_clock s t" "request_op E r s = (x, s')" "valid_key (req_key r)"
  shows "\<exists>t'. request_op E r t = (x, t') \<and> same_but_clock s' t'"
proof -
  obtain p where "run_prog E p = request_op E r" using requests_have_calls [OF assms(3), of E] by (auto simp: calls_of_def)
  then show ?thesis using prog_same [OF assms(1), of E p x s'] assms(2) by simp
qed

lemma clock_fields [simp]:
  "db_of view (s\<lparr>version_clock := c\<rparr>) = db_of view s" "ms_now (s\<lparr>version_clock := c\<rparr>) = ms_now s"
  "live_db view k (s\<lparr>version_clock := c\<rparr>) = live_db view k s"
  by (simp_all add: db_of_def ms_now_def live_db_def)

lemma admissible_covered:
  assumes "admissible view s r" "covers c s"
  shows "admissible view (s\<lparr>version_clock := c\<rparr>) r"
proof -
  have "c \<noteq> - 1" if "version_clock s \<noteq> - 1" using assms(2) that by (auto simp: covers_def)
  then show ?thesis using assms(1) by (cases r) (simp_all add: list_room_def)
qed

subsection \<open>Traces\<close>

lemma trace_snoc:
  "asked (evs @ [ev]) = asked evs @ asked [ev]" "answers_in (evs @ [ev]) = answers_in evs @ answers_in [ev]"
  by (induction evs rule: asked.induct) simp_all

lemma serial_append:
  "serial (xs @ ys) d = (case serial xs d of (us, d') \<Rightarrow> (case serial ys d' of (vs, d'') \<Rightarrow> (us @ vs, d'')))"
  by (induction xs arbitrary: d) (auto split: prod.splits)

context reliable_engine
begin

lemma step_trace:
  assumes "store_step E view s ev s'" "store_ready view s"
  shows "store_ready view s' \<and> serial (asked [ev]) (db_of view s) = (answers_in [ev], db_of view s')"
proof -
  obtain c where c: "covers c s" "store_ok view (s\<lparr>version_clock := c\<rparr>)" using assms(2) by (auto simp: store_ready_def)
  let ?t = "s\<lparr>version_clock := c\<rparr>"
  have st: "same_but_clock s ?t" using c(1) by (simp add: same_but_clock_def)
  from assms(1) show ?thesis
  proof (cases rule: store_step_cases)
    case (command r x)
    obtain t' where t': "request_op E r ?t = (x, t')" "same_but_clock s' t'"
      using request_same [OF st command(4,2)] by blast
    have "implements view (req_key r) (request_op E r) (abs_op r) ?t"
      using request_implements [OF c(2) command(2) admissible_covered [OF command(3) c(1)]] .
    then have "store_ok view t'" "abs_op r (live_db view (req_key r) s) = (x, db_of view t')"
      using t'(1) by (auto simp: implements_iff prod_eq_iff)
    moreover have "db_of view t' = db_of view s'" "covers (version_clock t') s'" "t' = s'\<lparr>version_clock := version_clock t'\<rparr>"
      using t'(2) by (auto simp: same_but_clock_def) (metis clock_fields(1))
    ultimately show ?thesis using command(1) unfolding store_ready_def live_db_def by (auto intro!: exI [of _ "version_clock t'"])
  next
    case (compaction x)
    obtain t' where t': "store_compact E ?t = (Inr (), t')" "store_ok view t'" "db_of view t' = db_of view s"
      "version_clock t' = c" using compact_ok [OF c(2)] by auto
    then obtain e where "s' = s\<lparr>engine := e\<rparr>" "t' = ?t\<lparr>engine := e\<rparr>"
      using compaction(2) by (auto simp: store_compact_def split: prod.splits)
    then have "t' = s'\<lparr>version_clock := c\<rparr>" "covers c s'" using c(1) by (cases s, simp add: covers_def)+
    then show ?thesis using compaction(1) t'(2,3) unfolding store_ready_def by auto
  next
    case (restart readings b)
    have "store_ok view (s\<lparr>version_clock := b\<rparr>)" using c(2) restart(3) by (simp add: store_ok_def store_wf_def)
    from with_engine_ok [OF this, of b readings]
    obtain t' where t': "with_engine E (engine s) b readings = Inr t'" "db_of view t' = db_of view s" "store_ok view t'" by auto
    then have "t' = s'\<lparr>version_clock := b\<rparr>" "covers b s'"
      using restart(2,4) by (auto simp: with_engine_def covers_def rebuild_version_map_def Let_def split: sum.splits)
    then show ?thesis using restart(1) t'(2,3) unfolding store_ready_def by auto
  qed
qed

lemma run_trace:
  assumes "store_run E view s evs s'" "store_ready view s"
  shows "store_ready view s' \<and> serial (asked evs) (db_of view s) = (answers_in evs, db_of view s')"
  using assms
proof (induction rule: store_run.induct)
  case (run_step s evs s' ev s'')
  then show ?case using step_trace [OF run_step(2)] by (simp add: trace_snoc serial_append del: serial.simps(2))
qed simp

end

subsection \<open>Properties\<close>

text \<open>C1: Whatever admissible requests, compactions and restarts a store goes through, it answers as the abstract
  database does: executing the requests of the trace one after the other, each on the database lazily
  expired at the time it was executed, gives exactly the replies of the trace and ends with the database the
  store then represents.  Compactions and restarts are invisible, a restart being a new process, with the
  version clock at zero, whose wall clock is above every version on disk; and the store is ready for the next step.
  Admissible are requests with distinct fields in \<open>HSET\<close> and \<open>HDEL\<close>, within the capacity of the encoding.\<close>

theorem runs_refine_database:
  assumes "reliable_engine E view gc_on" "store_run E view s evs s'" "store_ready view s"
  shows "store_ready view s' \<and> serial (asked evs) (db_of view s) = (answers_in evs, db_of view s')"
  by (rule reliable_engine.run_trace [OF assms])

text \<open>\<open>SET\<close>, a compaction and a restart.\<close>

theorem runs_refine_database_witness:
  "\<exists>evs s'. store_run (rocks mem_db) mem_view empty_store evs s'
    \<and> evs = [Did (ReqSet [107] [120] 0) (ms_now empty_store) (Inr OutUnit), Compacted, Restarted]
    \<and> version_clock s' = 0 \<and> db_of mem_view s' = [[107] \<mapsto> (RString [120], 0)]"
proof -
  let ?E = "rocks mem_db" and ?r = "ReqSet [107] [120] 0"
  have ready: "store_ready mem_view empty_store"
    unfolding store_ready_def covers_def using empty_store_ok by (intro exI [of _ "version_clock empty_store"]) simp
  obtain x s1 where s1: "request_op ?E ?r empty_store = (x, s1)" by fastforce
  have adm: "admissible mem_view empty_store ?r" "valid_key (req_key ?r)"
    using valid_short by (simp_all add: empty_store_clock elements_def empty_store_live)
  have one: "store_run ?E mem_view empty_store [Did ?r (ms_now empty_store) x] s1"
    using run_step [OF run_refl command [OF adm(2,1) s1]] by simp
  obtain s2 where s2: "store_compact ?E s1 = (Inr (), s2)"
    using reliable_engine.compact_total [OF mem_engine, of "gc_should_keep (versions s1)" "engine s1" "Some range_default"]
    by (cases "eng_compact_range ?E (gc_should_keep (versions s1)) (engine s1) (Some range_default)")
      (simp add: store_compact_def)
  have two: "store_run ?E mem_view empty_store [Did ?r (ms_now empty_store) x, Compacted] s2"
    using run_step [OF one compaction [OF s2]] by simp
  have "version_clock (snd (request_op ?E ?r empty_store)) = version_candidate 5 1000000"
    by (simp add: snd_try_ok store_set_def put_meta_def next_version_eq engine_write_def empty_store_def split: prod.splits)
  then have "version_clock s2 = 1000000"
    using s1 s2 by (auto simp: store_compact_def version_candidate_def max_def split: prod.splits)
  moreover obtain c where c: "covers c s2" "store_ok mem_view (s2\<lparr>version_clock := c\<rparr>)"
    using runs_refine_database [OF mem_engine two ready] by (auto simp: store_ready_def)
  ultimately have "c \<noteq> - 1" by (auto simp: covers_def)
  then have "c < - 1" by (simp add: order.not_eq_order_implies_strict)
  moreover have "of_nat (2 ^ 64 - 1) = (- 1 :: u64)" by simp
  ultimately have "c < of_nat (2 ^ 64 - 1)" by (simp only:)
  moreover obtain s3 where s3: "with_engine ?E (engine s2) 0 (\<lambda>_. 2 ^ 64 - 1) = Inr s3"
    using reliable_engine.scan_total [OF mem_engine, of "eng_install_gc ?E (engine s2)" "[META_PREFIX]"]
    by (auto simp: with_engine_def rebuild_version_map_def Let_def for_items_ok)
  moreover have "versions_bounded (mem_view (engine s2)) c" using c(2) by (simp add: store_ok_def store_wf_def)
  ultimately have "store_step ?E mem_view s2 Restarted s3" using restart by metis
  from run_step [OF two this]
  have run: "store_run ?E mem_view empty_store [Did ?r (ms_now empty_store) x, Compacted, Restarted] s3" by simp
  from runs_refine_database [OF mem_engine this ready]
  have "x = Inr OutUnit \<and> db_of mem_view s3 = [[107] \<mapsto> (RString [120], 0)]"
    by (auto simp: empty_store_db reply_as_def spec_unfold purge_def)
  moreover have "version_clock s3 = 0" by (rule reliable_engine.with_engine_state(2) [OF mem_engine s3])
  ultimately show ?thesis using run by auto
qed

end
