(* ===== verification/Store_Atomic.thy ===== *)
theory Store_Atomic
  imports Store_Findings
begin

text \<open>
  Updates when the engine fails.  Over any engine that keeps its contract (reads and writes may fail, a
  failed write changes nothing), an update that commits in one batch either takes effect or leaves the
  records and the version map as they were, but for what belongs to a key that holds no live value; the next
  compaction then loses nothing either.  \<open>SET\<close> is the exception (\<open>Store_Findings\<close>).  \<open>Store_Races\<close> shows that removing
  the last elements, which takes two writes, is not of this kind.
\<close>

subsection \<open>Phases of an operation\<close>

definition quiet :: "('e \<Rightarrow> kv) \<Rightarrow> ('e, 'a) sop \<Rightarrow> bool" where
  "quiet view f \<longleftrightarrow> (\<forall>s. view (engine (snd (f s))) = view (engine s) \<and> versions (snd (f s)) = versions s)"

definition atomic :: "('e \<Rightarrow> kv) \<Rightarrow> ('e, 'a) sop \<Rightarrow> bool" where
  "atomic view f \<longleftrightarrow>
     (\<forall>s e. fst (f s) = Inl e \<longrightarrow> view (engine (snd (f s))) = view (engine s) \<and> versions (snd (f s)) = versions s)"

text \<open>The same, but for the tracked version of \<open>k\<close>.\<close>

definition same_tracking :: "bytes \<Rightarrow> 'e store \<Rightarrow> 'e store \<Rightarrow> bool" where
  "same_tracking k s s' \<longleftrightarrow> (\<forall>k'. k' \<noteq> k \<longrightarrow> vm_get k' (versions s') = vm_get k' (versions s))"

definition atomic_but :: "('e \<Rightarrow> kv) \<Rightarrow> bytes \<Rightarrow> ('e, 'a) sop \<Rightarrow> bool" where
  "atomic_but view k f \<longleftrightarrow>
     (\<forall>s e. fst (f s) = Inl e \<longrightarrow> view (engine (snd (f s))) = view (engine s) \<and> same_tracking k s (snd (f s)))"

text \<open>What a failed update leaves: everything as it was, or, when its key holds no live value, everything but
  the metadata and the tracked version of that key.\<close>

definition left_alone :: "('e \<Rightarrow> kv) \<Rightarrow> bytes \<Rightarrow> 'e store \<Rightarrow> 'e store \<Rightarrow> bool" where
  "left_alone view k s s' \<longleftrightarrow>
     view (engine s') = view (engine s) \<and> versions s' = versions s
     \<or> live_db view k s k = None \<and> view (engine s') = (view (engine s))(meta_key k := None) \<and> same_tracking k s s'"

definition all_or_nothing :: "('e \<Rightarrow> kv) \<Rightarrow> bytes \<Rightarrow> ('e, 'a) sop \<Rightarrow> bool" where
  "all_or_nothing view k f \<longleftrightarrow> (\<forall>s e s'. f s = (Inl e, s') \<longrightarrow> left_alone view k s s')"

text \<open>An update on \<open>k\<close> that fails at \<open>s\<close> leaves the store alone, and the next compaction loses nothing.\<close>

definition lossless :: "'e engine_ops \<Rightarrow> ('e \<Rightarrow> kv) \<Rightarrow> bytes \<Rightarrow> ('e, 'a) sop \<Rightarrow> 'e store \<Rightarrow> bool" where
  "lossless E view k f s \<longleftrightarrow>
     (\<forall>e s'. f s = (Inl e, s') \<longrightarrow> left_alone view k s s'
        \<and> (\<forall>s2. store_compact E s' = (Inr (), s2) \<longrightarrow> db_of view s2 = db_of view s'))"

named_theorems phases

lemma quiet_rules [phases]:
  "quiet view (ok x)" "quiet view (fail e)" "quiet view (engine_get E key)" "quiet view (engine_for E pre f acc)"
  by (simp_all add: quiet_def ok_def fail_def engine_get_def engine_for_def)

lemma quiet_then [phases]:
  assumes "quiet view m" "\<And>x. quiet view (f x)"
  shows "quiet view (try_then m f)"
  using assms unfolding quiet_def try_then_def
  by (auto split: prod.splits sum.splits) (metis snd_conv)+

lemma atomic_rules:
  "quiet view f \<Longrightarrow> atomic view f"
  "quiet view m \<Longrightarrow> (\<And>x. atomic view (g x)) \<Longrightarrow> atomic view (try_then m g)"
  "atomic view w \<Longrightarrow> (\<And>x s. \<exists>y s'. h x s = (Inr y, s')) \<Longrightarrow> atomic view (try_then w h)"
  unfolding quiet_def atomic_def try_then_def
  by (auto split: prod.splits sum.splits) (metis fst_conv snd_conv sum.distinct(1))+

text \<open>A fresh metadata record is tracked before it is written.\<close>

lemma atomic_but_rules:
  "atomic view f \<Longrightarrow> atomic_but view k f"
  "(\<And>x. atomic view (g x)) \<Longrightarrow> atomic_but view k (try_then (infallible (new_composite_meta k ty)) g)"
proof -
  show "atomic view f \<Longrightarrow> atomic_but view k f" by (simp add: atomic_def atomic_but_def same_tracking_def)
  assume g: "\<And>x. atomic view (g x)"
  have "\<exists>x s1. try_then (infallible (new_composite_meta k ty)) g s = g x s1 \<and> engine s1 = engine s \<and> same_tracking k s s1" for s
    by (simp add: infallible_def new_composite_meta_def next_version_eq try_then_def, intro exI conjI, rule refl)
      (simp_all add: same_tracking_def vm_simps)
  then show "atomic_but view k (try_then (infallible (new_composite_meta k ty)) g)"
    using g unfolding atomic_def atomic_but_def same_tracking_def by metis
qed

lemma quiet_splits [phases]:
  "quiet view f \<Longrightarrow> quiet view g \<Longrightarrow> quiet view (if b then f else g)"
  "quiet view f \<Longrightarrow> (\<And>x. quiet view (h x)) \<Longrightarrow> quiet view (case r of None \<Rightarrow> f | Some x \<Rightarrow> h x)"
  by (auto split: option.splits)

lemma atomic_splits:
  "atomic view f \<Longrightarrow> atomic view g \<Longrightarrow> atomic view (if b then f else g)"
  "atomic view f \<Longrightarrow> (\<And>x. atomic view (h x)) \<Longrightarrow> atomic view (case r of None \<Rightarrow> f | Some x \<Rightarrow> h x)"
  "(\<And>x y z. atomic view (w x y z)) \<Longrightarrow> atomic view (case p of (x, y, z) \<Rightarrow> w x y z)"
  by (auto split: option.splits prod.splits)

lemma loops_quiet [phases]:
  "quiet view (hset_loop E k v ps fc c b)" "quiet view (sadd_loop E k v ms seen fc c b)"
  "quiet view (zadd_loop E k v qs fc c b)" "quiet view (decode_stored_score raw)" "quiet view (bounds_or_corrupt mt)"
proof -
  show d: "quiet view (decode_stored_score raw)" for raw by (simp add: decode_stored_score_def phases)
  show "quiet view (bounds_or_corrupt mt)" by (auto simp: bounds_or_corrupt_def phases split: option.splits)
  show "quiet view (hset_loop E k v ps fc c b)"
    by (induction ps arbitrary: fc c b) (auto simp: Let_def intro!: phases)
  show "quiet view (sadd_loop E k v ms seen fc c b)"
    by (induction ms arbitrary: seen fc c b) (auto simp: Let_def intro!: phases)
  show "quiet view (zadd_loop E k v qs fc c b)"
    by (induction qs arbitrary: fc c b) (auto simp: Let_def intro!: phases d)
qed

context general_engine
begin

lemma write_atomic: "atomic view (engine_write E b)"
  using write_failed [of _ b] by (auto simp: atomic_def engine_write_def split: prod.splits)

lemma commit_atomic: "atomic view (try_then (engine_write E b) (\<lambda>_. ok r))"
  by (rule atomic_rules(3) [OF write_atomic]) (simp add: ok_def)

lemma logical_delete_cases:
  obtains e s' where "logical_delete E k s = (Inl e, s')" "view (engine s') = view (engine s)" "versions s' = versions s"
  | s' where "logical_delete E k s = (Inr (), s')" "view (engine s') = (view (engine s))(meta_key k := None)"
      "versions s' = vm_remove k (versions s)"
proof (cases "eng_write E (engine s) (batch_delete (meta_key k) batch_new)")
  case (Pair r e')
  show thesis
  proof (cases r)
    case (Inl x)
    then show thesis using that(1) Pair write_failed [OF Pair [unfolded Inl]]
      by (simp add: logical_delete_def engine_write_def try_then_def)
  next
    case (Inr u)
    then have "view e' = (view (engine s))(meta_key k := None)" using write_sound [of "engine s" _ e'] Pair by simp
    then show thesis using that(2) Pair Inr
      by (simp add: logical_delete_def engine_write_def try_then_def ok_def)
  qed
qed

text \<open>Loading live metadata changes nothing but the metadata of a key that has expired.\<close>

lemma load_live_cases:
  assumes "load_live_meta E k s = (r, s')" "valid_key k"
  obtains (kept) "view (engine s') = view (engine s)" "versions s' = versions s" "r \<noteq> Inr None"
  | (none) "r = Inr None" "live_db view k s k = None" "view (engine s') = (view (engine s))(meta_key k := None)"
      "same_tracking k s s'"
proof -
  consider x where "eng_get E (engine s) (meta_key k) = Inl x"
    | "eng_get E (engine s) (meta_key k) = Inr None"
    | raw where "eng_get E (engine s) (meta_key k) = Inr (Some raw)" by (metis sum.exhaust option.exhaust)
  then show ?thesis
  proof cases
    case 2
    then have "view (engine s) (meta_key k) = None" using get_sound by metis
    moreover from this have "view (engine s) = (view (engine s))(meta_key k := None)" by (simp add: fun_upd_idem)
    ultimately show ?thesis using 2 assms
      by (intro none) (auto simp: load_live_meta_def load_meta_def engine_get_def try_then_def ok_def live_db_def purge_def
          db_of_def abs_kv_def meta_at_def same_tracking_def)
  next
    case (3 raw)
    then have raw: "view (engine s) (meta_key k) = Some raw" using get_sound by metis
    show ?thesis
    proof (cases "meta_decode raw")
      case (Some mt)
      have lm: "load_meta E k s = (Inr (Some mt), s)"
        using 3 Some by (simp add: load_meta_def engine_get_def try_then_def ok_def)
      show ?thesis
      proof (cases "expire_ms mt \<noteq> 0 \<and> expire_ms mt \<le> ms_now s")
        case True
        let ?t = "s\<lparr>time := (\<lambda>n. time s (Suc n))\<rparr>"
        have run: "load_live_meta E k s = try_then (logical_delete E k) (\<lambda>_. ok None) ?t"
          using True lm by (simp add: load_live_meta_def try_then_def now_ms_def ms_now_def)
        have "db_of view s k = Some (value_at (view (engine s)) k mt, expire_ms mt)"
          using raw Some assms(2) by (simp add: db_of_def abs_kv_def meta_at_def)
        then have "live_db view k s k = None"
          using True by (simp add: live_db_def purge_def expired_def)
        then show ?thesis
          using assms(1) run kept none
          by (cases rule: logical_delete_cases [of k ?t])
            (auto simp: try_then_def ok_def same_tracking_def vm_simps)
      next
        case False
        then show ?thesis using assms(1) lm kept
          by (auto simp: load_live_meta_def try_then_def ok_def now_ms_def ms_now_def split: if_splits)
      qed
    qed (use 3 assms(1) kept in \<open>auto simp: load_live_meta_def load_meta_def engine_get_def try_then_def ok_def fail_def\<close>)
  qed (use assms(1) kept in \<open>auto simp: load_live_meta_def load_meta_def engine_get_def try_then_def ok_def\<close>)
qed

lemma live_all_or_nothing:
  assumes "valid_key k" "\<And>m. atomic view (f (Some m))" "atomic_but view k (f None)"
  shows "all_or_nothing view k (try_then (load_live_meta E k) f)"
  unfolding all_or_nothing_def
proof (intro allI impI)
  fix s e s' assume run: "try_then (load_live_meta E k) f s = (Inl e, s')"
  obtain r s1 where l: "load_live_meta E k s = (r, s1)" by fastforce
  from l assms(1) show "left_alone view k s s'"
  proof (cases rule: load_live_cases)
    case kept
    have "view (engine s') = view (engine s1) \<and> versions s' = versions s1"
    proof (cases r)
      case (Inr q)
      then obtain m where "r = Inr (Some m)" using kept(3) by (cases q) simp_all
      then show ?thesis using run l assms(2) [of m] by (auto simp: try_then_def atomic_def) (metis fst_conv snd_conv)+
    qed (use run l in \<open>auto simp: try_then_def\<close>)
    then show ?thesis using kept by (simp add: left_alone_def)
  next
    case none
    then have "f None s1 = (Inl e, s')" using run l by (simp add: try_then_def)
    then have "view (engine s') = view (engine s1) \<and> same_tracking k s1 s'"
      using assms(3) unfolding atomic_but_def by (metis fst_conv snd_conv)
    then show ?thesis using none by (simp add: left_alone_def same_tracking_def)
  qed
qed

lemma typed_all_or_nothing:
  assumes "valid_key k" "\<And>m. atomic view (f (Some m))" "atomic_but view k (f None)"
  shows "all_or_nothing view k (try_then (load_typed E k ty) f)"
  unfolding load_typed_def try_then_assoc
proof (rule live_all_or_nothing [OF assms(1)])
  show "atomic_but view k (try_then (case None of Some m \<Rightarrow> if type_id m = ty then ok (Some m) else fail WrongType | None \<Rightarrow> ok None) f)"
    using assms(3) by (simp add: atomic_but_def)
  fix m
  show "atomic view (try_then (case Some m of Some m \<Rightarrow> if type_id m = ty then ok (Some m) else fail WrongType | None \<Rightarrow> ok None) f)"
    using assms(2) [of m] by (simp add: atomic_def)
qed

lemma counted_all_or_nothing:
  assumes "valid_key k" "\<And>m. atomic view (f m)"
  shows "all_or_nothing view k (try_then (load_or_new_counted E k ty) f)"
  unfolding load_or_new_counted_def try_then_assoc
proof (rule typed_all_or_nothing [OF assms(1)])
  fix m
  show "atomic view (try_then (case Some m of Some m \<Rightarrow> ok m
      | None \<Rightarrow> try_then (infallible (new_composite_meta k ty)) (\<lambda>m. ok (set_field_count 0 m))) f)"
    using assms(2) by (simp add: atomic_rules(2) quiet_rules)
next
  show "atomic_but view k (try_then (case None of Some m \<Rightarrow> ok m
      | None \<Rightarrow> try_then (infallible (new_composite_meta k ty)) (\<lambda>m. ok (set_field_count 0 m))) f)"
    using assms(2) by (auto simp: try_then_assoc intro!: atomic_but_rules(2) atomic_rules(2) phases)
qed

lemma delete_atomic: "atomic view (try_then (logical_delete E k) (\<lambda>_. ok r))"
  unfolding logical_delete_def try_then_assoc
  by (rule atomic_rules(3) [OF write_atomic]) (simp add: try_then_def ok_def)

lemma updates_all_or_nothing:
  assumes k: "valid_key k"
  shows "all_or_nothing view k (store_del E k)" "all_or_nothing view k (expire_at E k t)"
    "all_or_nothing view k (hset E k ps)" "all_or_nothing view k (sadd E k ms)"
    "all_or_nothing view k (zadd E k qs)" "all_or_nothing view k (store_push E k ms left)"
proof -
  show "all_or_nothing view k (store_del E k)"
    unfolding store_del_def
    by (rule live_all_or_nothing [OF k]) (simp_all add: delete_atomic atomic_but_rules(1) atomic_rules(1) quiet_rules)
  show "all_or_nothing view k (expire_at E k t)"
    unfolding expire_at_def put_meta_def
    by (rule live_all_or_nothing [OF k]) (simp_all add: commit_atomic atomic_but_rules(1) atomic_rules(1) quiet_rules)
  show "all_or_nothing view k (hset E k ps)"
    unfolding hset_def
    by (intro counted_all_or_nothing [OF k] atomic_rules(2) loops_quiet) (auto intro!: commit_atomic split: prod.splits)
  show "all_or_nothing view k (sadd E k ms)"
    unfolding sadd_def
    by (intro counted_all_or_nothing [OF k] atomic_rules(2) loops_quiet)
      (auto intro!: commit_atomic atomic_rules(1) phases split: prod.splits)
  show "all_or_nothing view k (zadd E k qs)"
    unfolding zadd_def
    by (intro counted_all_or_nothing [OF k] atomic_rules(2) loops_quiet)
      (auto intro!: commit_atomic atomic_rules(1) phases split: prod.splits)
  show "all_or_nothing view k (store_push E k ms left)"
    unfolding store_push_def try_then_assoc
    by (rule typed_all_or_nothing [OF k])
      (auto simp: try_then_assoc intro!: atomic_rules(2) atomic_but_rules(2) commit_atomic phases split: prod.splits option.splits)
qed

text \<open>What is left alone survives the next compaction, which may only find one key tracked too many.\<close>

lemma left_alone_compacts:
  assumes "store_ok view s" "left_alone view k s s'" "valid_key k" "store_compact E s' = (Inr (), s2)"
  shows "db_of view s2 = db_of view s'"
proof -
  have c: "compacts (\<lambda>r x. \<not> gc_on (engine s') \<or> gc_should_keep (versions s') r x) range_default
      (view (engine s')) (view (engine s2))"
    using assms(4) compact_sound [of "gc_should_keep (versions s')" "engine s'" "Some range_default" "engine s2"]
    by (auto simp: store_compact_def range_or_all_def split: prod.splits)
  let ?vm = "if versions s' = versions s \<and> view (engine s') = view (engine s) then versions s else vm_remove k (versions s)"
  have wf: "store_wf (view (engine s)) (versions s) (version_clock s)" using assms(1) by (simp add: store_ok_def)
  have "store_wf (view (engine s')) ?vm (version_clock s)"
  proof (cases "versions s' = versions s \<and> view (engine s') = view (engine s)")
    case False
    then have v: "view (engine s') = apply_ops [Delete (meta_key k)] (view (engine s))" using assms(2) by (auto simp: left_alone_def)
    have "key_wf (view (engine s')) (vm_remove k (versions s)) k'" if "valid_key k'" for k'
    proof (cases "k' = k")
      case True
      then show ?thesis unfolding v by (simp add: key_wf_def vm_simps)
    next
      case other: False
      have "same_except k (view (engine s)) (view (engine s'))" unfolding v by (simp add: same_except_def)
      from frame_key_wf [OF this that other] show ?thesis using wf that other by (simp add: store_wf_def vm_simps)
    qed
    moreover have "versions_bounded (view (engine s')) (version_clock s)" "keys_valid (view (engine s'))"
      using wf unfolding v store_wf_def by (auto simp: versions_bounded_def keys_valid_def)
    ultimately show ?thesis unfolding if_not_P [OF False] store_wf_def by simp
  qed (use wf in simp)
  moreover have "vm_get k' (versions s') = Some v" if "vm_get k' ?vm = Some v" for k' v
    using assms(2) that by (auto simp: left_alone_def same_tracking_def vm_simps split: if_splits)
  ultimately have "abs_kv (view (engine s2)) = abs_kv (view (engine s'))" by (rule compacts_keeps_db [OF c])
  then show ?thesis by (simp add: db_of_def)
qed

lemma lossless_if:
  "store_ok view s \<Longrightarrow> valid_key k \<Longrightarrow> all_or_nothing view k f \<Longrightarrow> lossless E view k f s"
  using left_alone_compacts unfolding lossless_def all_or_nothing_def by blast

end

subsection \<open>Properties\<close>

text \<open>C17: Over any engine that keeps its contract, a \<open>DEL\<close>, expiry update, \<open>HSET\<close>, \<open>SADD\<close>, \<open>ZADD\<close> or push that
  answers with an error (a read or the write failed, corrupt data, a key of another type) leaves all
  records and the version map as they were if its key holds a live value; if it holds none, the only things that may have
  changed are the expired metadata, now gone, and the tracked version of that key.  In both cases the next
  compaction changes nothing in the database.  A failed \<open>SET\<close> changes no record but stops tracking its key, and has
  no such guarantee (\<open>failed_set_loses_hash\<close>).\<close>

theorem failed_updates_lossless:
  assumes "general_engine E view gc_on" "store_ok view s" "valid_key k"
  shows "lossless E view k (store_del E k) s \<and> lossless E view k (expire_at E k t) s
    \<and> lossless E view k (hset E k ps) s \<and> lossless E view k (sadd E k ms) s
    \<and> lossless E view k (zadd E k qs) s \<and> lossless E view k (store_push E k ms left) s
    \<and> (\<forall>e s'. store_set E k x t s = (Inl e, s') \<longrightarrow>
        view (engine s') = view (engine s) \<and> versions s' = vm_remove k (versions s))"
  using general_engine.updates_all_or_nothing [OF assms(1,3)] general_engine.store_set_failed [OF assms(1)]
  by (auto intro: general_engine.lossless_if [OF assms])

theorem failed_updates_lossless_witness:
  "\<exists>s'. hset full_disk [107] [([97], [1])] empty_store = (Inl (Backend ''disk full''), s')
    \<and> left_alone mem_view [107] empty_store s'
    \<and> (\<forall>s2. store_compact full_disk s' = (Inr (), s2) \<longrightarrow> db_of mem_view s2 = db_of mem_view s')"
proof -
  obtain s1 where "hset full_disk [107] [([97], [1])] empty_store = (Inl (Backend ''disk full''), s1)"
    by (simp add: hset_def load_or_new_counted_def load_typed_def load_live_meta_def load_meta_def engine_get_def try_then_def
        ok_def infallible_def new_composite_meta_def next_version_eq engine_write_def full_disk_def empty_store_def rocks_def
        rocks_get_def mem_db_def Let_def)
  then show ?thesis
    using failed_updates_lossless [OF full_disk_engine empty_store_ok valid_short] by (simp add: lossless_def)
qed

end
