(* ===== verification/Store_Races.thy ===== *)
theory Store_Races
  imports Store_Findings
begin

text \<open>
  Operations of \<open>store.rs\<close> under interference.  A store is shared by all connections without a lock, and
  only a write batch is atomic: \<open>hset\<close> reads metadata and fields, then writes one batch, and other
  threads may run in between; a removal that empties a key writes twice.  \<open>race_step\<close> lets threads
  that run \<open>hset\<close> on one key interleave at that point.
\<close>

subsection \<open>The two phases of HSET\<close>

type_synonym hset_pending = "meta \<times> u32 \<times> int \<times> write_batch"

definition hset_read :: "'e engine_ops \<Rightarrow> bytes \<Rightarrow> (bytes \<times> bytes) list \<Rightarrow> ('e, hset_pending) sop" where
  "hset_read E key pairs =
     try_then (load_or_new_counted E key TYPE_HASH) (\<lambda>m.
     try_then (hset_loop E key (version m) pairs (field_count m) 0 batch_new) (\<lambda>(fc, created, batch).
       ok (m, fc, created, batch)))"

definition hset_write :: "'e engine_ops \<Rightarrow> bytes \<Rightarrow> hset_pending \<Rightarrow> ('e, int) sop" where
  "hset_write E key p =
     (case p of (m, fc, created, batch) \<Rightarrow>
        try_then (engine_write E (batch_put (meta_key key) (meta_encode (set_field_count fc m)) batch))
          (\<lambda>_. ok created))"

lemma hset_phases: "hset E key pairs = try_then (hset_read E key pairs) (hset_write E key)"
  by (auto simp: hset_def hset_read_def hset_write_def try_then_def ok_def fun_eq_iff split: prod.splits sum.splits)

subsection \<open>Threads\<close>

datatype hset_thread = Calling "(bytes \<times> bytes) list" | Holding hset_pending | Replied "engine_error + int"

inductive race_step ::
  "'e engine_ops \<Rightarrow> bytes \<Rightarrow> 'e store \<times> (nat \<Rightarrow> hset_thread) \<Rightarrow> 'e store \<times> (nat \<Rightarrow> hset_thread) \<Rightarrow> bool"
  for E k where
  read: "th i = Calling ps \<Longrightarrow> hset_read E k ps s = (Inr p, s') \<Longrightarrow>
    race_step E k (s, th) (s', th(i := Holding p))"
| read_failed: "th i = Calling ps \<Longrightarrow> hset_read E k ps s = (Inl e, s') \<Longrightarrow>
    race_step E k (s, th) (s', th(i := Replied (Inl e)))"
| commit_batch: "th i = Holding p \<Longrightarrow> hset_write E k p s = (r, s') \<Longrightarrow>
    race_step E k (s, th) (s', th(i := Replied r))"

text \<open>A thread that is not interrupted does what \<open>hset\<close> does.\<close>

lemma uninterrupted:
  assumes "th i = Calling ps" "hset E k ps s = (r, s')"
  shows "(race_step E k)\<^sup>*\<^sup>* (s, th) (s', th(i := Replied r))"
proof (cases "hset_read E k ps s")
  case (Pair q s1)
  show ?thesis
  proof (cases q)
    case (Inl e)
    then have "r = Inl e" "s' = s1" using assms(2) Pair by (simp_all add: hset_phases try_then_def)
    then show ?thesis using race_step.read_failed [of th i ps E k s e s1, OF assms(1)] Pair Inl by auto
  next
    case (Inr p)
    then have w: "hset_write E k p s1 = (r, s')" using assms(2) Pair by (simp add: hset_phases try_then_def)
    have "race_step E k (s, th) (s1, th(i := Holding p))"
      using race_step.read [of th i ps E k s p s1, OF assms(1)] Pair Inr by simp
    moreover have "race_step E k (s1, th(i := Holding p)) (s', th(i := Replied r))"
      using race_step.commit_batch [of "th(i := Holding p)" i p E k s1 r s'] w by simp
    ultimately show ?thesis by (meson converse_rtranclp_into_rtranclp r_into_rtranclp)
  qed
qed

context reliable_engine
begin

text \<open>The reading phase on a missing key: a fresh version is drawn and nothing is written.\<close>

lemma hset_read_missing:
  assumes "view (engine s) (meta_key k) = None" "versions_bounded (view (engine s)) (version_clock s)"
    "valid_key k" "version_clock s \<noteq> - 1"
  obtains v s' where "hset_read E k [(f, x)] s
      = (Inr (\<lparr>type_id = TYPE_HASH, version = v, expire_ms = 0, payload = be32 0\<rparr>, 1, 1,
          batch_put (subkey k v f) x batch_new), s')"
    "version_clock s < v" "engine s' = engine s" "version_clock s' = v" "v = fst (next_version s)"
proof -
  let ?v = "version_candidate (version_clock s) (of_nat (time s 0))"
  have gt: "version_clock s < ?v" by (rule version_candidate_gt [OF assms(4)])
  have "fields_at (view (engine s)) k ?v = Map.empty" using fresh_version_empty(1) [OF assms(2,3) gt] .
  then have none: "view (engine s) (subkey k ?v f) = None" by (simp add: fields_at_def fun_eq_iff)
  have "load_typed E k TYPE_HASH s = (Inr None, s)"
    using assms(1) by (simp add: load_typed_def load_live_meta_def load_meta_def try_then_def)
  then have "hset_read E k [(f, x)] s
      = (Inr (\<lparr>type_id = TYPE_HASH, version = ?v, expire_ms = 0, payload = be32 0\<rparr>, 1, 1,
          batch_put (subkey k ?v f) x batch_new), snd (new_composite_meta k TYPE_HASH s))"
    using none
    by (simp add: hset_read_def load_or_new_counted_def try_then_def infallible_def new_composite_meta_def
        next_version_eq set_field_count_def field_count_def Let_def)
  then show thesis
    by (rule that) (use gt in \<open>simp_all add: new_composite_meta_def next_version_eq\<close>)
qed

lemma hset_write_view:
  "\<exists>s'. hset_write E k (m, fc, c, batch_put sk x batch_new) s = (Inr c, s')
     \<and> view (engine s') = (view (engine s))(sk \<mapsto> x, meta_key k \<mapsto> meta_encode (set_field_count fc m))
     \<and> versions s' = versions s \<and> version_clock s' = version_clock s"
  by (simp add: hset_write_def try_then_def)

lemma two_hsets_race:
  assumes ok: "store_ok view s" "valid_key k" "view (engine s) (meta_key k) = None"
    and clock: "version_clock s \<noteq> - 1" "version_clock (snd (next_version s)) \<noteq> - 1"
  shows "\<exists>p s1 q s2 s3 s4. hset_read E k [(f, x)] s = (Inr p, s1) \<and> hset_read E k [(g, y)] s1 = (Inr q, s2)
    \<and> hset_write E k p s2 = (Inr 1, s3) \<and> hset_write E k q s3 = (Inr 1, s4)
    \<and> db_of view s4 k = Some (RHash [g \<mapsto> y], 0)"
proof -
  let ?mt = "\<lambda>v. \<lparr>type_id = TYPE_HASH, version = v, expire_ms = 0, payload = be32 0\<rparr>"
  have b: "versions_bounded (view (engine s)) (version_clock s)" using ok(1) by (simp add: store_ok_def store_wf_def)
  obtain v s1 where r1: "hset_read E k [(f, x)] s = (Inr (?mt v, 1, 1, batch_put (subkey k v f) x batch_new), s1)"
    "version_clock s < v" "engine s1 = engine s" "version_clock s1 = v" "v = fst (next_version s)"
    by (rule hset_read_missing [OF ok(3) b ok(2) clock(1), of f x])
  have v: "v \<noteq> - 1" using r1(5) clock(2) by (simp add: next_version_eq)
  have b1: "versions_bounded (view (engine s1)) (version_clock s1)"
    using versions_bounded_mono [OF b] r1(2-4) by (simp add: less_imp_le)
  obtain w s2 where r2: "hset_read E k [(g, y)] s1 = (Inr (?mt w, 1, 1, batch_put (subkey k w g) y batch_new), s2)"
    "v < w" "engine s2 = engine s"
    by (rule hset_read_missing [of s1 k g y]) (use ok r1 b1 v in simp_all)
  obtain s3 where w1: "hset_write E k (?mt v, 1, 1, batch_put (subkey k v f) x batch_new) s2 = (Inr 1, s3)"
    "view (engine s3) = (view (engine s))(subkey k v f \<mapsto> x, meta_key k \<mapsto> meta_encode (set_field_count 1 (?mt v)))"
    using hset_write_view [of k "?mt v" 1 1 "subkey k v f" x s2] r2(3) by auto
  obtain s4 where w2: "hset_write E k (?mt w, 1, 1, batch_put (subkey k w g) y batch_new) s3 = (Inr 1, s4)"
    "view (engine s4) = (view (engine s3))(subkey k w g \<mapsto> y, meta_key k \<mapsto> meta_encode (set_field_count 1 (?mt w)))"
    using hset_write_view [of k "?mt w" 1 1 "subkey k w g" y s3] by auto
  have "fields_at (view (engine s)) k w = Map.empty"
    using fresh_version_empty(1) [OF b ok(2)] r1(2) r2(2) by simp
  then have "fields_at (view (engine s4)) k w = [g \<mapsto> y]"
    using r2(2) ok(2) unfolding w2(2) w1(2) by (auto simp: fields_at_def fun_eq_iff subkey_inject)
  then have "db_of view s4 k = Some (RHash [g \<mapsto> y], 0)"
    using ok(2) by (simp add: db_of_def abs_kv_def meta_at_def w2(2) value_at_def)
  then show ?thesis using r1(1) r2(1) w1(1) w2(1) by blast
qed

end

subsection \<open>A removal that stops half way\<close>

text \<open>The engine \<open>E\<close>, except that deleting the metadata of \<open>k\<close> fails.\<close>

definition no_meta_delete :: "'e engine_ops \<Rightarrow> bytes \<Rightarrow> engine_error \<Rightarrow> 'e engine_ops" where
  "no_meta_delete E k x =
     E\<lparr>eng_write := (\<lambda>e b. if ops b = [Delete (meta_key k)] then (Inl x, e) else eng_write E e b)\<rparr>"

lemma no_meta_delete_get [simp]: "engine_get (no_meta_delete E k x) = engine_get E"
  by (simp add: engine_get_def no_meta_delete_def fun_eq_iff)

lemma no_meta_delete_loop: "hdel_loop (no_meta_delete E k x) = hdel_loop E"
proof (intro ext)
  fix key ver fs fc rm b s
  show "hdel_loop (no_meta_delete E k x) key ver fs fc rm b s = hdel_loop E key ver fs fc rm b s"
    by (induction fs arbitrary: fc rm b s) (simp_all add: Let_def try_then_def split: prod.splits sum.splits)
qed

lemma no_meta_delete_write:
  "ops b \<noteq> [Delete (meta_key k)] \<Longrightarrow> engine_write (no_meta_delete E k x) b = engine_write E b"
  "ops b = [Delete (meta_key k)] \<Longrightarrow> engine_write (no_meta_delete E k x) b s = (Inl x, s)"
  by (simp_all add: engine_write_def no_meta_delete_def fun_eq_iff)

lemma hash_record:
  assumes "store_ok view s" "valid_key k" "db_of view s k = Some (RHash h, ex)"
  obtains mt where "view (engine s) (meta_key k) = Some (meta_encode mt)" "type_id mt = TYPE_HASH" "expire_ms mt = ex"
    "fields_at (view (engine s)) k (version mt) = h" "h \<noteq> Map.empty" "field_count mt = of_nat (card (dom h))"
    "card (dom h) < 2 ^ 32"
proof -
  obtain mt where mt: "view (engine s) (meta_key k) = Some (meta_encode mt)"
      "meta_wf (view (engine s)) (versions s) k mt"
    using store_ok_key [OF assms(1,2)] assms(3) by (auto simp: db_of_def abs_kv_simps)
  then have val: "value_at (view (engine s)) k mt = RHash h" "expire_ms mt = ex"
    using assms(2,3) by (simp_all add: db_of_def abs_kv_simps)
  then have ty: "type_id mt = TYPE_HASH" by (auto simp: value_at_def split: if_splits option.splits prod.splits)
  then have h: "fields_at (view (engine s)) k (version mt) = h" using val by (simp add: value_at_def)
  have "counted_type (type_id mt)" using ty by (simp add: counted_type_def)
  from meta_wf_counted [of view s k mt, OF mt(2) this] show thesis
    by (intro that [OF mt(1) ty val(2) h]) (use mt(2) ty h in \<open>auto simp: meta_wf_def counted_def contents_at_def\<close>)
qed

context reliable_engine
begin

lemma hdel_half_run:
  assumes "store_ok view s" "valid_key k" "db_of view s k = Some (RHash h, 0)" "distinct fs" "set fs = dom h"
  shows "\<exists>s'. hdel (no_meta_delete E k x) k fs s = (Inl x, s') \<and> db_of view s' k = Some (RHash Map.empty, 0)
    \<and> fst (hlen E k s') = Inr (int (card (dom h)))"
proof -
  obtain mt where mt: "view (engine s) (meta_key k) = Some (meta_encode mt)" "type_id mt = TYPE_HASH" "expire_ms mt = 0"
    "fields_at (view (engine s)) k (version mt) = h" "h \<noteq> Map.empty" "field_count mt = of_nat (card (dom h))"
    "card (dom h) < 2 ^ 32"
    by (rule hash_record [OF assms(1-3)])
  have gone: "filter (\<lambda>f. h f \<noteq> None) fs = fs" using assms(5) by (auto simp: filter_id_conv)
  have n: "length fs = card (dom h)" using assms(4,5) by (metis distinct_card)
  have ne: "fs \<noteq> []" using assms(5) mt(5) by (metis dom_eq_empty_conv empty_set)
  let ?b = "\<lparr>ops = delete_ops k (version mt) fs\<rparr>"
  have b: "ops ?b \<noteq> [Delete (meta_key k)]" by (auto simp: delete_ops_def)
  let ?s = "s\<lparr>engine := snd (eng_write E (engine s) ?b)\<rparr>"
  have lt: "load_typed (no_meta_delete E k x) k TYPE_HASH s = (Inr (Some mt), s)"
    using mt by (simp add: load_typed_def load_live_meta_def load_meta_def try_then_def)
  have "hdel_loop E k (version mt) fs (field_count mt) 0 batch_new s = (Inr (0, int (length fs), ?b), s)"
    unfolding hdel_loop_eq Let_def mt(4) gone using mt(6,7) n by (simp add: sat_dec_of_nat batch_new_def)
  then have run: "hdel (no_meta_delete E k x) k fs s = (Inl x, ?s)"
    using ne b
    by (simp add: hdel_def try_then_def lt no_meta_delete_loop finish_removal_def no_meta_delete_write
        logical_delete_def)
  have v: "view (engine ?s) = apply_ops (delete_ops k (version mt) fs) (view (engine s))" by simp
  have m': "view (engine ?s) (meta_key k) = Some (meta_encode mt)"
    unfolding v using mt(1) by (subst apply_ops_other) (auto simp: delete_ops_def)
  have "fields_at (view (engine ?s)) k (version mt) = Map.empty"
    unfolding v fields_delete_ops mt(4) using assms(5) by (auto simp: restrict_map_def fun_eq_iff dom_def)
  then have "db_of view ?s k = Some (RHash Map.empty, 0)"
    using m' mt(2,3) assms(2) by (simp add: db_of_def abs_kv_simps value_at_def)
  moreover have "fst (hlen E k ?s) = Inr (int (card (dom h)))"
    using load_typed_unexpired [OF m' mt(3,2)] mt(6) unat_of_nat_u32 [OF mt(7)]
    by (simp add: hlen_def load_count_def try_then_def) (metis of_nat_unat)
  ultimately show ?thesis using run by blast
qed

end

subsection \<open>Properties\<close>

text \<open>C20: Concurrent \<open>HSET\<close>s lose an acknowledged write.  Two clients set different fields of a key that does
  not exist; each is told that it created one field, but each built the hash under a version of its
  own, and of the two only the field of the last writer is in the database.\<close>

theorem concurrent_hset_loses_write:
  assumes "reliable_engine E view gc_on" "store_ok view s" "valid_key k" "db_of view s k = None"
    and "version_clock s \<noteq> - 1" "version_clock (snd (next_version s)) \<noteq> - 1"
    and "th i = Calling [(f, x)]" "th j = Calling [(g, y)]" "i \<noteq> j"
  shows "\<exists>s'. (race_step E k)\<^sup>*\<^sup>* (s, th) (s', th(i := Replied (Inr 1), j := Replied (Inr 1)))
    \<and> db_of view s' k = Some (RHash [g \<mapsto> y], 0)"
proof -
  have "view (engine s) (meta_key k) = None"
    using store_ok_key [OF assms(2,3)] assms(3,4) by (auto simp: db_of_def abs_kv_simps)
  then obtain p s1 q s2 s3 s4 where r: "hset_read E k [(f, x)] s = (Inr p, s1)" "hset_read E k [(g, y)] s1 = (Inr q, s2)"
    "hset_write E k p s2 = (Inr 1, s3)" "hset_write E k q s3 = (Inr 1, s4)" "db_of view s4 k = Some (RHash [g \<mapsto> y], 0)"
    using reliable_engine.two_hsets_race [OF assms(1-3) _ assms(5,6)] by blast
  have "race_step E k (s, th) (s1, th(i := Holding p))" using race_step.read [of th i] assms(7) r(1) by metis
  moreover have "race_step E k (s1, th(i := Holding p)) (s2, th(i := Holding p, j := Holding q))"
    using assms(8,9) r(2) by (intro race_step.read) simp_all
  moreover have "race_step E k (s2, th(i := Holding p, j := Holding q)) (s3, th(i := Replied (Inr 1), j := Holding q))"
    using race_step.commit_batch [of "th(i := Holding p, j := Holding q)" i p E k s2 "Inr 1" s3] assms(9) r(3)
    by (simp add: fun_upd_twist)
  moreover have "race_step E k (s3, th(i := Replied (Inr 1), j := Holding q)) (s4, th(i := Replied (Inr 1), j := Replied (Inr 1)))"
    using race_step.commit_batch [of "th(i := Replied (Inr 1), j := Holding q)" j q E k s3 "Inr 1" s4] r(4) by simp
  ultimately have "(race_step E k)\<^sup>*\<^sup>* (s, th) (s4, th(i := Replied (Inr 1), j := Replied (Inr 1)))"
    by (meson converse_rtranclp_into_rtranclp r_into_rtranclp)
  then show ?thesis using r(5) by blast
qed

theorem concurrent_hset_loses_write_witness:
  "\<exists>s'. (race_step (rocks mem_db) [107])\<^sup>*\<^sup>*
      (empty_store, (\<lambda>_. Calling [])(0 := Calling [([97], [1])], 1 := Calling [([98], [2])]))
      (s', (\<lambda>_. Calling [])(0 := Replied (Inr 1), 1 := Replied (Inr 1)))
    \<and> db_of mem_view s' [107] = Some (RHash [[98] \<mapsto> [2]], 0)"
proof -
  have "version_clock (snd (next_version empty_store)) \<noteq> - 1"
    by (simp add: next_version_eq empty_store_def version_candidate_def max_def)
  then show ?thesis
    using concurrent_hset_loses_write [OF mem_engine empty_store_ok valid_short _ empty_store_clock,
        of "(\<lambda>_. Calling [])(0 := Calling [([97], [1])], 1 := Calling [([98], [2])])" 0 "[97]" "[1]" 1 "[98]" "[2]"]
    by (simp add: empty_store_db fun_upd_twist)
qed

text \<open>C31: Removing the last fields is not atomic.  \<open>HDEL\<close> of all fields deletes them in one batch and the
  metadata in another; when the second write fails, the reply is an error, yet the fields are gone,
  and what is left is a hash without fields that \<open>HLEN\<close> reports at its old size.\<close>

theorem hdel_half_done:
  assumes "reliable_engine E view gc_on" "store_ok view s" "valid_key k" "db_of view s k = Some (RHash h, 0)"
    and "distinct fs" "set fs = dom h"
  shows "\<exists>s'. hdel (no_meta_delete E k x) k fs s = (Inl x, s') \<and> db_of view s' k = Some (RHash Map.empty, 0)
    \<and> fst (hlen E k s') = Inr (int (card (dom h)))"
  by (rule reliable_engine.hdel_half_run [OF assms])

theorem hdel_half_done_witness:
  "\<exists>s'. hdel (no_meta_delete (rocks mem_db) [107] (Backend ''disk full'')) [107] [[97], [98]] demo_hash
      = (Inl (Backend ''disk full''), s')
    \<and> db_of mem_view s' [107] = Some (RHash Map.empty, 0) \<and> fst (hlen (rocks mem_db) [107] s') = Inr 2"
proof -
  have h: "db_of mem_view demo_hash [107] = Some (RHash [[97] \<mapsto> [1], [98] \<mapsto> [2]], 0)" by (simp add: demo_hash_ok)
  have "set [[97], [98]] = dom [[97 :: byte] \<mapsto> [1 :: byte], [98] \<mapsto> [2]]" by auto
  from hdel_half_done [OF on_hash h _ this, of "Backend ''disk full''"] show ?thesis by (simp add: insert_commute)
qed

end
