(* ===== verification/Version_Clock.thy ===== *)
theory Version_Clock
  imports Store
begin

text \<open>
  \<open>next_version\<close> of \<open>store.rs\<close> under concurrency.  Threads share the atomic \<open>VERSION_CLOCK\<close>; each
  call loads it, computes a candidate from the loaded value and a clock reading, and publishes it
  with a compare-exchange, starting over when another thread got there first.  The wall clock is
  arbitrary at every reading.  \<open>handed\<close> records the versions returned so far, the latest first.
\<close>

datatype thread_state = Idle | Loaded u64 | Computed u64 u64

record clock_sys =
  vclock :: u64
  threads :: "nat \<Rightarrow> thread_state"
  handed :: "u64 list"

inductive vstep :: "clock_sys \<Rightarrow> clock_sys \<Rightarrow> bool" where
  load: "threads st i = Idle \<Longrightarrow>
    vstep st (st\<lparr>threads := (threads st)(i := Loaded (vclock st))\<rparr>)"
| compute: "threads st i = Loaded prev \<Longrightarrow>
    vstep st (st\<lparr>threads := (threads st)(i := Computed prev (version_candidate prev now))\<rparr>)"
| cas_ok: "threads st i = Computed prev candidate \<Longrightarrow> vclock st = prev \<Longrightarrow>
    vstep st (st\<lparr>vclock := candidate, threads := (threads st)(i := Idle), handed := candidate # handed st\<rparr>)"
| cas_failed: "threads st i = Computed prev candidate \<Longrightarrow> vclock st \<noteq> prev \<Longrightarrow>
    vstep st (st\<lparr>threads := (threads st)(i := Idle)\<rparr>)"

inductive_cases vstep_cases [consumes 1, case_names load compute cas_ok cas_failed]: "vstep st st'"

definition clock_init :: clock_sys where
  "clock_init = \<lparr>vclock = 0, threads = (\<lambda>_. Idle), handed = []\<rparr>"

text \<open>
  The clock is the version handed out last, candidates come from the value they were computed
  from, and versions increase until the clock has stood at its last value.
\<close>

definition clock_inv :: "clock_sys \<Rightarrow> bool" where
  "clock_inv st \<longleftrightarrow>
     (handed st = [] \<and> vclock st = 0 \<or> handed st \<noteq> [] \<and> hd (handed st) = vclock st)
     \<and> (\<forall>i prev c. threads st i = Computed prev c \<longrightarrow> (\<exists>now. c = version_candidate prev now))
     \<and> (- 1 \<notin> set (tl (handed st)) \<longrightarrow> sorted_wrt (>) (handed st))"

lemma clock_inv_step:
  assumes "vstep st st'" "clock_inv st"
  shows "clock_inv st'"
  using assms(1)
proof (cases rule: vstep_cases)
  case (cas_ok i c)
  obtain now where now: "c = version_candidate (vclock st) now"
    using assms(2) cas_ok(2) unfolding clock_inv_def by blast
  have "sorted_wrt (>) (c # handed st)" if n: "- 1 \<notin> set (handed st)"
  proof (cases "handed st")
    case (Cons v vs)
    have v: "v = vclock st" using assms(2) Cons by (simp add: clock_inv_def)
    have srt: "sorted_wrt (>) (handed st)"
      using assms(2) n Cons by (auto simp: clock_inv_def)
    have "v < c" using n Cons version_candidate_gt [of "vclock st" now] unfolding v now by auto
    then show ?thesis using srt Cons by auto
  qed simp
  then show ?thesis
    using assms(2) unfolding cas_ok(1) clock_inv_def by simp
qed (use assms(2) in \<open>auto simp: clock_inv_def\<close>)

lemma clock_inv_reachable:
  assumes "vstep\<^sup>*\<^sup>* clock_init st"
  shows "clock_inv st"
  using assms
proof (induction rule: rtranclp_induct)
  case base
  then show ?case by (simp add: clock_inv_def clock_init_def)
qed (rule clock_inv_step)

lemma sorted_greater_distinct: "sorted_wrt (>) (xs :: u64 list) \<Longrightarrow> distinct xs"
  by (induction xs) auto

text \<open>A call that is not interrupted succeeds in one turn of the loop.\<close>

lemma next_version_lock_free:
  assumes "threads st i = Idle"
  shows "\<exists>st'. vstep\<^sup>*\<^sup>* st st' \<and> handed st' = version_candidate (vclock st) now # handed st
    \<and> vclock st' = version_candidate (vclock st) now \<and> threads st' = threads st"
proof -
  let ?c = "version_candidate (vclock st) now"
  let ?s1 = "st\<lparr>threads := (threads st)(i := Loaded (vclock st))\<rparr>"
  let ?s2 = "?s1\<lparr>threads := (threads ?s1)(i := Computed (vclock st) ?c)\<rparr>"
  let ?s3 = "?s2\<lparr>vclock := ?c, threads := (threads ?s2)(i := Idle), handed := ?c # handed ?s2\<rparr>"
  have "vstep st ?s1" using assms by (rule vstep.load)
  moreover have "vstep ?s1 ?s2" by (rule vstep.compute) simp
  moreover have "vstep ?s2 ?s3" by (rule vstep.cas_ok) simp_all
  ultimately have "vstep\<^sup>*\<^sup>* st ?s3" by (meson converse_rtranclp_into_rtranclp rtranclp.rtrancl_refl)
  then show ?thesis using assms by (intro exI [of _ ?s3]) (simp add: fun_upd_idem)
qed

text \<open>C24: However threads interleave and whatever the wall clock shows, versions are handed out in
  strictly increasing order, so no two calls of \<open>next_version\<close> return the same one, as long as none
  but the latest is the largest 64-bit value.  And the loop is lock free: a call that is not interrupted
  succeeds in one turn, with the result of the sequential \<open>next_version\<close>.\<close>

theorem version_clock_correct:
  assumes "vstep\<^sup>*\<^sup>* clock_init st" "- 1 \<notin> set (tl (handed st))"
  shows "sorted_wrt (>) (handed st) \<and> distinct (handed st)
    \<and> (threads st i = Idle \<longrightarrow> (\<exists>st'. vstep\<^sup>*\<^sup>* st st' \<and> handed st' = version_candidate (vclock st) now # handed st
        \<and> vclock st' = version_candidate (vclock st) now \<and> threads st' = threads st))"
proof -
  have srt: "sorted_wrt (>) (handed st)"
    using clock_inv_reachable [OF assms(1)] assms(2) by (simp add: clock_inv_def)
  then show ?thesis using sorted_greater_distinct next_version_lock_free by blast
qed

theorem version_clock_correct_witness:
  "\<exists>st. vstep\<^sup>*\<^sup>* clock_init st \<and> handed st = [7] \<and> distinct (handed st)"
proof -
  let ?s1 = "clock_init\<lparr>threads := (threads clock_init)(0 := Loaded (vclock clock_init))\<rparr>"
  let ?s2 = "?s1\<lparr>threads := (threads ?s1)(0 := Computed 0 (version_candidate 0 7))\<rparr>"
  let ?s3 = "?s2\<lparr>vclock := 7, threads := (threads ?s2)(0 := Idle), handed := 7 # handed ?s2\<rparr>"
  have "vstep clock_init ?s1" by (rule vstep.load) (simp add: clock_init_def)
  moreover have "vstep ?s1 ?s2" by (rule vstep.compute) (simp add: clock_init_def)
  moreover have "vstep ?s2 ?s3"
    using vstep.cas_ok [of ?s2 0 0 7] by (simp add: clock_init_def version_candidate_def)
  ultimately have r: "vstep\<^sup>*\<^sup>* clock_init ?s3" by (meson converse_rtranclp_into_rtranclp rtranclp.rtrancl_refl)
  moreover have "handed ?s3 = [7]" by (simp add: clock_init_def)
  ultimately show ?thesis using version_clock_correct [of ?s3] by auto
qed

end
