(* ===== verification/Resp_Text.thy ===== *)
theory Resp_Text
  imports GS_Prelude F64
begin

text \<open>
  The parts of Rust's standard library the RESP codec uses on text: UTF-8 validation
  (\<open>std::str::from_utf8\<close>), decimal formatting of integers (\<open>Display\<close>) and \<open>str::parse::<i64>\<close>.
  A Rust \<open>String\<close> or \<open>&str\<close> is its sequence of UTF-8 bytes.

  Formatting and parsing of doubles (\<open>Display for f64\<close> and \<open>str::parse::<f64>\<close>) are the
  parameter \<open>float_text\<close>; \<open>float_text_ok\<close> states the documented behaviour the codec relies on.
\<close>

definition CR :: byte where "CR = 13"
definition LF :: byte where "LF = 10"
definition CRLF :: bytes where "CRLF = [CR, LF]"

subsection \<open>UTF-8\<close>

definition cont :: "byte \<Rightarrow> bool" where
  "cont b \<longleftrightarrow> 0x80 \<le> b \<and> b \<le> 0xBF"

fun utf8_valid :: "bytes \<Rightarrow> bool" where
  "utf8_valid [] = True"
| "utf8_valid (a # rest) =
     (if a < 0x80 then utf8_valid rest
      else case rest of
        [] \<Rightarrow> False
      | b # rest2 \<Rightarrow>
          if 0xC2 \<le> a \<and> a \<le> 0xDF then cont b \<and> utf8_valid rest2
          else (case rest2 of
             [] \<Rightarrow> False
           | c # rest3 \<Rightarrow>
               if a = 0xE0 then 0xA0 \<le> b \<and> b \<le> 0xBF \<and> cont c \<and> utf8_valid rest3
               else if 0xE1 \<le> a \<and> a \<le> 0xEC \<or> a = 0xEE \<or> a = 0xEF
               then cont b \<and> cont c \<and> utf8_valid rest3
               else if a = 0xED then 0x80 \<le> b \<and> b \<le> 0x9F \<and> cont c \<and> utf8_valid rest3
               else (case rest3 of
                  [] \<Rightarrow> False
                | d # rest4 \<Rightarrow>
                    if a = 0xF0 then 0x90 \<le> b \<and> b \<le> 0xBF \<and> cont c \<and> cont d \<and> utf8_valid rest4
                    else if 0xF1 \<le> a \<and> a \<le> 0xF3 then cont b \<and> cont c \<and> cont d \<and> utf8_valid rest4
                    else if a = 0xF4 then 0x80 \<le> b \<and> b \<le> 0x8F \<and> cont c \<and> cont d \<and> utf8_valid rest4
                    else False)))"

subsection \<open>Integers in decimal\<close>

definition digit :: "byte \<Rightarrow> bool" where
  "digit b \<longleftrightarrow> 48 \<le> b \<and> b \<le> 57"

fun show_nat :: "nat \<Rightarrow> bytes" where
  "show_nat n = (if n < 10 then [of_nat (48 + n)] else show_nat (n div 10) @ [of_nat (48 + n mod 10)])"

declare show_nat.simps [simp del]

definition show_int :: "int \<Rightarrow> bytes" where
  "show_int i = (if i < 0 then 45 # show_nat (nat (- i)) else show_nat (nat i))"

definition digits_value :: "bytes \<Rightarrow> nat" where
  "digits_value ds = foldl (\<lambda>n b. n * 10 + (unat b - 48)) 0 ds"

definition in_i64 :: "int \<Rightarrow> bool" where
  "in_i64 i \<longleftrightarrow> - (2 ^ 63) \<le> i \<and> i < 2 ^ 63"

text \<open>An optional sign, then at least one digit and nothing else, within range.\<close>

definition i64_from_str :: "bytes \<Rightarrow> int option" where
  "i64_from_str s =
     (let neg = (s \<noteq> [] \<and> hd s = 45);
          ds = (if s \<noteq> [] \<and> (hd s = 45 \<or> hd s = 43) then tl s else s);
          i = (if neg then - int (digits_value ds) else int (digits_value ds))
      in if ds \<noteq> [] \<and> (\<forall>b \<in> set ds. digit b) \<and> in_i64 i then Some i else None)"

subsection \<open>Doubles\<close>

record float_text =
  fmt_f64 :: "f64 \<Rightarrow> bytes"
  parse_f64 :: "bytes \<Rightarrow> f64 option"

definition F64_INFINITY :: f64 where "F64_INFINITY = 0x7FF0000000000000"
definition F64_NEG_INFINITY :: f64 where "F64_NEG_INFINITY = 0xFFF0000000000000"
definition F64_NAN :: f64 where "F64_NAN = 0x7FF8000000000000"

definition float_text_ok :: "float_text \<Rightarrow> bool" where
  "float_text_ok T \<longleftrightarrow>
     (\<forall>d. f64_is_finite d \<longrightarrow>
        parse_f64 T (fmt_f64 T d) = Some d
        \<and> fmt_f64 T d \<noteq> [] \<and> (\<forall>b \<in> set (fmt_f64 T d). digit b \<or> b = 45 \<or> b = 46))"

subsection \<open>Lemmas\<close>

lemma utf8_ascii: "(\<forall>b \<in> set s. b < 0x80) \<Longrightarrow> utf8_valid s"
  by (induction s) auto

lemma digits_value_snoc [simp]: "digits_value (ds @ [b]) = digits_value ds * 10 + (unat b - 48)"
  by (simp add: digits_value_def)

lemma unat_digit: "n < 10 \<Longrightarrow> unat (of_nat (48 + n) :: byte) = 48 + n"
  by (simp add: unat_of_nat_byte del: of_nat_add)

lemma digit_of_nat: "n < 10 \<Longrightarrow> digit (of_nat (48 + n))"
  unfolding digit_def word_le_nat_alt unat_digit by simp

lemma show_nat_digits: "\<forall>b \<in> set (show_nat n). digit b"
proof (induction n rule: show_nat.induct)
  case (1 n)
  then show ?case
    using digit_of_nat [of n] digit_of_nat [of "n mod 10"]
    by (subst show_nat.simps) (auto simp del: of_nat_add)
qed

lemma show_nat_not_empty [simp]: "show_nat n \<noteq> []"
  by (subst show_nat.simps) simp

lemma digits_value_show_nat: "digits_value (show_nat n) = n"
proof (induction n rule: show_nat.induct)
  case (1 n)
  show ?case
  proof (cases "n < 10")
    case True
    then show ?thesis using unat_digit [OF True]
      by (subst show_nat.simps) (simp add: digits_value_def del: of_nat_add)
  next
    case False
    have "unat (of_nat (48 + n mod 10) :: byte) = 48 + n mod 10" by (rule unat_digit) simp
    then show ?thesis using 1 False
      by (subst show_nat.simps) (simp del: of_nat_add)
  qed
qed

lemma digit_facts: "digit b \<Longrightarrow> b \<noteq> 45 \<and> b \<noteq> 43 \<and> b \<noteq> CR \<and> b \<noteq> LF \<and> b < 0x80"
  by (auto simp: digit_def CR_def LF_def word_le_nat_alt word_less_nat_alt)

lemma i64_from_str_show_int:
  assumes "in_i64 i"
  shows "i64_from_str (show_int i) = Some i"
proof -
  have d: "\<forall>b \<in> set (show_nat n). digit b" for n by (rule show_nat_digits)
  have "hd (show_nat n) \<noteq> 45 \<and> hd (show_nat n) \<noteq> 43" for n
    using digit_facts d [of n] by (metis list.set_sel(1) show_nat_not_empty)
  then show ?thesis
    using assms d by (auto simp: i64_from_str_def show_int_def digits_value_show_nat Let_def)
qed

lemma show_int_ascii: "b \<in> set (show_int i) \<Longrightarrow> b \<noteq> CR \<and> b \<noteq> LF \<and> b < 0x80"
  using digit_facts show_nat_digits
  by (auto simp: show_int_def CR_def LF_def split: if_splits)

lemma show_int_utf8 [simp]: "utf8_valid (show_int i)"
  using show_int_ascii utf8_ascii by blast

end
