(* ===== verification/Resp_Frame.thy ===== *)
theory Resp_Frame
  imports Resp_Text
begin

text \<open>
  The RESP value model (\<open>crates/gamestore-protocol/src/frame.rs\<close>), its errors (\<open>error.rs\<close>) and the
  encoder (\<open>encode.rs\<close>).  The encoder appends to a buffer; here it returns the bytes appended.
\<close>

datatype resp_version = V2 | V3

definition as_i64 :: "resp_version \<Rightarrow> int" where
  "as_i64 v = (case v of V2 \<Rightarrow> 2 | V3 \<Rightarrow> 3)"

definition from_i64 :: "int \<Rightarrow> resp_version option" where
  "from_i64 v = (if v = 2 then Some V2 else if v = 3 then Some V3 else None)"

datatype frame =
    Simple bytes
  | Error bytes
  | Integer int
  | Bulk bytes
  | Array "frame list"
  | Null
  | Boolean bool
  | Double f64
  | BigNumber bytes
  | BulkError bytes
  | Verbatim "byte \<times> byte \<times> byte" bytes
  | Map "(frame \<times> frame) list"
  | Set "frame list"
  | Push "frame list"

definition frame_ok :: frame where
  "frame_ok = Simple (lit ''OK'')"

fun as_bulk :: "frame \<Rightarrow> bytes option" where
  "as_bulk (Bulk b) = Some b"
| "as_bulk _ = None"

datatype protocol_error = Malformed bytes | LimitExceeded bytes | InlineSyntax bytes

text \<open>\<open>ProtocolError::to_string\<close>.\<close>

fun protocol_error_text :: "protocol_error \<Rightarrow> bytes" where
  "protocol_error_text (Malformed m) = lit ''protocol error: '' @ m"
| "protocol_error_text (LimitExceeded m) = lit ''value exceeds configured limit: '' @ m"
| "protocol_error_text (InlineSyntax m) = lit ''invalid inline command: '' @ m"

subsection \<open>Encoding\<close>

definition put_int :: "int \<Rightarrow> bytes" where
  "put_int n = show_int n"

definition put_double :: "float_text \<Rightarrow> f64 \<Rightarrow> bytes" where
  "put_double T d =
     (if f64_is_nan d then lit ''nan''
      else if f64_is_infinite d then (if f64_lt 0 d then lit ''inf'' else lit ''-inf'')
      else fmt_f64 T d)"

fun encode :: "float_text \<Rightarrow> resp_version \<Rightarrow> frame \<Rightarrow> bytes" where
  "encode T v (Simple s) = lit ''+'' @ s @ CRLF"
| "encode T v (Error s) = lit ''-'' @ s @ CRLF"
| "encode T v (Integer n) = lit '':'' @ put_int n @ CRLF"
| "encode T v (Bulk b) = lit ''$'' @ put_int (int (length b)) @ CRLF @ b @ CRLF"
| "encode T v Null = (case v of V2 \<Rightarrow> lit ''$-1'' @ CRLF | V3 \<Rightarrow> lit ''_'' @ CRLF)"
| "encode T v (Array items) =
     lit ''*'' @ put_int (int (length items)) @ CRLF @ concat (map (encode T v) items)"
| "encode T v (Boolean b) = (if b then lit ''#t'' @ CRLF else lit ''#f'' @ CRLF)"
| "encode T v (Double d) = lit '','' @ put_double T d @ CRLF"
| "encode T v (BigNumber s) = lit ''('' @ s @ CRLF"
| "encode T v (BulkError s) = lit ''!'' @ put_int (int (length s)) @ CRLF @ s @ CRLF"
| "encode T v (Verbatim f data) =
     lit ''='' @ put_int (int (3 + 1 + length data)) @ CRLF
       @ [fst f, fst (snd f), snd (snd f)] @ lit '':'' @ data @ CRLF"
| "encode T v (Map pairs) =
     lit ''%'' @ put_int (int (length pairs)) @ CRLF
       @ concat (map (\<lambda>(k, x). encode T v k @ encode T v x) pairs)"
| "encode T v (Set items) =
     lit ''~'' @ put_int (int (length items)) @ CRLF @ concat (map (encode T v) items)"
| "encode T v (Push items) =
     lit ''>'' @ put_int (int (length items)) @ CRLF @ concat (map (encode T v) items)"

end
