(* ===== verification/Rust_Text.thy ===== *)
theory Rust_Text
  imports Resp_Text
begin

text \<open>
  More of Rust's standard library on text, as the command layer and the server use it: ASCII case,
  \<open>String::from_utf8_lossy\<close>, \<open>char::is_whitespace\<close> and \<open>str::trim\<close>, and checked 64-bit arithmetic.
  Strings are their UTF-8 bytes.
\<close>

subsection \<open>ASCII case\<close>

definition ascii_upper :: "byte \<Rightarrow> byte" where
  "ascii_upper b = (if 97 \<le> b \<and> b \<le> 122 then b - 32 else b)"

definition ascii_lower :: "byte \<Rightarrow> byte" where
  "ascii_lower b = (if 65 \<le> b \<and> b \<le> 90 then b + 32 else b)"

definition to_ascii_uppercase :: "bytes \<Rightarrow> bytes" where
  "to_ascii_uppercase s = map ascii_upper s"

definition to_ascii_lowercase :: "bytes \<Rightarrow> bytes" where
  "to_ascii_lowercase s = map ascii_lower s"

definition eq_ignore_ascii_case :: "bytes \<Rightarrow> bytes \<Rightarrow> bool" where
  "eq_ignore_ascii_case a b \<longleftrightarrow> to_ascii_lowercase a = to_ascii_lowercase b"

subsection \<open>Lossy decoding\<close>

text \<open>
  \<open>lossy_step\<close> takes one character off the front: its length and whether it is well formed.  An
  ill-formed sequence extends over the longest prefix of a character, as the standard library has it.
\<close>

definition second_ok :: "byte \<Rightarrow> byte \<Rightarrow> bool" where
  "second_ok a b \<longleftrightarrow>
     (if a = 0xE0 then 0xA0 \<le> b \<and> b \<le> 0xBF
      else if a = 0xED then 0x80 \<le> b \<and> b \<le> 0x9F
      else if a = 0xF0 then 0x90 \<le> b \<and> b \<le> 0xBF
      else if a = 0xF4 then 0x80 \<le> b \<and> b \<le> 0x8F
      else cont b)"

definition lossy_step :: "byte \<Rightarrow> bytes \<Rightarrow> nat \<times> bool" where
  "lossy_step a rest =
     (let width = (if a < 0x80 then 1 :: nat else if 0xC2 \<le> a \<and> a \<le> 0xDF then 2
                   else if 0xE0 \<le> a \<and> a \<le> 0xEF then 3 else if 0xF0 \<le> a \<and> a \<le> 0xF4 then 4 else 0)
      in if width = 0 then (1, False)
         else if width = 1 then (1, True)
         else if rest = [] \<or> \<not> second_ok a (rest ! 0) then (1, False)
         else if width = 2 then (2, True)
         else if length rest < 2 \<or> \<not> cont (rest ! 1) then (2, False)
         else if width = 3 then (3, True)
         else if length rest < 3 \<or> \<not> cont (rest ! 2) then (3, False)
         else (4, True))"

definition REPLACEMENT :: bytes where
  "REPLACEMENT = [0xEF, 0xBF, 0xBD]"

lemma lossy_step_pos: "lossy_step a rest = (n, good) \<Longrightarrow> 0 < n"
  by (auto simp: lossy_step_def Let_def split: if_splits)

function from_utf8_lossy :: "bytes \<Rightarrow> bytes" where
  "from_utf8_lossy [] = []"
| "from_utf8_lossy (a # rest) =
     (case lossy_step a rest of (n, good) \<Rightarrow>
        (if good then take n (a # rest) else REPLACEMENT) @ from_utf8_lossy (drop n (a # rest)))"
  by pat_completeness auto
termination
  by (relation "measure length") (auto dest!: lossy_step_pos [OF sym])

declare from_utf8_lossy.simps(2) [simp del]

lemma from_utf8_lossy_ascii: "\<forall>b \<in> set s. b < 0x80 \<Longrightarrow> from_utf8_lossy s = s"
  by (induction s) (simp_all add: from_utf8_lossy.simps(2) lossy_step_def)

subsection \<open>White space\<close>

text \<open>The length of the white-space character at the front, 0 when there is none.\<close>

fun ws_len :: "bytes \<Rightarrow> nat" where
  "ws_len [] = 0"
| "ws_len (a # rest) =
     (if 9 \<le> a \<and> a \<le> 13 \<or> a = 32 then 1
      else if a = 0xC2 then (if rest \<noteq> [] \<and> (rest ! 0 = 0x85 \<or> rest ! 0 = 0xA0) then 2 else 0)
      else if length rest < 2 then 0
      else if a = 0xE1 \<and> rest ! 0 = 0x9A \<and> rest ! 1 = 0x80
           \<or> a = 0xE2 \<and> rest ! 0 = 0x80 \<and> (0x80 \<le> rest ! 1 \<and> rest ! 1 \<le> 0x8A
               \<or> rest ! 1 = 0xA8 \<or> rest ! 1 = 0xA9 \<or> rest ! 1 = 0xAF)
           \<or> a = 0xE2 \<and> rest ! 0 = 0x81 \<and> rest ! 1 = 0x9F
           \<or> a = 0xE3 \<and> rest ! 0 = 0x80 \<and> rest ! 1 = 0x80
      then 3 else 0)"

fun any_whitespace :: "bytes \<Rightarrow> bool" where
  "any_whitespace [] \<longleftrightarrow> False"
| "any_whitespace (a # rest) \<longleftrightarrow> ws_len (a # rest) > 0 \<or> any_whitespace rest"

function trim_start :: "bytes \<Rightarrow> bytes" where
  "trim_start s = (if ws_len s = 0 then s else trim_start (drop (ws_len s) s))"
  by pat_completeness auto
termination
proof (relation "measure length", goal_cases)
  case (2 s)
  then show ?case by (cases s) auto
qed simp

declare trim_start.simps [simp del]

definition ws_suffix :: "bytes \<Rightarrow> nat" where
  "ws_suffix s =
     (if length s \<ge> 1 \<and> ws_len (drop (length s - 1) s) = 1 then 1
      else if length s \<ge> 2 \<and> ws_len (drop (length s - 2) s) = 2 then 2
      else if length s \<ge> 3 \<and> ws_len (drop (length s - 3) s) = 3 then 3
      else 0)"

function trim_end :: "bytes \<Rightarrow> bytes" where
  "trim_end s = (if ws_suffix s = 0 then s else trim_end (take (length s - ws_suffix s) s))"
  by pat_completeness auto
termination
  by (relation "measure length") (auto simp: ws_suffix_def split: if_splits)

declare trim_end.simps [simp del]

definition trim :: "bytes \<Rightarrow> bytes" where
  "trim s = trim_end (trim_start s)"

subsection \<open>64-bit arithmetic\<close>

definition wrap_i64 :: "int \<Rightarrow> int" where
  "wrap_i64 i = sint (word_of_int i :: u64)"

definition checked_i64 :: "int \<Rightarrow> int option" where
  "checked_i64 i = (if in_i64 i then Some i else None)"

definition saturate_i64 :: "int \<Rightarrow> int" where
  "saturate_i64 i = (if i < - (2 ^ 63) then - (2 ^ 63) else if i \<ge> 2 ^ 63 then 2 ^ 63 - 1 else i)"

text \<open>Division of signed integers rounds towards zero.\<close>

definition div_trunc :: "int \<Rightarrow> int \<Rightarrow> int" where
  "div_trunc a b = sgn a * sgn b * (\<bar>a\<bar> div \<bar>b\<bar>)"

lemma wrap_i64_id: "in_i64 i \<Longrightarrow> wrap_i64 i = i"
  unfolding wrap_i64_def in_i64_def by (simp add: sint_sbintrunc' signed_take_bit_int_eq_self)

end
