(* ===== verification/Registry.thy ===== *)
theory Registry
  imports Store Resp_Frame Rust_Text
begin

text \<open>
  The command registry (\<open>crates/gamestore-datamodel/src/registry.rs\<close>): handlers are looked up by
  name without regard to case, the number of arguments is checked, and everything that can go wrong
  becomes a reply.  A handler works on the store and the negotiated protocol version; its result is
  \<open>None\<close> where the Rust code would panic (an argument indexed out of range).
\<close>

type_synonym 'e handler = "resp_version \<Rightarrow> bytes list \<Rightarrow> 'e store \<Rightarrow> (frame \<times> 'e store) option"

record 'e command_spec =
  name_lower :: bytes
  arity :: int
  handler :: "'e handler"

type_synonym 'e registry = "bytes \<rightharpoonup> 'e command_spec"

definition registry_new :: "'e registry" where
  "registry_new = Map.empty"

definition register :: "bytes \<Rightarrow> int \<Rightarrow> 'e handler \<Rightarrow> 'e registry \<Rightarrow> 'e registry" where
  "register nm ar h reg = reg(nm \<mapsto> \<lparr>name_lower = to_ascii_lowercase nm, arity = ar, handler = h\<rparr>)"

definition registry_contains :: "bytes \<Rightarrow> 'e registry \<Rightarrow> bool" where
  "registry_contains nm reg \<longleftrightarrow> reg (to_ascii_uppercase (from_utf8_lossy nm)) \<noteq> None"

definition arity_matches :: "int \<Rightarrow> nat \<Rightarrow> bool" where
  "arity_matches ar argc = (if ar > 0 then argc = nat ar else argc \<ge> nat (- ar))"

definition wrong_args :: "bytes \<Rightarrow> frame" where
  "wrong_args nm = Error (lit ''ERR wrong number of arguments for '' @ [39] @ nm @ [39] @ lit '' command'')"

definition registry_dispatch :: "'e registry \<Rightarrow> 'e handler" where
  "registry_dispatch reg v args s =
     (case args of
        [] \<Rightarrow> Some (Error (lit ''ERR empty command''), s)
      | first # _ \<Rightarrow>
          (case reg (to_ascii_uppercase (from_utf8_lossy first)) of
             None \<Rightarrow> Some (Error (lit ''ERR unknown command '' @ [39] @ from_utf8_lossy first @ [39]), s)
           | Some spec \<Rightarrow>
               if \<not> arity_matches (arity spec) (length args) then Some (wrong_args (name_lower spec), s)
               else handler spec v args s))"

subsection \<open>Reply helpers\<close>

definition NOT_AN_INTEGER :: bytes where
  "NOT_AN_INTEGER = lit ''ERR value is not an integer or out of range''"

fun engine_error_text :: "engine_error \<Rightarrow> bytes" where
  "engine_error_text (Backend m) = lit ''engine backend error: '' @ lit m"
| "engine_error_text (Corruption m) = lit ''engine corruption: '' @ lit m"
| "engine_error_text WrongType = lit ''WRONGTYPE Operation against a key holding the wrong kind of value''"

definition engine_error_frame :: "engine_error \<Rightarrow> frame" where
  "engine_error_frame e =
     (if e = WrongType then Error (engine_error_text e) else Error (lit ''ERR '' @ engine_error_text e))"

definition arg_i64 :: "bytes \<Rightarrow> int option" where
  "arg_i64 b = (if utf8_valid b then i64_from_str b else None)"

text \<open>\<open>&args[i]\<close> and \<open>&args[n..]\<close>, which panic out of range.\<close>

definition with_arg :: "bytes list \<Rightarrow> nat \<Rightarrow> (bytes \<Rightarrow> 'r option) \<Rightarrow> 'r option" where
  "with_arg args i f = (if i < length args then f (args ! i) else None)"

definition args_from :: "bytes list \<Rightarrow> nat \<Rightarrow> (bytes list \<Rightarrow> 'r option) \<Rightarrow> 'r option" where
  "args_from args n f = (if n \<le> length args then f (drop n args) else None)"

text \<open>\<open>match ctx.store.op(..) { Ok(x) => reply x, Err(e) => engine_error(e) }\<close>.\<close>

definition store_reply :: "('e, 'a) sop \<Rightarrow> ('a \<Rightarrow> frame) \<Rightarrow> 'e store \<Rightarrow> frame \<times> 'e store" where
  "store_reply f k s =
     (case f s of (Inl e, s') \<Rightarrow> (engine_error_frame e, s') | (Inr x, s') \<Rightarrow> (k x, s'))"

end
