(* ===== verification/Commands.thy ===== *)
theory Commands
  imports Registry
begin

text \<open>
  The command handlers (\<open>crates/gamestore-datamodel/src/commands/*.rs\<close>), one definition each, and
  their registration.  \<open>E\<close> are the operations of the storage engine, \<open>T\<close> the formatting and parsing of
  doubles.
\<close>

subsection \<open>Connectivity\<close>

definition cmd_ping :: "'e handler" where
  "cmd_ping v args s =
     (if length args = 1 then Some (Simple (lit ''PONG''), s)
      else if length args = 2 then with_arg args 1 (\<lambda>m. Some (Bulk m, s))
      else Some (wrong_args (lit ''ping''), s))"

definition cmd_echo :: "'e handler" where
  "cmd_echo v args s = with_arg args 1 (\<lambda>m. Some (Bulk m, s))"

definition register_connectivity :: "'e registry \<Rightarrow> 'e registry" where
  "register_connectivity reg =
     register (lit ''ECHO'') 2 cmd_echo (register (lit ''PING'') (- 1) cmd_ping reg)"

subsection \<open>Strings, keys, expiry\<close>

definition invalid_expire :: "bytes \<Rightarrow> frame" where
  "invalid_expire cmd = Error (lit ''ERR invalid expire time in '' @ [39] @ cmd @ [39] @ lit '' command'')"

definition syntax_error :: frame where
  "syntax_error = Error (lit ''ERR syntax error'')"

text \<open>The option loop of \<open>SET\<close> over the arguments after the value.\<close>

fun set_options :: "bytes list \<Rightarrow> u64 \<Rightarrow> 'e store \<Rightarrow> (frame + u64) \<times> 'e store" where
  "set_options [] exp s = (Inr exp, s)"
| "set_options (opt # rest) exp s =
     (if \<not> eq_ignore_ascii_case opt (lit ''EX'') \<and> \<not> eq_ignore_ascii_case opt (lit ''PX'')
      then (Inl syntax_error, s)
      else if exp \<noteq> 0 then (Inl syntax_error, s)
      else case rest of
        [] \<Rightarrow> (Inl syntax_error, s)
      | raw # rest2 \<Rightarrow>
          (let unit_ms = (if eq_ignore_ascii_case opt (lit ''EX'') then 1000 else 1)
           in case arg_i64 raw of
                None \<Rightarrow> (Inl (Error NOT_AN_INTEGER), s)
              | Some n \<Rightarrow>
                  if n \<le> 0 then (Inl (invalid_expire (lit ''set'')), s)
                  else (case checked_i64 (n * unit_ms) of
                          None \<Rightarrow> (Inl (invalid_expire (lit ''set'')), s)
                        | Some delta \<Rightarrow>
                            (case now_ms s of (now, s') \<Rightarrow>
                               (case checked_i64 (delta + sint now) of
                                  None \<Rightarrow> (Inl (invalid_expire (lit ''set'')), s')
                                | Some deadline \<Rightarrow> set_options rest2 (word_of_int deadline) s')))))"

definition cmd_set :: "'e engine_ops \<Rightarrow> 'e handler" where
  "cmd_set E v args s =
     (case set_options (drop 3 args) 0 s of
        (Inl err, s') \<Rightarrow> Some (err, s')
      | (Inr exp, s') \<Rightarrow>
          with_arg args 1 (\<lambda>key. with_arg args 2 (\<lambda>val.
            Some (store_reply (store_set E key val exp) (\<lambda>_. frame_ok) s'))))"

definition bulk_or_null :: "bytes option \<Rightarrow> frame" where
  "bulk_or_null r = (case r of Some b \<Rightarrow> Bulk b | None \<Rightarrow> Null)"

definition cmd_get :: "'e engine_ops \<Rightarrow> 'e handler" where
  "cmd_get E v args s = with_arg args 1 (\<lambda>key. Some (store_reply (store_get E key) bulk_or_null s))"

text \<open>The loops of \<open>DEL\<close> and \<open>EXISTS\<close>: count the keys for which the operation answers true.\<close>

primrec count_keys :: "(bytes \<Rightarrow> ('e, bool) sop) \<Rightarrow> bytes list \<Rightarrow> int \<Rightarrow> 'e store \<Rightarrow> frame \<times> 'e store" where
  "count_keys f [] n s = (Integer n, s)"
| "count_keys f (key # keys) n s =
     (case f key s of
        (Inl e, s') \<Rightarrow> (engine_error_frame e, s')
      | (Inr True, s') \<Rightarrow> count_keys f keys (n + 1) s'
      | (Inr False, s') \<Rightarrow> count_keys f keys n s')"

definition cmd_del :: "'e engine_ops \<Rightarrow> 'e handler" where
  "cmd_del E v args s = args_from args 1 (\<lambda>keys. Some (count_keys (store_del E) keys 0 s))"

definition cmd_exists :: "'e engine_ops \<Rightarrow> 'e handler" where
  "cmd_exists E v args s = args_from args 1 (\<lambda>keys. Some (count_keys (store_exists E) keys 0 s))"

definition cmd_type :: "'e engine_ops \<Rightarrow> 'e handler" where
  "cmd_type E v args s =
     with_arg args 1 (\<lambda>key. Some (store_reply (type_of E key) (\<lambda>t. Simple (lit t)) s))"

definition bool_frame :: "bool \<Rightarrow> frame" where
  "bool_frame b = Integer (if b then 1 else 0)"

definition expire_generic :: "'e engine_ops \<Rightarrow> int \<Rightarrow> bytes \<Rightarrow> bytes list \<Rightarrow> 'e store \<Rightarrow> (frame \<times> 'e store) option" where
  "expire_generic E unit_ms cmd args s =
     with_arg args 2 (\<lambda>raw.
       case arg_i64 raw of
         None \<Rightarrow> Some (Error NOT_AN_INTEGER, s)
       | Some n \<Rightarrow>
           (case checked_i64 (n * unit_ms) of
              None \<Rightarrow> Some (invalid_expire cmd, s)
            | Some delta \<Rightarrow>
                (case now_ms s of (now, s') \<Rightarrow>
                   (let deadline = max (saturate_i64 (sint now + delta)) 1
                    in with_arg args 1 (\<lambda>key.
                         Some (store_reply (expire_at E key (word_of_int deadline))
                           bool_frame s'))))))"

definition cmd_expire :: "'e engine_ops \<Rightarrow> 'e handler" where
  "cmd_expire E v args s = expire_generic E 1000 (lit ''expire'') args s"

definition cmd_pexpire :: "'e engine_ops \<Rightarrow> 'e handler" where
  "cmd_pexpire E v args s = expire_generic E 1 (lit ''pexpire'') args s"

definition ttl_seconds :: "int \<Rightarrow> int" where
  "ttl_seconds ms = (if ms < 0 then ms else div_trunc (wrap_i64 (ms + 999)) 1000)"

definition cmd_ttl :: "'e engine_ops \<Rightarrow> 'e handler" where
  "cmd_ttl E v args s =
     with_arg args 1 (\<lambda>key. Some (store_reply (pttl E key) (\<lambda>ms. Integer (ttl_seconds ms)) s))"

definition cmd_pttl :: "'e engine_ops \<Rightarrow> 'e handler" where
  "cmd_pttl E v args s = with_arg args 1 (\<lambda>key. Some (store_reply (pttl E key) Integer s))"

definition register_string :: "'e engine_ops \<Rightarrow> 'e registry \<Rightarrow> 'e registry" where
  "register_string E reg =
     fold (\<lambda>(nm, ar, h). register nm ar h)
       [(lit ''SET'', - 3, cmd_set E), (lit ''GET'', 2, cmd_get E), (lit ''DEL'', - 2, cmd_del E),
        (lit ''EXISTS'', - 2, cmd_exists E), (lit ''TYPE'', 2, cmd_type E),
        (lit ''EXPIRE'', 3, cmd_expire E), (lit ''PEXPIRE'', 3, cmd_pexpire E),
        (lit ''TTL'', 2, cmd_ttl E), (lit ''PTTL'', 2, cmd_pttl E)] reg"

subsection \<open>Hashes\<close>

text \<open>\<open>chunks_exact(2)\<close>.\<close>

fun pairs_of :: "bytes list \<Rightarrow> (bytes \<times> bytes) list" where
  "pairs_of (a # b # rest) = (a, b) # pairs_of rest"
| "pairs_of _ = []"

definition cmd_hset :: "'e engine_ops \<Rightarrow> 'e handler" where
  "cmd_hset E v args s =
     with_arg args 0 (\<lambda>nm.
       let is_hmset = eq_ignore_ascii_case nm (lit ''HMSET'')
       in if length args < 2 then None
          else if (length args - 2) mod 2 \<noteq> 0
          then Some (wrong_args (if is_hmset then lit ''hmset'' else lit ''hset''), s)
          else args_from args 2 (\<lambda>rest. with_arg args 1 (\<lambda>key.
            Some (store_reply (hset E key (pairs_of rest))
              (\<lambda>created. if is_hmset then frame_ok else Integer created) s))))"

definition cmd_hget :: "'e engine_ops \<Rightarrow> 'e handler" where
  "cmd_hget E v args s =
     with_arg args 1 (\<lambda>key. with_arg args 2 (\<lambda>field. Some (store_reply (hget E key field) bulk_or_null s)))"

primrec hmget_loop :: "'e engine_ops \<Rightarrow> bytes \<Rightarrow> bytes list \<Rightarrow> frame list \<Rightarrow> 'e store \<Rightarrow> frame \<times> 'e store" where
  "hmget_loop E key [] items s = (Array items, s)"
| "hmget_loop E key (field # fs) items s =
     (case hget E key field s of
        (Inl e, s') \<Rightarrow> (engine_error_frame e, s')
      | (Inr r, s') \<Rightarrow> hmget_loop E key fs (items @ [bulk_or_null r]) s')"

definition cmd_hmget :: "'e engine_ops \<Rightarrow> 'e handler" where
  "cmd_hmget E v args s =
     args_from args 2 (\<lambda>fs. with_arg args 1 (\<lambda>key. Some (hmget_loop E key fs [] s)))"

definition hgetall_frame :: "resp_version \<Rightarrow> (bytes \<times> bytes) list \<Rightarrow> frame" where
  "hgetall_frame v pairs =
     (case v of
        V3 \<Rightarrow> Map (map (\<lambda>(f, x). (Bulk f, Bulk x)) pairs)
      | V2 \<Rightarrow> Array (concat (map (\<lambda>(f, x). [Bulk f, Bulk x]) pairs)))"

definition cmd_hgetall :: "'e engine_ops \<Rightarrow> 'e handler" where
  "cmd_hgetall E v args s = with_arg args 1 (\<lambda>key. Some (store_reply (hgetall E key) (hgetall_frame v) s))"

definition cmd_hdel :: "'e engine_ops \<Rightarrow> 'e handler" where
  "cmd_hdel E v args s =
     args_from args 2 (\<lambda>fs. with_arg args 1 (\<lambda>key. Some (store_reply (hdel E key fs) Integer s)))"

definition cmd_hlen :: "'e engine_ops \<Rightarrow> 'e handler" where
  "cmd_hlen E v args s = with_arg args 1 (\<lambda>key. Some (store_reply (hlen E key) Integer s))"

definition cmd_hexists :: "'e engine_ops \<Rightarrow> 'e handler" where
  "cmd_hexists E v args s =
     with_arg args 1 (\<lambda>key. with_arg args 2 (\<lambda>field. Some (store_reply (hexists E key field) bool_frame s)))"

definition register_hash :: "'e engine_ops \<Rightarrow> 'e registry \<Rightarrow> 'e registry" where
  "register_hash E reg =
     fold (\<lambda>(nm, ar, h). register nm ar h)
       [(lit ''HSET'', - 4, cmd_hset E), (lit ''HMSET'', - 4, cmd_hset E), (lit ''HGET'', 3, cmd_hget E),
        (lit ''HMGET'', - 3, cmd_hmget E), (lit ''HGETALL'', 2, cmd_hgetall E), (lit ''HDEL'', - 3, cmd_hdel E),
        (lit ''HLEN'', 2, cmd_hlen E), (lit ''HEXISTS'', 3, cmd_hexists E)] reg"

subsection \<open>Sets\<close>

definition cmd_sadd :: "'e engine_ops \<Rightarrow> 'e handler" where
  "cmd_sadd E v args s =
     args_from args 2 (\<lambda>ms. with_arg args 1 (\<lambda>key. Some (store_reply (sadd E key ms) Integer s)))"

definition cmd_srem :: "'e engine_ops \<Rightarrow> 'e handler" where
  "cmd_srem E v args s =
     args_from args 2 (\<lambda>ms. with_arg args 1 (\<lambda>key. Some (store_reply (srem E key ms) Integer s)))"

definition cmd_sismember :: "'e engine_ops \<Rightarrow> 'e handler" where
  "cmd_sismember E v args s =
     with_arg args 1 (\<lambda>key. with_arg args 2 (\<lambda>m. Some (store_reply (sismember E key m) bool_frame s)))"

definition smembers_frame :: "resp_version \<Rightarrow> bytes list \<Rightarrow> frame" where
  "smembers_frame v members = (case v of V3 \<Rightarrow> Set (map Bulk members) | V2 \<Rightarrow> Array (map Bulk members))"

definition cmd_smembers :: "'e engine_ops \<Rightarrow> 'e handler" where
  "cmd_smembers E v args s = with_arg args 1 (\<lambda>key. Some (store_reply (smembers E key) (smembers_frame v) s))"

definition cmd_scard :: "'e engine_ops \<Rightarrow> 'e handler" where
  "cmd_scard E v args s = with_arg args 1 (\<lambda>key. Some (store_reply (scard E key) Integer s))"

definition register_set :: "'e engine_ops \<Rightarrow> 'e registry \<Rightarrow> 'e registry" where
  "register_set E reg =
     fold (\<lambda>(nm, ar, h). register nm ar h)
       [(lit ''SADD'', - 3, cmd_sadd E), (lit ''SREM'', - 3, cmd_srem E), (lit ''SISMEMBER'', 3, cmd_sismember E),
        (lit ''SMEMBERS'', 2, cmd_smembers E), (lit ''SCARD'', 2, cmd_scard E)] reg"

subsection \<open>Sorted sets\<close>

definition NOT_A_FLOAT :: bytes where
  "NOT_A_FLOAT = lit ''ERR value is not a valid float''"

definition BAD_RANGE_BOUND :: bytes where
  "BAD_RANGE_BOUND = lit ''ERR min or max is not a float''"

definition parse_score :: "float_text \<Rightarrow> bytes \<Rightarrow> f64 option" where
  "parse_score T raw =
     (if \<not> utf8_valid raw then None
      else if raw = [] \<or> any_whitespace raw then None
      else case parse_f64 T raw of
        None \<Rightarrow> None
      | Some x \<Rightarrow> if f64_is_nan x then None else Some x)"

definition parse_score_bound :: "float_text \<Rightarrow> bytes \<Rightarrow> (f64 \<times> bool) option" where
  "parse_score_bound T raw =
     (if raw \<noteq> [] \<and> hd raw = 40 then map_option (\<lambda>x. (x, True)) (parse_score T (tl raw))
      else map_option (\<lambda>x. (x, False)) (parse_score T raw))"

text \<open>
  \<open>score == score.trunc()\<close> on a finite double: its value is a whole number.  The value of a double
  is \<open>f64_units\<close> times \<open>2^-1074\<close>.
\<close>

definition f64_integral :: "f64 \<Rightarrow> bool" where
  "f64_integral x \<longleftrightarrow> f64_is_finite x \<and> f64_units x mod 2 ^ 1074 = 0"

definition format_score :: "float_text \<Rightarrow> f64 \<Rightarrow> bytes" where
  "format_score T score =
     (if f64_integral score \<and> \<bar>f64_units score\<bar> < 10 ^ 17 * 2 ^ 1074
      then show_int (f64_units score div 2 ^ 1074)
      else fmt_f64 T score)"

definition score_frame :: "float_text \<Rightarrow> f64 \<Rightarrow> resp_version \<Rightarrow> frame" where
  "score_frame T score v = (case v of V3 \<Rightarrow> Double score | V2 \<Rightarrow> Bulk (format_score T score))"

definition range_reply :: "float_text \<Rightarrow> bool \<Rightarrow> resp_version \<Rightarrow> (bytes \<times> f64) list \<Rightarrow> frame" where
  "range_reply T withscores v pairs =
     (if \<not> withscores then Array (map (\<lambda>(m, _). Bulk m) pairs)
      else case v of
        V2 \<Rightarrow> Array (concat (map (\<lambda>(m, score). [Bulk m, Bulk (format_score T score)]) pairs))
      | V3 \<Rightarrow> Array (map (\<lambda>(m, score). Array [Bulk m, Double score]) pairs))"

text \<open>The score/member loop of \<open>ZADD\<close>.\<close>

fun parse_pairs :: "float_text \<Rightarrow> (bytes \<times> bytes) list \<Rightarrow> (f64 \<times> bytes) list option" where
  "parse_pairs T [] = Some []"
| "parse_pairs T ((raw, member) # rest) =
     (case parse_score T raw of
        None \<Rightarrow> None
      | Some score \<Rightarrow> map_option (\<lambda>ps. (score, member) # ps) (parse_pairs T rest))"

definition zadd_flags :: "bytes list" where
  "zadd_flags = map lit [''NX'', ''XX'', ''GT'', ''LT'', ''CH'', ''INCR'']"

definition cmd_zadd :: "'e engine_ops \<Rightarrow> float_text \<Rightarrow> 'e handler" where
  "cmd_zadd E T v args s =
     with_arg args 2 (\<lambda>a2.
       if \<exists>f \<in> set zadd_flags. eq_ignore_ascii_case a2 f then Some (syntax_error, s)
       else if (length args - 2) mod 2 \<noteq> 0 then Some (syntax_error, s)
       else args_from args 2 (\<lambda>rest.
         case parse_pairs T (pairs_of rest) of
           None \<Rightarrow> Some (Error NOT_A_FLOAT, s)
         | Some pairs \<Rightarrow>
             with_arg args 1 (\<lambda>key. Some (store_reply (zadd E key pairs) Integer s))))"

definition cmd_zscore :: "'e engine_ops \<Rightarrow> float_text \<Rightarrow> 'e handler" where
  "cmd_zscore E T v args s =
     with_arg args 1 (\<lambda>key. with_arg args 2 (\<lambda>m.
       Some (store_reply (zscore E key m)
         (\<lambda>r. case r of Some score \<Rightarrow> score_frame T score v | None \<Rightarrow> Null) s)))"

definition cmd_zrange :: "'e engine_ops \<Rightarrow> float_text \<Rightarrow> 'e handler" where
  "cmd_zrange E T v args s =
     with_arg args 2 (\<lambda>a2. with_arg args 3 (\<lambda>a3.
       case (arg_i64 a2, arg_i64 a3) of
         (Some start, Some stop) \<Rightarrow>
           if length args > 4 \<and> \<not> eq_ignore_ascii_case (args ! 4) (lit ''WITHSCORES'')
           then Some (syntax_error, s)
           else if length args > 5 then Some (syntax_error, s)
           else with_arg args 1 (\<lambda>key.
             Some (store_reply (zrange E key start stop) (range_reply T (length args > 4) v) s))
       | _ \<Rightarrow> Some (Error NOT_AN_INTEGER, s)))"

text \<open>The option loop of \<open>ZRANGEBYSCORE\<close>; \<open>None\<close> is the syntax error.\<close>

fun zrbs_options :: "bytes list \<Rightarrow> bool \<Rightarrow> (int \<times> int) option \<Rightarrow> (bool \<times> (int \<times> int) option) option" where
  "zrbs_options [] withscores limit = Some (withscores, limit)"
| "zrbs_options (opt # rest) withscores limit =
     (if eq_ignore_ascii_case opt (lit ''WITHSCORES'') then zrbs_options rest True limit
      else if eq_ignore_ascii_case opt (lit ''LIMIT'') then
        (case rest of
           a # b # rest2 \<Rightarrow>
             (case (arg_i64 a, arg_i64 b) of
                (Some off, Some cnt) \<Rightarrow> zrbs_options rest2 withscores (Some (off, cnt))
              | _ \<Rightarrow> None)
         | _ \<Rightarrow> None)
      else None)"

definition apply_limit :: "(int \<times> int) option \<Rightarrow> 'a list \<Rightarrow> 'a list" where
  "apply_limit limit xs =
     (case limit of
        None \<Rightarrow> xs
      | Some (off, cnt) \<Rightarrow>
          if off < 0 then []
          else if cnt < 0 then drop (nat off) xs
          else take (nat cnt) (drop (nat off) xs))"

definition cmd_zrangebyscore :: "'e engine_ops \<Rightarrow> float_text \<Rightarrow> 'e handler" where
  "cmd_zrangebyscore E T v args s =
     with_arg args 2 (\<lambda>a2.
       case parse_score_bound T a2 of
         None \<Rightarrow> Some (Error BAD_RANGE_BOUND, s)
       | Some (mn, mn_excl) \<Rightarrow> with_arg args 3 (\<lambda>a3.
           case parse_score_bound T a3 of
             None \<Rightarrow> Some (Error BAD_RANGE_BOUND, s)
           | Some (mx, mx_excl) \<Rightarrow>
               (case zrbs_options (drop 4 args) False None of
                  None \<Rightarrow> Some (syntax_error, s)
                | Some (withscores, limit) \<Rightarrow> with_arg args 1 (\<lambda>key.
                    Some (store_reply (zrange_by_score E key mn mn_excl mx mx_excl)
                      (\<lambda>pairs. range_reply T withscores v (apply_limit limit pairs)) s)))))"

definition cmd_zrem :: "'e engine_ops \<Rightarrow> 'e handler" where
  "cmd_zrem E v args s =
     args_from args 2 (\<lambda>ms. with_arg args 1 (\<lambda>key. Some (store_reply (zrem E key ms) Integer s)))"

definition cmd_zcard :: "'e engine_ops \<Rightarrow> 'e handler" where
  "cmd_zcard E v args s = with_arg args 1 (\<lambda>key. Some (store_reply (zcard E key) Integer s))"

definition register_zset :: "'e engine_ops \<Rightarrow> float_text \<Rightarrow> 'e registry \<Rightarrow> 'e registry" where
  "register_zset E T reg =
     fold (\<lambda>(nm, ar, h). register nm ar h)
       [(lit ''ZADD'', - 4, cmd_zadd E T), (lit ''ZSCORE'', 3, cmd_zscore E T),
        (lit ''ZRANGE'', - 4, cmd_zrange E T), (lit ''ZRANGEBYSCORE'', - 4, cmd_zrangebyscore E T),
        (lit ''ZREM'', - 3, cmd_zrem E), (lit ''ZCARD'', 2, cmd_zcard E)] reg"

subsection \<open>Lists\<close>

definition cmd_push :: "'e engine_ops \<Rightarrow> 'e handler" where
  "cmd_push E v args s =
     with_arg args 0 (\<lambda>nm. args_from args 2 (\<lambda>values. with_arg args 1 (\<lambda>key.
       Some (store_reply (store_push E key values (eq_ignore_ascii_case nm (lit ''LPUSH''))) Integer s))))"

definition cmd_pop :: "'e engine_ops \<Rightarrow> 'e handler" where
  "cmd_pop E v args s =
     with_arg args 0 (\<lambda>nm.
       let left = eq_ignore_ascii_case nm (lit ''LPOP'');
           count = (if length args > 2
                    then (case arg_i64 (args ! 2) of
                            Some n \<Rightarrow> if n \<ge> 0 then Inr (Some (nat n))
                                      else Inl (Error (lit ''ERR value is out of range, must be positive''))
                          | None \<Rightarrow> Inl (Error NOT_AN_INTEGER))
                    else Inr None)
       in case count of
            Inl err \<Rightarrow> Some (err, s)
          | Inr cnt \<Rightarrow>
              if length args > 3
              then Some (wrong_args (if left then lit ''lpop'' else lit ''rpop''), s)
              else with_arg args 1 (\<lambda>key.
                case llen E key s of
                  (Inl e, s') \<Rightarrow> Some (engine_error_frame e, s')
                | (Inr n, s') \<Rightarrow>
                    if \<not> n > 0 then Some (Null, s')
                    else Some (store_reply (store_pop E key (case cnt of None \<Rightarrow> 1 | Some c \<Rightarrow> c) left)
                      (\<lambda>popped. case cnt of
                           None \<Rightarrow> (case popped of [] \<Rightarrow> Null | x # _ \<Rightarrow> Bulk x)
                         | Some _ \<Rightarrow> Array (map Bulk popped)) s')))"

definition cmd_lrange :: "'e engine_ops \<Rightarrow> 'e handler" where
  "cmd_lrange E v args s =
     with_arg args 2 (\<lambda>a2. with_arg args 3 (\<lambda>a3.
       case (arg_i64 a2, arg_i64 a3) of
         (Some start, Some stop) \<Rightarrow> with_arg args 1 (\<lambda>key.
           Some (store_reply (lrange E key start stop) (\<lambda>values. Array (map Bulk values)) s))
       | _ \<Rightarrow> Some (Error NOT_AN_INTEGER, s)))"

definition cmd_llen :: "'e engine_ops \<Rightarrow> 'e handler" where
  "cmd_llen E v args s = with_arg args 1 (\<lambda>key. Some (store_reply (llen E key) Integer s))"

definition register_list :: "'e engine_ops \<Rightarrow> 'e registry \<Rightarrow> 'e registry" where
  "register_list E reg =
     fold (\<lambda>(nm, ar, h). register nm ar h)
       [(lit ''LPUSH'', - 3, cmd_push E), (lit ''RPUSH'', - 3, cmd_push E), (lit ''LPOP'', - 2, cmd_pop E),
        (lit ''RPOP'', - 2, cmd_pop E), (lit ''LRANGE'', 4, cmd_lrange E), (lit ''LLEN'', 2, cmd_llen E)] reg"

subsection \<open>Introspection\<close>

definition cmd_dbsize :: "'e engine_ops \<Rightarrow> 'e handler" where
  "cmd_dbsize E v args s = Some (store_reply (dbsize E) Integer s)"

definition cmd_rawcount :: "'e engine_ops \<Rightarrow> 'e handler" where
  "cmd_rawcount E v args s = Some (store_reply (raw_subkey_count E) Integer s)"

definition cmd_compact :: "'e engine_ops \<Rightarrow> 'e handler" where
  "cmd_compact E v args s = Some (store_reply (store_compact E) (\<lambda>_. frame_ok) s)"

definition register_admin :: "'e engine_ops \<Rightarrow> 'e registry \<Rightarrow> 'e registry" where
  "register_admin E reg =
     fold (\<lambda>(nm, ar, h). register nm ar h)
       [(lit ''DBSIZE'', 1, cmd_dbsize E), (lit ''RAWCOUNT'', 1, cmd_rawcount E),
        (lit ''COMPACT'', 1, cmd_compact E)] reg"

subsection \<open>The standard registry\<close>

definition register_all :: "'e engine_ops \<Rightarrow> float_text \<Rightarrow> 'e registry \<Rightarrow> 'e registry" where
  "register_all E T reg =
     register_admin E (register_list E (register_zset E T (register_set E (register_hash E
       (register_string E (register_connectivity reg))))))"

definition registry_standard :: "'e engine_ops \<Rightarrow> float_text \<Rightarrow> 'e registry" where
  "registry_standard E T = register_all E T registry_new"

end
