(* ===== verification/Resp_Decode.thy ===== *)
theory Resp_Decode
  imports Resp_Frame
begin

text \<open>
  The incremental RESP decoder (\<open>crates/gamestore-protocol/src/decode.rs\<close>).  Parsers work on the
  whole buffer and a position, as the code does: the result is an error, \<open>None\<close> when more input
  is needed, or a value with the position after it.  \<open>parse_frame\<close> recurses through the
  aggregates with the nesting depth as its measure.
\<close>

record limits =
  max_bulk_len :: nat
  max_array_len :: nat
  max_inline_len :: nat
  max_depth :: nat

definition default_limits :: limits where
  "default_limits =
     \<lparr>max_bulk_len = 512 * 1024 * 1024, max_array_len = 1024 * 1024,
      max_inline_len = 64 * 1024, max_depth = 128\<rparr>"

type_synonym 'a parsed = "protocol_error + ('a \<times> nat) option"

subsection \<open>Lines and integers\<close>

function read_line_from :: "bytes \<Rightarrow> nat \<Rightarrow> nat \<Rightarrow> (bytes \<times> nat) option" where
  "read_line_from input start i =
     (if i + 1 < length input then
        if input ! i = CR \<and> input ! (i + 1) = LF then Some (slice input start i, i + 2)
        else read_line_from input start (i + 1)
      else None)"
  by pat_completeness auto
termination
  by (relation "measure (\<lambda>(input, start, i). length input - i)") auto

declare read_line_from.simps [simp del]

text \<open>\<open>read_line\<close> never returns an error, so its result is the inner \<open>Option\<close>.\<close>

definition read_line :: "bytes \<Rightarrow> nat \<Rightarrow> (bytes \<times> nat) option" where
  "read_line input start = (if start > length input then None else read_line_from input start start)"

definition str_from :: "bytes \<Rightarrow> protocol_error + bytes" where
  "str_from bs = (if utf8_valid bs then Inr bs else Inl (Malformed (lit ''invalid UTF-8 in text line'')))"

definition parse_i64 :: "bytes \<Rightarrow> protocol_error + int" where
  "parse_i64 bs =
     (case str_from bs of
        Inl e \<Rightarrow> Inl e
      | Inr s \<Rightarrow>
          (case i64_from_str s of
             Some n \<Rightarrow> Inr n
           | None \<Rightarrow> Inl (Malformed (lit ''invalid integer '' @ [39] @ s @ [39]))))"

text \<open>\<open>match read_line(input, from)? { Some((line, next)) => ..., None => Ok(None) }\<close>.\<close>

definition on_line :: "bytes \<Rightarrow> nat \<Rightarrow> (bytes \<Rightarrow> nat \<Rightarrow> 'a parsed) \<Rightarrow> 'a parsed" where
  "on_line input start f = (case read_line input start of None \<Rightarrow> Inr None | Some (line, next) \<Rightarrow> f line next)"

text \<open>The same with the line read as an integer header.\<close>

definition on_header :: "bytes \<Rightarrow> nat \<Rightarrow> (int \<Rightarrow> nat \<Rightarrow> 'a parsed) \<Rightarrow> 'a parsed" where
  "on_header input start f =
     on_line input start (\<lambda>line next. case parse_i64 line of Inl e \<Rightarrow> Inl e | Inr n \<Rightarrow> f n next)"

subsection \<open>Scalars\<close>

definition text_line :: "bytes \<Rightarrow> nat \<Rightarrow> (bytes \<Rightarrow> frame) \<Rightarrow> frame parsed" where
  "text_line input start mk =
     on_line input start (\<lambda>line next.
       case str_from line of Inl e \<Rightarrow> Inl e | Inr s \<Rightarrow> Inr (Some (mk s, next)))"

definition parse_integer :: "bytes \<Rightarrow> nat \<Rightarrow> frame parsed" where
  "parse_integer input start = on_header input start (\<lambda>n next. Inr (Some (Integer n, next)))"

definition parse_null :: "bytes \<Rightarrow> nat \<Rightarrow> frame parsed" where
  "parse_null input start =
     on_line input start (\<lambda>line next.
       if line \<noteq> [] then Inl (Malformed (lit ''null (_) must have empty body''))
       else Inr (Some (Null, next)))"

definition parse_boolean :: "bytes \<Rightarrow> nat \<Rightarrow> frame parsed" where
  "parse_boolean input start =
     on_line input start (\<lambda>line next.
       if line = lit ''t'' then Inr (Some (Boolean True, next))
       else if line = lit ''f'' then Inr (Some (Boolean False, next))
       else Inl (Malformed (lit ''boolean must be #t or #f'')))"

definition parse_double :: "float_text \<Rightarrow> bytes \<Rightarrow> nat \<Rightarrow> frame parsed" where
  "parse_double T input start =
     on_line input start (\<lambda>line next.
       case str_from line of
         Inl e \<Rightarrow> Inl e
       | Inr s \<Rightarrow>
           if s = lit ''inf'' \<or> s = lit ''+inf'' then Inr (Some (Double F64_INFINITY, next))
           else if s = lit ''-inf'' then Inr (Some (Double F64_NEG_INFINITY, next))
           else if s = lit ''nan'' \<or> s = lit ''-nan'' then Inr (Some (Double F64_NAN, next))
           else (case parse_f64 T s of
                   Some d \<Rightarrow> Inr (Some (Double d, next))
                 | None \<Rightarrow> Inl (Malformed (lit ''invalid double '' @ [39] @ s @ [39]))))"

definition parse_bulk :: "bytes \<Rightarrow> nat \<Rightarrow> limits \<Rightarrow> bool \<Rightarrow> frame parsed" where
  "parse_bulk input start lim is_error =
     on_header input start (\<lambda>len after_hdr.
       if len = - 1 \<and> \<not> is_error then Inr (Some (Null, after_hdr))
       else if len < 0 then Inl (Malformed (lit ''negative bulk length '' @ show_int len))
       else if nat len > max_bulk_len lim
       then Inl (LimitExceeded (lit ''bulk length '' @ show_int len @ lit '' exceeds limit ''
                  @ show_nat (max_bulk_len lim)))
       else
         let fin = after_hdr + nat len
         in if length input < fin + 2 then Inr None
            else if slice input fin (fin + 2) \<noteq> CRLF
            then Inl (Malformed (lit ''bulk not terminated by CRLF''))
            else
              let payload = slice input after_hdr fin
              in if is_error
                 then (case str_from payload of
                         Inl e \<Rightarrow> Inl e | Inr s \<Rightarrow> Inr (Some (BulkError s, fin + 2)))
                 else Inr (Some (Bulk payload, fin + 2)))"

definition parse_verbatim :: "bytes \<Rightarrow> nat \<Rightarrow> limits \<Rightarrow> frame parsed" where
  "parse_verbatim input start lim =
     on_header input start (\<lambda>len after_hdr.
       if len < 4
       then Inl (Malformed (lit ''verbatim string too short (need 3-byte format + '' @ [39, 58, 39] @ lit '')''))
       else if nat len > max_bulk_len lim
       then Inl (LimitExceeded (lit ''verbatim length '' @ show_int len @ lit '' exceeds limit ''
                  @ show_nat (max_bulk_len lim)))
       else
         let fin = after_hdr + nat len
         in if length input < fin + 2 then Inr None
            else if slice input fin (fin + 2) \<noteq> CRLF
            then Inl (Malformed (lit ''verbatim not terminated by CRLF''))
            else
              let body = slice input after_hdr fin
              in if body ! 3 \<noteq> 58
                 then Inl (Malformed (lit ''verbatim format not followed by '' @ [39, 58, 39]))
                 else Inr (Some (Verbatim (body ! 0, body ! 1, body ! 2) (drop 4 body), fin + 2)))"

subsection \<open>Aggregates\<close>

text \<open>The element loop; \<open>f\<close> parses one element at a position.\<close>

primrec parse_n :: "(nat \<Rightarrow> 'a parsed) \<Rightarrow> nat \<Rightarrow> nat \<Rightarrow> 'a list \<Rightarrow> 'a list parsed" where
  "parse_n f 0 pos items = Inr (Some (items, pos))"
| "parse_n f (Suc n) pos items =
     (case f pos of
        Inl e \<Rightarrow> Inl e
      | Inr None \<Rightarrow> Inr None
      | Inr (Some (x, next)) \<Rightarrow> parse_n f n next (items @ [x]))"

datatype aggregate = AggArray | AggSet | AggPush

fun agg_frame :: "aggregate \<Rightarrow> frame list \<Rightarrow> frame" where
  "agg_frame AggArray items = Array items"
| "agg_frame AggSet items = Set items"
| "agg_frame AggPush items = Push items"

text \<open>\<open>elem\<close> is \<open>parse_frame\<close> one level down.\<close>

definition parse_aggregate ::
  "(nat \<Rightarrow> frame parsed) \<Rightarrow> bytes \<Rightarrow> nat \<Rightarrow> limits \<Rightarrow> aggregate \<Rightarrow> frame parsed" where
  "parse_aggregate elem input start lim kind =
     on_header input start (\<lambda>count pos.
       if count = - 1 then
         if kind = AggArray then Inr (Some (Null, pos))
         else Inl (Malformed (lit ''negative aggregate length''))
       else if count < 0 then Inl (Malformed (lit ''negative aggregate length''))
       else if nat count > max_array_len lim
       then Inl (LimitExceeded (lit ''aggregate length '' @ show_int count @ lit '' exceeds limit ''
                  @ show_nat (max_array_len lim)))
       else (case parse_n elem (nat count) pos [] of
               Inl e \<Rightarrow> Inl e
             | Inr None \<Rightarrow> Inr None
             | Inr (Some (items, p)) \<Rightarrow> Inr (Some (agg_frame kind items, p))))"

definition parse_pair :: "(nat \<Rightarrow> frame parsed) \<Rightarrow> nat \<Rightarrow> (frame \<times> frame) parsed" where
  "parse_pair elem pos =
     (case elem pos of
        Inl e \<Rightarrow> Inl e
      | Inr None \<Rightarrow> Inr None
      | Inr (Some (key, pos1)) \<Rightarrow>
          (case elem pos1 of
             Inl e \<Rightarrow> Inl e
           | Inr None \<Rightarrow> Inr None
           | Inr (Some (val, pos2)) \<Rightarrow> Inr (Some ((key, val), pos2))))"

definition parse_map :: "(nat \<Rightarrow> frame parsed) \<Rightarrow> bytes \<Rightarrow> nat \<Rightarrow> limits \<Rightarrow> frame parsed" where
  "parse_map elem input start lim =
     on_header input start (\<lambda>count pos.
       if count < 0 then Inl (Malformed (lit ''negative map length''))
       else if nat count > max_array_len lim
       then Inl (LimitExceeded (lit ''map length '' @ show_int count @ lit '' exceeds limit ''
                  @ show_nat (max_array_len lim)))
       else (case parse_n (parse_pair elem) (nat count) pos [] of
               Inl e \<Rightarrow> Inl e
             | Inr None \<Rightarrow> Inr None
             | Inr (Some (pairs, p)) \<Rightarrow> Inr (Some (Map pairs, p))))"

text \<open>\<open>{other:02x}\<close>.\<close>

definition hex_digit :: "nat \<Rightarrow> byte" where
  "hex_digit n = of_nat (if n < 10 then 48 + n else 87 + n)"

definition hex02 :: "byte \<Rightarrow> bytes" where
  "hex02 b = [hex_digit (unat b div 16), hex_digit (unat b mod 16)]"

function parse_frame :: "float_text \<Rightarrow> bytes \<Rightarrow> nat \<Rightarrow> limits \<Rightarrow> nat \<Rightarrow> frame parsed" where
  "parse_frame T input start lim depth =
     (if depth > max_depth lim
      then Inl (Malformed (lit ''nesting deeper than '' @ show_nat (max_depth lim) @ lit '' levels''))
      else if start \<ge> length input then Inr None
      else
        let type_byte = input ! start; body = start + 1;
            elem = (\<lambda>pos. parse_frame T input pos lim (depth + 1))
        in if type_byte = 43 then text_line input body Simple
           else if type_byte = 45 then text_line input body Error
           else if type_byte = 40 then text_line input body BigNumber
           else if type_byte = 58 then parse_integer input body
           else if type_byte = 95 then parse_null input body
           else if type_byte = 35 then parse_boolean input body
           else if type_byte = 44 then parse_double T input body
           else if type_byte = 36 then parse_bulk input body lim False
           else if type_byte = 33 then parse_bulk input body lim True
           else if type_byte = 61 then parse_verbatim input body lim
           else if type_byte = 42 then parse_aggregate elem input body lim AggArray
           else if type_byte = 126 then parse_aggregate elem input body lim AggSet
           else if type_byte = 62 then parse_aggregate elem input body lim AggPush
           else if type_byte = 37 then parse_map elem input body lim
           else Inl (Malformed (lit ''unknown RESP type byte 0x'' @ hex02 type_byte)))"
  by pat_completeness auto
termination
  by (relation "measure (\<lambda>(T, input, start, lim, depth). Suc (max_depth lim) - depth)") auto

declare parse_frame.simps [simp del]

definition decode :: "float_text \<Rightarrow> bytes \<Rightarrow> limits \<Rightarrow> (protocol_error + frame option) \<times> bytes" where
  "decode T buf lim =
     (case parse_frame T buf 0 lim 0 of
        Inl e \<Rightarrow> (Inl e, buf)
      | Inr None \<Rightarrow> (Inr None, buf)
      | Inr (Some (fr, consumed)) \<Rightarrow> (Inr (Some fr), drop consumed buf))"

subsection \<open>Requests\<close>

definition parse_arg :: "bytes \<Rightarrow> limits \<Rightarrow> nat \<Rightarrow> bytes parsed" where
  "parse_arg input lim pos =
     (if pos \<ge> length input then Inr None
      else if input ! pos \<noteq> 36
      then Inl (Malformed (lit ''expected '' @ [39, 36, 39] @ lit '' in multibulk, got 0x'' @ hex02 (input ! pos)))
      else
        on_header input (pos + 1) (\<lambda>len after_hdr.
          if len < 0 then Inl (Malformed (lit ''null bulk string not allowed in a request''))
          else if nat len > max_bulk_len lim
          then Inl (LimitExceeded (lit ''bulk length '' @ show_int len @ lit '' exceeds limit ''
                     @ show_nat (max_bulk_len lim)))
          else
            let fin = after_hdr + nat len
            in if length input < fin + 2 then Inr None
               else if slice input fin (fin + 2) \<noteq> CRLF
               then Inl (Malformed (lit ''bulk not terminated by CRLF''))
               else Inr (Some (slice input after_hdr fin, fin + 2))))"

definition parse_multibulk :: "bytes \<Rightarrow> limits \<Rightarrow> bytes list parsed" where
  "parse_multibulk input lim =
     on_header input 1 (\<lambda>count pos.
       if count \<le> 0 then Inr (Some ([], pos))
       else if nat count > max_array_len lim
       then Inl (LimitExceeded (lit ''multibulk length '' @ show_int count @ lit '' exceeds limit ''
                  @ show_nat (max_array_len lim)))
       else parse_n (parse_arg input lim) (nat count) pos [])"

subsection \<open>Inline commands\<close>

definition is_space :: "byte \<Rightarrow> bool" where
  "is_space b \<longleftrightarrow> b \<in> {32, 9, 13, 10, 11, 12}"

definition is_hex :: "byte \<Rightarrow> bool" where
  "is_hex b \<longleftrightarrow> 48 \<le> b \<and> b \<le> 57 \<or> 97 \<le> b \<and> b \<le> 102 \<or> 65 \<le> b \<and> b \<le> 70"

definition hex_val :: "byte \<Rightarrow> byte" where
  "hex_val b =
     (if 48 \<le> b \<and> b \<le> 57 then b - 48
      else if 97 \<le> b \<and> b \<le> 102 then b - 97 + 10
      else if 65 \<le> b \<and> b \<le> 70 then b - 65 + 10
      else 0)"

unbundle bit_operations_syntax

text \<open>Called with a non-empty rest.\<close>

definition unescape_double :: "bytes \<Rightarrow> byte \<times> nat" where
  "unescape_double rest =
     (let c = rest ! 0
      in if c = 120 \<and> length rest \<ge> 3 \<and> is_hex (rest ! 1) \<and> is_hex (rest ! 2)
         then (push_bit 4 (hex_val (rest ! 1)) OR hex_val (rest ! 2), 3)
         else if c = 110 then (10, 1)
         else if c = 114 then (13, 1)
         else if c = 116 then (9, 1)
         else if c = 98 then (8, 1)
         else if c = 97 then (7, 1)
         else (c, 1))"

text \<open>
  The tokenizer works on the rest of the line (\<open>line[i..]\<close> in the code).  The quoted-token loops
  return the token and the rest after the closing quote.
\<close>

definition close_quote :: "bytes \<Rightarrow> bytes \<Rightarrow> protocol_error + bytes \<times> bytes" where
  "close_quote cur rest =
     (if rest \<noteq> [] \<and> \<not> is_space (hd rest)
      then Inl (InlineSyntax (lit ''closing quote not followed by space''))
      else Inr (cur, rest))"

function double_quoted :: "bytes \<Rightarrow> bytes \<Rightarrow> protocol_error + bytes \<times> bytes" where
  "double_quoted [] cur = Inl (InlineSyntax (lit ''unbalanced double quotes''))"
| "double_quoted (c # rest) cur =
     (if c = 34 then close_quote cur rest
      else if c = 92 \<and> rest \<noteq> []
      then (case unescape_double rest of (b, adv) \<Rightarrow> double_quoted (drop adv rest) (cur @ [b]))
      else double_quoted rest (cur @ [c]))"
  by pat_completeness auto
termination
  by (relation "measure (\<lambda>(rest, cur). length rest)") auto

fun single_quoted :: "bytes \<Rightarrow> bytes \<Rightarrow> protocol_error + bytes \<times> bytes" where
  "single_quoted [] cur = Inl (InlineSyntax (lit ''unbalanced single quotes''))"
| "single_quoted (c # rest) cur =
     (if c = 39 then close_quote cur rest
      else case rest of
        d # rest2 \<Rightarrow>
          if c = 92 \<and> d = 39 then single_quoted rest2 (cur @ [39]) else single_quoted rest (cur @ [c])
      | [] \<Rightarrow> single_quoted rest (cur @ [c]))"

definition next_token :: "bytes \<Rightarrow> protocol_error + bytes \<times> bytes" where
  "next_token rest =
     (if hd rest = 34 then double_quoted (tl rest) []
      else if hd rest = 39 then single_quoted (tl rest) []
      else Inr (takeWhile (\<lambda>b. \<not> is_space b) rest, dropWhile (\<lambda>b. \<not> is_space b) rest))"

lemma double_quoted_shrinks:
  "double_quoted rest cur = Inr (tok, rest') \<Longrightarrow> length rest' < length rest"
proof (induction rest cur rule: double_quoted.induct)
  case (2 c rest cur)
  then show ?case
    by (auto simp: close_quote_def split: if_splits prod.splits)
qed simp

lemma single_quoted_shrinks:
  "single_quoted rest cur = Inr (tok, rest') \<Longrightarrow> length rest' < length rest"
proof (induction rest cur rule: single_quoted.induct)
  case (2 c rest cur)
  show ?case
  proof (cases "c = 39")
    case True
    then show ?thesis using 2(4) by (auto simp: close_quote_def split: if_splits)
  next
    case False
    show ?thesis
    proof (cases rest)
      case Nil
      then show ?thesis using 2(4) False by simp
    next
      case (Cons d rest2)
      then show ?thesis using 2 False by (cases "c = 92 \<and> d = 39") auto
    qed
  qed
qed simp

lemma next_token_shrinks:
  assumes "rest \<noteq> []" "\<not> is_space (hd rest)" "next_token rest = Inr (tok, rest')"
  shows "length rest' < length rest"
proof (cases rest)
  case (Cons c r)
  have "length (dropWhile (\<lambda>b. \<not> is_space b) r) \<le> length r" by (rule length_dropWhile_le)
  then show ?thesis
    using assms Cons double_quoted_shrinks [of r "[]" tok rest'] single_quoted_shrinks [of r "[]" tok rest']
    by (auto simp: next_token_def split: if_splits)
qed (use assms in simp)

function split_inline_from :: "bytes \<Rightarrow> bytes list \<Rightarrow> protocol_error + bytes list" where
  "split_inline_from line args =
     (let rest = dropWhile is_space line
      in if rest = [] then Inr args
         else case next_token rest of
           Inl e \<Rightarrow> Inl e
         | Inr (tok, rest') \<Rightarrow> split_inline_from rest' (args @ [tok]))"
  by pat_completeness auto
termination
proof (relation "measure (\<lambda>(line, args). length line)", goal_cases)
  case (2 line args rest p tok rest')
  then have "length rest' < length rest"
    using next_token_shrinks [of rest tok rest'] hd_dropWhile [of is_space line] by simp
  also have "\<dots> \<le> length line" using 2(1) by (simp add: length_dropWhile_le)
  finally show ?case by simp
qed simp

declare split_inline_from.simps [simp del]

definition split_inline :: "bytes \<Rightarrow> protocol_error + bytes list" where
  "split_inline line = split_inline_from line []"

definition decode_command ::
  "bytes \<Rightarrow> limits \<Rightarrow> (protocol_error + bytes list option) \<times> bytes" where
  "decode_command buf lim =
     (if buf = [] then (Inr None, buf)
      else if buf ! 0 = 42 then
        (case parse_multibulk buf lim of
           Inl e \<Rightarrow> (Inl e, buf)
         | Inr None \<Rightarrow> (Inr None, buf)
         | Inr (Some (args, consumed)) \<Rightarrow> (Inr (Some args), drop consumed buf))
      else
        (case read_line buf 0 of
           Some (line, consumed) \<Rightarrow>
             if length line > max_inline_len lim
             then (Inl (LimitExceeded (lit ''inline command of '' @ show_nat (length line)
                     @ lit '' bytes exceeds limit '' @ show_nat (max_inline_len lim))), buf)
             else (case split_inline line of
                     Inl e \<Rightarrow> (Inl e, buf)
                   | Inr args \<Rightarrow> (Inr (Some args), drop consumed buf))
         | None \<Rightarrow>
             if length buf > max_inline_len lim
             then (Inl (LimitExceeded (lit ''inline command exceeds limit '' @ show_nat (max_inline_len lim)
                     @ lit '' before end of line'')), buf)
             else (Inr None, buf)))"

end
