(* ===== verification/Resp_Incremental.thy ===== *)
theory Resp_Incremental
  imports Resp_Decode
begin

text \<open>
  What makes the decoder incremental: the contract of a parser that works on a growing buffer, and
  the proof that every parser of \<open>Resp_Decode\<close> meets it.  An answer, a value or an error, does not
  change when more bytes arrive, and a value is made of bytes that are in the buffer.  It follows
  that a message cut short is never reported as an error.
\<close>

locale incremental =
  fixes p :: "bytes \<Rightarrow> nat \<Rightarrow> 'a parsed"
  assumes stable: "p input pos \<noteq> Inr None \<Longrightarrow> p (input @ ext) pos = p input pos"
    and bounded: "p input pos = Inr (Some (x, n)) \<Longrightarrow> pos < n \<and> n \<le> length input"
begin

lemma cut_short:
  assumes "p input pos = Inr (Some (x, n))" "m < n"
  shows "p (take m input) pos = Inr None"
proof (rule ccontr)
  assume "p (take m input) pos \<noteq> Inr None"
  then have "p input pos = p (take m input) pos"
    using stable [of "take m input" pos "drop m input"] by simp
  then have "n \<le> length (take m input)" using assms bounded by metis
  then show False using assms(2) by simp
qed

lemma extend_value: "p input pos = Inr (Some r) \<Longrightarrow> p (input @ ext) pos = Inr (Some r)"
  using stable by fastforce

lemma extend_error: "p input pos = Inl e \<Longrightarrow> p (input @ ext) pos = Inl e"
  using stable by fastforce

end

subsection \<open>Lines\<close>

lemma slice_append [simp]: "b \<le> length xs \<Longrightarrow> slice (xs @ ys) a b = slice xs a b"
  by (simp add: slice_def)

lemma read_line_from_append:
  "read_line_from input start i = Some r \<Longrightarrow> read_line_from (input @ ext) start i = Some r"
proof (induction input start i rule: read_line_from.induct)
  case (1 input start i)
  then have len: "i + 1 < length input" by (subst (asm) (2) read_line_from.simps) (simp split: if_splits)
  show ?case
  proof (cases "input ! i = CR \<and> input ! (i + 1) = LF")
    case True
    then show ?thesis using 1(2) len
      by (subst (asm) read_line_from.simps, subst read_line_from.simps) (simp add: nth_append)
  next
    case False
    then have "read_line_from input start (i + 1) = Some r"
      using 1(2) len by (subst (asm) read_line_from.simps) auto
    then have "read_line_from (input @ ext) start (i + 1) = Some r" using 1(1) len False by blast
    then show ?thesis using len False by (subst read_line_from.simps) (auto simp: nth_append)
  qed
qed

lemma read_line_from_bounds:
  "read_line_from input start i = Some (line, n) \<Longrightarrow> i + 2 \<le> n \<and> n \<le> length input"
proof (induction input start i rule: read_line_from.induct)
  case (1 input start i)
  have len: "i + 1 < length input"
    using 1(2) by (subst (asm) read_line_from.simps) (simp split: if_splits)
  show ?case
  proof (cases "input ! i = CR \<and> input ! (i + 1) = LF")
    case True
    then show ?thesis using 1(2) len by (subst (asm) read_line_from.simps) simp
  next
    case False
    then have "read_line_from input start (i + 1) = Some (line, n)"
      using 1(2) len by (subst (asm) read_line_from.simps) auto
    then show ?thesis using 1(1) len False by fastforce
  qed
qed

lemma read_line_append: "read_line input start = Some r \<Longrightarrow> read_line (input @ ext) start = Some r"
  using read_line_from_append by (fastforce simp: read_line_def split: if_splits)

lemma read_line_bounds: "read_line input start = Some (line, n) \<Longrightarrow> start + 2 \<le> n \<and> n \<le> length input"
  using read_line_from_bounds by (fastforce simp: read_line_def split: if_splits)

text \<open>The lines \<open>read_line\<close> can return: no CR is followed by an LF.\<close>

definition crlf_free :: "bytes \<Rightarrow> bool" where
  "crlf_free line \<longleftrightarrow> (\<forall>i < length line - 1. \<not> (line ! i = CR \<and> line ! Suc i = LF))"

lemma crlf_freeI: "CR \<notin> set line \<Longrightarrow> crlf_free line"
proof -
  assume "CR \<notin> set line"
  then have "line ! i \<noteq> CR" if "i < length line - 1" for i using that nth_mem [of i line] by force
  then show ?thesis by (simp add: crlf_free_def)
qed

lemma read_line_from_found:
  assumes "crlf_free line" "i \<le> length line" "start = length pre"
  shows "read_line_from (pre @ line @ CRLF @ rest) start (start + i)
       = Some (line, start + length line + 2)"
  using assms
proof (induction "length line - i" arbitrary: i)
  case 0
  then have "i = length line" by simp
  then show ?case using 0
    by (subst read_line_from.simps) (simp add: CRLF_def nth_append slice_def)
next
  case (Suc k)
  then have i: "i < length line" by simp
  have "\<not> ((pre @ line @ CRLF @ rest) ! (start + i) = CR \<and> (pre @ line @ CRLF @ rest) ! (start + i + 1) = LF)"
    using Suc(3,5) i by (cases "Suc i = length line")
      (auto simp: nth_append crlf_free_def CRLF_def CR_def LF_def)
  moreover have "read_line_from (pre @ line @ CRLF @ rest) start (start + (i + 1))
      = Some (line, start + length line + 2)"
    using Suc(2-) i by (intro Suc(1)) auto
  ultimately show ?case using Suc(5) i by (subst read_line_from.simps) (simp add: CRLF_def)
qed

lemma read_line_found:
  "crlf_free line \<Longrightarrow>
     read_line (pre @ line @ CRLF @ rest) (length pre) = Some (line, length pre + length line + 2)"
  using read_line_from_found [of line 0 "length pre" pre rest] by (simp add: read_line_def)

lemma read_line_from_crlf_free:
  assumes "read_line_from input start i = Some (line, n)" "start \<le> i"
    and "\<forall>j. start \<le> j \<and> j < i \<longrightarrow> \<not> (input ! j = CR \<and> input ! Suc j = LF)"
  shows "crlf_free line"
  using assms
proof (induction input start i rule: read_line_from.induct)
  case (1 input start i)
  have len: "i + 1 < length input"
    using 1(2) by (subst (asm) read_line_from.simps) (simp split: if_splits)
  show ?case
  proof (cases "input ! i = CR \<and> input ! (i + 1) = LF")
    case True
    then have "line = slice input start i"
      using 1(2) len by (subst (asm) read_line_from.simps) simp
    then show ?thesis using 1(3,4) len by (auto simp: crlf_free_def slice_def)
  next
    case False
    then have "read_line_from input start (i + 1) = Some (line, n)"
      using 1(2) len by (subst (asm) read_line_from.simps) auto
    moreover have "\<forall>j. start \<le> j \<and> j < i + 1 \<longrightarrow> \<not> (input ! j = CR \<and> input ! Suc j = LF)"
      using 1(4) False by (auto simp: less_Suc_eq)
    ultimately show ?thesis using 1(1,3) len False by fastforce
  qed
qed

lemma read_line_crlf_free: "read_line input start = Some (line, n) \<Longrightarrow> crlf_free line"
  by (rule read_line_from_crlf_free [of input start start]) (auto simp: read_line_def split: if_splits)

subsection \<open>Combinators\<close>

lemma on_line_stable:
  assumes "on_line input start f \<noteq> Inr None"
    and "\<And>line n. n \<le> length input \<Longrightarrow> f line n \<noteq> Inr None \<Longrightarrow> f' line n = f line n"
  shows "on_line (input @ ext) start f' = on_line input start f"
proof (cases "read_line input start")
  case (Some r)
  then obtain line n where r: "r = (line, n)" by (cases r)
  then show ?thesis
    using assms Some read_line_append [OF Some, of ext] read_line_bounds [of input start line n]
    by (simp add: on_line_def)
qed (use assms in \<open>simp add: on_line_def\<close>)

lemma on_header_stable:
  assumes "on_header input start f \<noteq> Inr None"
    and "\<And>i n. n \<le> length input \<Longrightarrow> f i n \<noteq> Inr None \<Longrightarrow> f' i n = f i n"
  shows "on_header (input @ ext) start f' = on_header input start f"
  using assms unfolding on_header_def
  by (intro on_line_stable) (auto split: sum.splits)

lemma on_line_bounded:
  assumes "on_line input start f = Inr (Some (x, n))"
    and "\<And>line m. m \<le> length input \<Longrightarrow> f line m = Inr (Some (x, n)) \<Longrightarrow> m \<le> n \<and> n \<le> length input"
  shows "start + 2 \<le> n \<and> n \<le> length input"
  using assms read_line_bounds [of input start]
  by (fastforce simp: on_line_def split: option.splits prod.splits)

lemma on_header_bounded:
  assumes "on_header input start f = Inr (Some (x, n))"
    and "\<And>i m. m \<le> length input \<Longrightarrow> f i m = Inr (Some (x, n)) \<Longrightarrow> m \<le> n \<and> n \<le> length input"
  shows "start + 2 \<le> n \<and> n \<le> length input"
  using assms unfolding on_header_def
  by (elim on_line_bounded) (auto split: sum.splits)

lemma parse_n_stable:
  assumes "\<And>pos. f pos \<noteq> Inr None \<Longrightarrow> f' pos = f pos"
  shows "parse_n f n pos acc \<noteq> Inr None \<Longrightarrow> parse_n f' n pos acc = parse_n f n pos acc"
proof (induction n arbitrary: pos acc)
  case (Suc n)
  then show ?case using assms [of pos] by (auto split: sum.splits option.splits prod.splits)
qed simp

lemma parse_n_bounded:
  assumes "\<And>pos x n. f pos = Inr (Some (x, n)) \<Longrightarrow> pos < n \<and> n \<le> len"
  shows "parse_n f k pos acc = Inr (Some (xs, n)) \<Longrightarrow> pos \<le> len \<Longrightarrow> pos \<le> n \<and> n \<le> len"
proof (induction k arbitrary: pos acc)
  case (Suc k)
  then show ?case using assms [of pos] by (fastforce split: sum.splits option.splits prod.splits)
qed simp

lemma parse_pair_stable:
  assumes "\<And>pos. f pos \<noteq> Inr None \<Longrightarrow> f' pos = f pos" "parse_pair f pos \<noteq> Inr None"
  shows "parse_pair f' pos = parse_pair f pos"
  using assms by (auto simp: parse_pair_def split: sum.splits option.splits prod.splits)

lemma parse_pair_bounded:
  assumes "\<And>pos x n. f pos = Inr (Some (x, n)) \<Longrightarrow> pos < n \<and> n \<le> len"
    and "parse_pair f pos = Inr (Some (x, n))"
  shows "pos < n \<and> n \<le> len"
  using assms(2) assms(1) [of pos]
  by (auto simp: parse_pair_def split: sum.splits option.splits prod.splits dest!: assms(1))

subsection \<open>The parsers\<close>

interpretation text_line: incremental "\<lambda>input pos. text_line input pos mk" for mk
  by unfold_locales
    (auto simp: text_line_def intro!: on_line_stable dest!: on_line_bounded split: sum.splits)

interpretation parse_integer: incremental parse_integer
  by unfold_locales
    (auto simp: parse_integer_def intro!: on_header_stable dest!: on_header_bounded)

interpretation parse_null: incremental parse_null
  by unfold_locales
    (auto simp: parse_null_def intro!: on_line_stable dest!: on_line_bounded split: if_splits)

interpretation parse_boolean: incremental parse_boolean
  by unfold_locales
    (auto simp: parse_boolean_def intro!: on_line_stable dest!: on_line_bounded split: if_splits)

interpretation parse_double: incremental "parse_double T" for T
  by unfold_locales
    (auto simp: parse_double_def intro!: on_line_stable dest!: on_line_bounded
       split: sum.splits if_splits option.splits)

interpretation parse_bulk: incremental "\<lambda>input pos. parse_bulk input pos lim is_error" for lim is_error
proof (unfold_locales, goal_cases)
  case (1 input pos ext)
  then show ?case unfolding parse_bulk_def
    by (intro on_header_stable) (auto simp: Let_def split: if_splits)
next
  case (2 input pos x n)
  then show ?case unfolding parse_bulk_def
    by (auto dest!: on_header_bounded simp: Let_def split: if_splits sum.splits)
qed

interpretation parse_verbatim: incremental "\<lambda>input pos. parse_verbatim input pos lim" for lim
proof (unfold_locales, goal_cases)
  case (1 input pos ext)
  then show ?case unfolding parse_verbatim_def
    by (intro on_header_stable) (auto simp: Let_def split: if_splits)
next
  case (2 input pos x n)
  then show ?case unfolding parse_verbatim_def
    by (auto dest!: on_header_bounded simp: Let_def split: if_splits)
qed

interpretation parse_arg: incremental "\<lambda>input pos. parse_arg input lim pos" for lim
proof (unfold_locales, goal_cases)
  case (1 input pos ext)
  then show ?case unfolding parse_arg_def
    by (auto simp: nth_append Let_def intro!: on_header_stable split: if_splits)
next
  case (2 input pos x n)
  then show ?case unfolding parse_arg_def
    by (auto dest!: on_header_bounded simp: Let_def split: if_splits)
qed

subsection \<open>Aggregates and frames\<close>

lemma parse_aggregate_stable:
  assumes elem: "\<And>pos. elem pos \<noteq> Inr None \<Longrightarrow> elem' pos = elem pos"
    and "parse_aggregate elem input pos lim kind \<noteq> Inr None"
  shows "parse_aggregate elem' (input @ ext) pos lim kind = parse_aggregate elem input pos lim kind"
proof -
  have "parse_n elem k n [] \<noteq> Inr None \<Longrightarrow> parse_n elem' k n [] = parse_n elem k n []" for k n
    by (rule parse_n_stable [OF elem])
  then show ?thesis using assms(2) unfolding parse_aggregate_def
    by (intro on_header_stable) (auto split: if_splits sum.splits option.splits)
qed

lemma parse_aggregate_bounded:
  assumes elem: "\<And>pos x n. elem pos = Inr (Some (x, n)) \<Longrightarrow> pos < n \<and> n \<le> length input"
    and "parse_aggregate elem input pos lim kind = Inr (Some (x, n))"
  shows "pos + 2 \<le> n \<and> n \<le> length input"
proof -
  have "parse_n elem k m [] = Inr (Some (a, n)) \<Longrightarrow> m \<le> length input \<Longrightarrow> m \<le> n \<and> n \<le> length input" for k m a
    by (rule parse_n_bounded [OF elem])
  then show ?thesis using assms(2) unfolding parse_aggregate_def
    by (elim on_header_bounded) (fastforce split: if_splits sum.splits option.splits)
qed

lemma parse_map_stable:
  assumes elem: "\<And>pos. elem pos \<noteq> Inr None \<Longrightarrow> elem' pos = elem pos"
    and "parse_map elem input pos lim \<noteq> Inr None"
  shows "parse_map elem' (input @ ext) pos lim = parse_map elem input pos lim"
proof -
  have "parse_n (parse_pair elem) k n [] \<noteq> Inr None
      \<Longrightarrow> parse_n (parse_pair elem') k n [] = parse_n (parse_pair elem) k n []" for k n
    by (rule parse_n_stable [OF parse_pair_stable [OF elem]])
  then show ?thesis using assms(2) unfolding parse_map_def
    by (intro on_header_stable) (auto split: if_splits sum.splits option.splits)
qed

lemma parse_map_bounded:
  assumes elem: "\<And>pos x n. elem pos = Inr (Some (x, n)) \<Longrightarrow> pos < n \<and> n \<le> length input"
    and "parse_map elem input pos lim = Inr (Some (x, n))"
  shows "pos + 2 \<le> n \<and> n \<le> length input"
proof -
  have "parse_n (parse_pair elem) k m [] = Inr (Some (a, n)) \<Longrightarrow> m \<le> length input \<Longrightarrow> m \<le> n \<and> n \<le> length input" for k m a
    by (rule parse_n_bounded [OF parse_pair_bounded [OF elem]])
  then show ?thesis using assms(2) unfolding parse_map_def
    by (elim on_header_bounded) (fastforce split: if_splits sum.splits option.splits)
qed

lemma parse_frame_stable:
  "parse_frame T input pos lim depth \<noteq> Inr None
     \<Longrightarrow> parse_frame T (input @ ext) pos lim depth = parse_frame T input pos lim depth"
proof (induction "Suc (max_depth lim) - depth" arbitrary: depth pos)
  case 0
  then show ?case by (simp add: parse_frame.simps)
next
  case (Suc k)
  let ?elem = "\<lambda>input q. parse_frame T input q lim (Suc depth)"
  have elem: "?elem input q \<noteq> Inr None \<Longrightarrow> ?elem (input @ ext) q = ?elem input q" for q
    using Suc(2) by (intro Suc(1)) simp_all
  note subs = parse_aggregate_stable [of "?elem input" "?elem (input @ ext)", OF elem]
    parse_map_stable [of "?elem input" "?elem (input @ ext)", OF elem]
  have d: "\<not> max_depth lim < depth" using Suc(2) by simp
  then have pos: "pos < length input" using Suc(3) by (subst (asm) parse_frame.simps) (simp split: if_splits)
  show ?case
    using Suc(3) d pos
    by (simp add: parse_frame.simps [of T _ pos lim depth] Let_def nth_append subs
        text_line.stable parse_integer.stable parse_null.stable
        parse_boolean.stable parse_double.stable parse_bulk.stable parse_verbatim.stable
        split del: if_split cong: if_cong split: if_splits)
qed

lemma parse_frame_bounded:
  "parse_frame T input pos lim depth = Inr (Some (fr, n)) \<Longrightarrow> pos < n \<and> n \<le> length input"
proof (induction "Suc (max_depth lim) - depth" arbitrary: depth pos fr n)
  case 0
  then show ?case by (simp add: parse_frame.simps)
next
  case (Suc k)
  let ?elem = "\<lambda>q. parse_frame T input q lim (Suc depth)"
  have elem: "?elem q = Inr (Some (x, m)) \<Longrightarrow> q < m \<and> m \<le> length input" for q x m
    using Suc(2) by (intro Suc(1)) simp_all
  have agg: "parse_aggregate ?elem input q lim kind = Inr (Some (x, m)) \<Longrightarrow> q + 2 \<le> m \<and> m \<le> length input"
    for q kind x m by (rule parse_aggregate_bounded [OF elem])
  have mp: "parse_map ?elem input q lim = Inr (Some (x, m)) \<Longrightarrow> q + 2 \<le> m \<and> m \<le> length input"
    for q x m by (rule parse_map_bounded [OF elem])
  have "Suc pos < n \<and> n \<le> length input"
    using Suc(3)
    by (subst (asm) parse_frame.simps)
      (auto simp: Let_def split: if_splits dest!: text_line.bounded parse_integer.bounded
        parse_null.bounded parse_boolean.bounded parse_double.bounded parse_bulk.bounded
        parse_verbatim.bounded agg mp)
  then show ?case by simp
qed

interpretation parse_frame: incremental "\<lambda>input pos. parse_frame T input pos lim depth" for T lim depth
  by unfold_locales (rule parse_frame_stable, assumption, rule parse_frame_bounded)

lemma parse_multibulk_stable:
  assumes "parse_multibulk input lim \<noteq> Inr None"
  shows "parse_multibulk (input @ ext) lim = parse_multibulk input lim"
proof -
  have "parse_n (parse_arg input lim) k n [] \<noteq> Inr None
      \<Longrightarrow> parse_n (parse_arg (input @ ext) lim) k n [] = parse_n (parse_arg input lim) k n []" for k n
    by (rule parse_n_stable) (rule parse_arg.stable)
  then show ?thesis using assms unfolding parse_multibulk_def
    by (intro on_header_stable) (auto split: if_splits)
qed

lemma parse_multibulk_bounded:
  assumes "parse_multibulk input lim = Inr (Some (args, n))"
  shows "0 < n \<and> n \<le> length input"
proof -
  have "parse_n (parse_arg input lim) k m [] = Inr (Some (a, n))
      \<Longrightarrow> m \<le> length input \<Longrightarrow> m \<le> n \<and> n \<le> length input" for k m a
    by (rule parse_n_bounded) (rule parse_arg.bounded)
  then have "1 + 2 \<le> n \<and> n \<le> length input"
    using assms unfolding parse_multibulk_def by (elim on_header_bounded) (fastforce split: if_splits)
  then show ?thesis by simp
qed

interpretation parse_multibulk:
  incremental "\<lambda>input pos. if pos = 0 then parse_multibulk input lim else Inr None" for lim
  by unfold_locales (auto simp: parse_multibulk_stable dest: parse_multibulk_bounded split: if_splits)

end
