(* ===== verification/Resp_Roundtrip.thy ===== *)
theory Resp_Roundtrip
  imports Resp_Incremental
begin

text \<open>
  The decoder inverts the encoder: \<open>frame_within\<close> are the frames the decoder can produce under its
  limits, and \<open>parse_frame\<close> reads the encoding of each of them back at any position of a buffer.
\<close>

fun frame_within :: "limits \<Rightarrow> nat \<Rightarrow> frame \<Rightarrow> bool" where
  "frame_within lim d (Simple s) \<longleftrightarrow> d \<le> max_depth lim \<and> utf8_valid s \<and> crlf_free s"
| "frame_within lim d (Error s) \<longleftrightarrow> d \<le> max_depth lim \<and> utf8_valid s \<and> crlf_free s"
| "frame_within lim d (Integer n) \<longleftrightarrow> d \<le> max_depth lim \<and> in_i64 n"
| "frame_within lim d (Bulk b) \<longleftrightarrow> d \<le> max_depth lim \<and> length b \<le> max_bulk_len lim"
| "frame_within lim d Null \<longleftrightarrow> d \<le> max_depth lim"
| "frame_within lim d (Array items) \<longleftrightarrow>
     d \<le> max_depth lim \<and> length items \<le> max_array_len lim \<and> (\<forall>x \<in> set items. frame_within lim (Suc d) x)"
| "frame_within lim d (Boolean b) \<longleftrightarrow> d \<le> max_depth lim"
| "frame_within lim d (Double x) \<longleftrightarrow> d \<le> max_depth lim"
| "frame_within lim d (BigNumber s) \<longleftrightarrow> d \<le> max_depth lim \<and> utf8_valid s \<and> crlf_free s"
| "frame_within lim d (BulkError s) \<longleftrightarrow> d \<le> max_depth lim \<and> utf8_valid s \<and> length s \<le> max_bulk_len lim"
| "frame_within lim d (Verbatim f data) \<longleftrightarrow> d \<le> max_depth lim \<and> 4 + length data \<le> max_bulk_len lim"
| "frame_within lim d (Map pairs) \<longleftrightarrow>
     d \<le> max_depth lim \<and> length pairs \<le> max_array_len lim
     \<and> (\<forall>p \<in> set pairs. frame_within lim (Suc d) (fst p) \<and> frame_within lim (Suc d) (snd p))"
| "frame_within lim d (Set items) \<longleftrightarrow>
     d \<le> max_depth lim \<and> length items \<le> max_array_len lim \<and> (\<forall>x \<in> set items. frame_within lim (Suc d) x)"
| "frame_within lim d (Push items) \<longleftrightarrow>
     d \<le> max_depth lim \<and> length items \<le> max_array_len lim \<and> (\<forall>x \<in> set items. frame_within lim (Suc d) x)"

text \<open>The wire form has one NaN.\<close>

fun canonical_nan :: "frame \<Rightarrow> bool" where
  "canonical_nan (Double x) \<longleftrightarrow> (f64_is_nan x \<longrightarrow> x = F64_NAN)"
| "canonical_nan (Array items) \<longleftrightarrow> (\<forall>x \<in> set items. canonical_nan x)"
| "canonical_nan (Set items) \<longleftrightarrow> (\<forall>x \<in> set items. canonical_nan x)"
| "canonical_nan (Push items) \<longleftrightarrow> (\<forall>x \<in> set items. canonical_nan x)"
| "canonical_nan (Map pairs) \<longleftrightarrow> (\<forall>p \<in> set pairs. canonical_nan (fst p) \<and> canonical_nan (snd p))"
| "canonical_nan _ \<longleftrightarrow> True"

definition limits_fit :: "limits \<Rightarrow> bool" where
  "limits_fit lim \<longleftrightarrow> max_bulk_len lim < 2 ^ 63 \<and> max_array_len lim < 2 ^ 63"

subsection \<open>Reading back a line, a header, a payload\<close>

lemma type_bytes [simp]:
  "lit ''+'' = [43]" "lit ''-'' = [45]" "lit '':'' = [58]" "lit ''$'' = [36]" "lit ''*'' = [42]"
  "lit '','' = [44]" "lit ''('' = [40]" "lit ''!'' = [33]" "lit ''='' = [61]" "lit ''%'' = [37]"
  "lit ''~'' = [126]" "lit ''>'' = [62]" "lit ''_'' = [95]" "lit ''$-1'' = [36, 45, 49]"
  "lit ''#t'' = [35, 116]" "lit ''#f'' = [35, 102]" "lit ''t'' = [116]" "lit ''f'' = [102]"
  by (simp_all add: lit_def)

lemma length_CRLF [simp]: "length CRLF = 2"
  by (simp add: CRLF_def)

lemma on_line_at:
  assumes "crlf_free line"
  shows "on_line (pre @ t # line @ CRLF @ rest) (Suc (length pre)) f = f line (length pre + length line + 3)"
  using read_line_found [OF assms, of "pre @ [t]" rest] by (simp add: on_line_def eval_nat_numeral)

lemma parse_i64_show_int [simp]: "in_i64 n \<Longrightarrow> parse_i64 (show_int n) = Inr n"
  by (simp add: parse_i64_def str_from_def i64_from_str_show_int)

lemma show_int_crlf_free [simp]: "crlf_free (show_int n)"
  using show_int_ascii by (intro crlf_freeI) blast

lemma on_header_at:
  assumes "in_i64 n"
  shows "on_header (pre @ t # show_int n @ CRLF @ rest) (Suc (length pre)) f
       = f n (length pre + length (show_int n) + 3)"
  using assms by (simp add: on_header_def on_line_at)

lemma slice_mid: "a = length xs \<Longrightarrow> b = length xs + length ys \<Longrightarrow> slice (xs @ ys @ zs) a b = ys"
  by (simp add: slice_def)

text \<open>A payload after its header: position, contents, terminator, and room.\<close>

lemma payload_at:
  fixes pre hdr payload rest :: bytes and t :: byte
  defines "input \<equiv> pre @ t # hdr @ CRLF @ payload @ CRLF @ rest"
    and "a \<equiv> length pre + length hdr + 3" and "b \<equiv> length pre + length hdr + 3 + length payload"
  shows "slice input a b = payload" "slice input b (b + 2) = CRLF" "\<not> length input < b + 2"
proof -
  have 1: "input = (pre @ t # hdr @ CRLF) @ payload @ (CRLF @ rest)" by (simp add: input_def)
  have 2: "input = (pre @ t # hdr @ CRLF @ payload) @ CRLF @ rest" by (simp add: input_def)
  show "slice input a b = payload" unfolding 1 by (rule slice_mid) (simp_all add: a_def b_def CRLF_def)
  show "slice input b (b + 2) = CRLF" unfolding 2 by (rule slice_mid) (simp_all add: b_def CRLF_def)
  show "\<not> length input < b + 2" by (simp add: input_def b_def CRLF_def)
qed

lemma parse_bulk_at:
  assumes "length payload \<le> max_bulk_len lim" "limits_fit lim" "is_error \<longrightarrow> utf8_valid payload"
  shows "parse_bulk (pre @ t # show_int (int (length payload)) @ CRLF @ payload @ CRLF @ rest)
           (Suc (length pre)) lim is_error
       = Inr (Some (if is_error then BulkError payload else Bulk payload,
           length pre + length (show_int (int (length payload))) + 3 + length payload + 2))"
proof -
  have "in_i64 (int (length payload))" using assms by (simp add: in_i64_def limits_fit_def)
  then show ?thesis
    using assms payload_at [of pre t "show_int (int (length payload))" payload rest]
    by (simp add: parse_bulk_def on_header_at Let_def str_from_def)
qed

lemma parse_verbatim_at:
  assumes "4 \<le> length body" "body ! 3 = 58" "length body \<le> max_bulk_len lim" "limits_fit lim"
  shows "parse_verbatim (pre @ t # show_int (int (length body)) @ CRLF @ body @ CRLF @ rest)
           (Suc (length pre)) lim
       = Inr (Some (Verbatim (body ! 0, body ! 1, body ! 2) (drop 4 body),
           length pre + length (show_int (int (length body))) + 3 + length body + 2))"
proof -
  have "in_i64 (int (length body))" using assms by (simp add: in_i64_def limits_fit_def)
  then show ?thesis
    using assms payload_at [of pre t "show_int (int (length body))" body rest]
    by (simp add: parse_verbatim_def on_header_at Let_def)
qed

subsection \<open>Aggregates\<close>

text \<open>A loop over encodings laid end to end, each of which the element parser reads back.\<close>

lemma parse_n_concat:
  assumes "\<And>x pre' rest'. x \<in> set xs \<Longrightarrow> pre' @ enc x @ rest' = input \<Longrightarrow>
             f (length pre') = Inr (Some (x, length pre' + length (enc x)))"
    and "input = pre @ concat (map enc xs) @ rest"
  shows "parse_n f (length xs) (length pre) acc
       = Inr (Some (acc @ xs, length pre + length (concat (map enc xs))))"
  using assms
proof (induction xs arbitrary: pre acc)
  case (Cons x xs)
  have "f (length pre) = Inr (Some (x, length pre + length (enc x)))"
    using Cons.prems by (intro Cons.prems(1) [of x pre "concat (map enc xs) @ rest"]) auto
  moreover have "parse_n f (length xs) (length (pre @ enc x)) (acc @ [x])
      = Inr (Some ((acc @ [x]) @ xs, length (pre @ enc x) + length (concat (map enc xs))))"
    using Cons.prems by (intro Cons.IH) auto
  ultimately show ?case by (simp add: add.assoc)
qed simp

lemma parse_aggregate_at:
  assumes "length xs \<le> max_array_len lim" "limits_fit lim"
    and elem: "\<And>x pre' rest'. x \<in> set xs \<Longrightarrow> pre' @ enc x @ rest' = input \<Longrightarrow>
             elem (length pre') = Inr (Some (x, length pre' + length (enc x)))"
    and input: "input = pre @ t # show_int (int (length xs)) @ CRLF @ concat (map enc xs) @ rest"
  shows "parse_aggregate elem input (Suc (length pre)) lim kind
       = Inr (Some (agg_frame kind xs,
           length pre + length (show_int (int (length xs))) + 3 + length (concat (map enc xs))))"
proof -
  let ?hdr = "pre @ t # show_int (int (length xs)) @ CRLF"
  have i64: "in_i64 (int (length xs))" using assms by (simp add: in_i64_def limits_fit_def)
  have hdr: "length ?hdr = length pre + length (show_int (int (length xs))) + 3"
    by (simp add: CRLF_def)
  have "parse_n elem (length xs) (length ?hdr) []
      = Inr (Some ([] @ xs, length ?hdr + length (concat (map enc xs))))"
    by (rule parse_n_concat [OF elem, of xs]) (simp_all add: input)
  then show ?thesis using assms(1) i64 unfolding hdr by (simp add: parse_aggregate_def input on_header_at)
qed

lemma parse_aggregate_encoded:
  assumes "length xs \<le> max_array_len lim" "limits_fit lim"
    and elem: "\<And>x pre' rest'. x \<in> set xs \<Longrightarrow>
             P (pre' @ enc x @ rest') (length pre') = Inr (Some (x, length pre' + length (enc x)))"
    and input: "input = pre @ t # show_int (int (length xs)) @ CRLF @ concat (map enc xs) @ rest"
  shows "parse_aggregate (P input) input (Suc (length pre)) lim kind
       = Inr (Some (agg_frame kind xs,
           length pre + length (show_int (int (length xs))) + 3 + length (concat (map enc xs))))"
proof (rule parse_aggregate_at [OF assms(1,2) _ input])
  fix x pre' rest' assume "x \<in> set xs" "pre' @ enc x @ rest' = input"
  then show "P input (length pre') = Inr (Some (x, length pre' + length (enc x)))"
    using elem [of x pre' rest'] by simp
qed

lemma parse_map_at:
  assumes "length ps \<le> max_array_len lim" "limits_fit lim"
    and elem: "\<And>p pre' rest'. p \<in> set ps \<Longrightarrow> pre' @ (enc (fst p) @ enc (snd p)) @ rest' = input \<Longrightarrow>
             elem (length pre') = Inr (Some (fst p, length pre' + length (enc (fst p))))
             \<and> elem (length pre' + length (enc (fst p)))
               = Inr (Some (snd p, length pre' + length (enc (fst p) @ enc (snd p))))"
    and input: "input = pre @ t # show_int (int (length ps)) @ CRLF
                  @ concat (map (\<lambda>p. enc (fst p) @ enc (snd p)) ps) @ rest"
  shows "parse_map elem input (Suc (length pre)) lim
       = Inr (Some (Map ps, length pre + length (show_int (int (length ps))) + 3
           + length (concat (map (\<lambda>p. enc (fst p) @ enc (snd p)) ps))))"
proof -
  let ?hdr = "pre @ t # show_int (int (length ps)) @ CRLF"
  let ?enc = "\<lambda>p. enc (fst p) @ enc (snd p)"
  have i64: "in_i64 (int (length ps))" using assms by (simp add: in_i64_def limits_fit_def)
  have hdr: "length ?hdr = length pre + length (show_int (int (length ps))) + 3"
    by (simp add: CRLF_def)
  have "parse_n (parse_pair elem) (length ps) (length ?hdr) []
      = Inr (Some ([] @ ps, length ?hdr + length (concat (map ?enc ps))))"
  proof (rule parse_n_concat [where enc = ?enc and input = input])
    fix p pre' rest' assume "p \<in> set ps" "pre' @ ?enc p @ rest' = input"
    then show "parse_pair elem (length pre') = Inr (Some (p, length pre' + length (?enc p)))"
      using elem [of p pre' rest'] by (simp add: parse_pair_def)
  qed (simp add: input)
  then show ?thesis using assms(1) i64 unfolding hdr by (simp add: parse_map_def input on_header_at)
qed

lemma parse_map_encoded:
  assumes "length ps \<le> max_array_len lim" "limits_fit lim"
    and elem: "\<And>x pre' rest'. x \<in> fst ` set ps \<union> snd ` set ps \<Longrightarrow>
             P (pre' @ enc x @ rest') (length pre') = Inr (Some (x, length pre' + length (enc x)))"
    and input: "input = pre @ t # show_int (int (length ps)) @ CRLF
                  @ concat (map (\<lambda>p. enc (fst p) @ enc (snd p)) ps) @ rest"
  shows "parse_map (P input) input (Suc (length pre)) lim
       = Inr (Some (Map ps, length pre + length (show_int (int (length ps))) + 3
           + length (concat (map (\<lambda>p. enc (fst p) @ enc (snd p)) ps))))"
proof (rule parse_map_at [OF assms(1,2) _ input])
  fix p pre' rest' assume p: "p \<in> set ps" "pre' @ (enc (fst p) @ enc (snd p)) @ rest' = input"
  then show "P input (length pre') = Inr (Some (fst p, length pre' + length (enc (fst p))))
      \<and> P input (length pre' + length (enc (fst p)))
        = Inr (Some (snd p, length pre' + length (enc (fst p) @ enc (snd p))))"
    using elem [of "fst p" pre' "enc (snd p) @ rest'"] elem [of "snd p" "pre' @ enc (fst p)" rest'] by simp
qed

subsection \<open>Doubles\<close>

lemma infinite_cases: "f64_is_infinite x \<Longrightarrow> x = (if f64_lt 0 x then F64_INFINITY else F64_NEG_INFINITY)"
proof -
  assume inf: "f64_is_infinite x"
  have u: "unat x = f64_inf_mag + (if f64_neg x then 2 ^ 63 else 0)"
    using inf unat_u64_bound [of x]
    by (auto simp: f64_is_infinite_def f64_mag_def f64_neg_def mod_if split: if_splits)
  have pos: "f64_lt 0 x \<longleftrightarrow> \<not> f64_neg x"
    using inf by (simp add: f64_lt_def f64_ord_def f64_is_infinite_def f64_is_nan_def f64_inf_mag_def
        f64_mag_def f64_neg_def)
  have "unat F64_INFINITY = f64_inf_mag" "unat F64_NEG_INFINITY = f64_inf_mag + 2 ^ 63"
    by (simp_all add: F64_INFINITY_def F64_NEG_INFINITY_def f64_inf_mag_def)
  then show ?thesis using u pos by (auto simp: word_eq_iff_unsigned [where ?'a = nat])
qed

lemma double_words [simp]:
  "lit ''inf'' = [105, 110, 102]" "lit ''+inf'' = [43, 105, 110, 102]"
  "lit ''-inf'' = [45, 105, 110, 102]" "lit ''nan'' = [110, 97, 110]" "lit ''-nan'' = [45, 110, 97, 110]"
  by (simp_all add: lit_def)

lemma finite_text:
  assumes "float_text_ok T" "f64_is_finite x"
  shows "crlf_free (fmt_f64 T x)" "utf8_valid (fmt_f64 T x)" "110 \<notin> set (fmt_f64 T x)"
proof -
  have b: "b \<noteq> CR \<and> b < 0x80 \<and> b \<noteq> 110" if "b \<in> set (fmt_f64 T x)" for b
  proof -
    have "digit b \<or> b = 45 \<or> b = 46" using assms that by (auto simp: float_text_ok_def)
    then show ?thesis by (auto simp: digit_def CR_def word_le_nat_alt word_less_nat_alt)
  qed
  show "crlf_free (fmt_f64 T x)" using b by (blast intro: crlf_freeI)
  show "utf8_valid (fmt_f64 T x)" using b by (blast intro: utf8_ascii)
  show "110 \<notin> set (fmt_f64 T x)" using b by blast
qed

lemma parse_double_at:
  assumes "float_text_ok T" "f64_is_nan x \<longrightarrow> x = F64_NAN"
  shows "parse_double T (pre @ t # put_double T x @ CRLF @ rest) (Suc (length pre))
       = Inr (Some (Double x, length pre + length (put_double T x) + 3))"
proof -
  consider "f64_is_nan x" | "f64_is_infinite x" "\<not> f64_is_nan x" | "f64_is_finite x" "\<not> f64_is_nan x" "\<not> f64_is_infinite x"
    unfolding f64_is_nan_def f64_is_infinite_def f64_is_finite_def by linarith
  then show ?thesis
  proof cases
    case 1
    have "crlf_free (lit ''nan'')" by (rule crlf_freeI) (simp add: CR_def)
    then show ?thesis using 1 assms(2)
      by (simp add: parse_double_def put_double_def on_line_at [of "lit ''nan''", simplified] str_from_def utf8_ascii)
  next
    case 2
    have "crlf_free (lit ''inf'')" "crlf_free (lit ''-inf'')" by (rule crlf_freeI, simp add: CR_def)+
    then show ?thesis using 2 infinite_cases [OF 2(1)]
      by (cases "f64_lt 0 x") (simp_all add: parse_double_def put_double_def on_line_at [of "lit ''inf''", simplified]
          on_line_at [of "lit ''-inf''", simplified] str_from_def utf8_ascii)
  next
    case 3
    note finite = finite_text [OF assms(1) 3(1)]
    have "parse_f64 T (fmt_f64 T x) = Some x" using assms 3 by (simp add: float_text_ok_def)
    then show ?thesis using 3 finite
      by (auto simp: parse_double_def put_double_def on_line_at str_from_def)
  qed
qed

subsection \<open>Frames\<close>

lemma show_int_minus_one: "show_int (- 1) = [45, 49]"
  by code_simp

lemma short_lines:
  "on_line (pre @ t # CRLF @ rest) (Suc (length pre)) f = f [] (length pre + 3)"
  "on_line (pre @ t # b # CRLF @ rest) (Suc (length pre)) f = f [b] (length pre + 4)"
  "on_header (pre @ t # 45 # 49 # CRLF @ rest) (Suc (length pre)) g = g (- 1) (length pre + 5)"
  using on_line_at [of "[]" pre t rest f] on_line_at [of "[b]" pre t rest f]
    on_header_at [of "- 1" pre t rest g]
  by (simp_all add: crlf_free_def in_i64_def show_int_minus_one add.commute)

lemma parse_frame_encode:
  assumes T: "float_text_ok T" and lim: "limits_fit lim"
  shows "frame_within lim d fr \<Longrightarrow> canonical_nan fr \<Longrightarrow>
     parse_frame T (pre @ encode T v fr @ rest) (length pre) lim d
       = Inr (Some (fr, length pre + length (encode T v fr)))"
proof (induction fr arbitrary: d pre rest)
  case (Array items)
  then show ?case
    using lim parse_aggregate_encoded [of items lim "\<lambda>input pos. parse_frame T input pos lim (Suc d)"
        "encode T v" _ pre 42 rest AggArray]
    by (subst parse_frame.simps) (simp add: nth_append put_int_def)
next
  case (Set items)
  then show ?case
    using lim parse_aggregate_encoded [of items lim "\<lambda>input pos. parse_frame T input pos lim (Suc d)"
        "encode T v" _ pre 126 rest AggSet]
    by (subst parse_frame.simps) (simp add: nth_append put_int_def)
next
  case (Push items)
  then show ?case
    using lim parse_aggregate_encoded [of items lim "\<lambda>input pos. parse_frame T input pos lim (Suc d)"
        "encode T v" _ pre 62 rest AggPush]
    by (subst parse_frame.simps) (simp add: nth_append put_int_def)
next
  case (Map pairs)
  have "parse_frame T (pre' @ encode T v x @ rest') (length pre') lim (Suc d)
      = Inr (Some (x, length pre' + length (encode T v x)))"
    if x: "x \<in> fst ` set pairs \<union> snd ` set pairs" for x pre' rest'
  proof -
    obtain p where "p \<in> set pairs" "x = fst p \<or> x = snd p"
      using x by (elim UnE imageE) blast+
    then show ?thesis using Map.IH [of p x] Map.prems by (auto simp: prod_set_defs)
  qed
  then show ?case
    using Map lim parse_map_encoded [of pairs lim "\<lambda>input pos. parse_frame T input pos lim (Suc d)"
        "encode T v" _ pre 37 rest]
    by (subst parse_frame.simps) (simp add: nth_append put_int_def case_prod_unfold)
next
  case Null
  then show ?case
    by (cases v; subst parse_frame.simps) (simp_all add: nth_append parse_null_def parse_bulk_def short_lines)
next
  case (Double x)
  then show ?case using parse_double_at [OF T]
    by (subst parse_frame.simps) (simp add: nth_append)
next
  case (Boolean b)
  then show ?case
    by (subst parse_frame.simps) (cases b; simp add: nth_append parse_boolean_def short_lines)
next
  case (Verbatim f x)
  let ?body = "fst f # fst (snd f) # snd (snd f) # 58 # x"
  have len: "int (length ?body) = int (3 + 1 + length x)" by simp
  have "parse_verbatim (pre @ encode T v (Verbatim f x) @ rest) (Suc (length pre)) lim
      = Inr (Some (Verbatim f x, length pre + length (encode T v (Verbatim f x))))"
    using Verbatim lim parse_verbatim_at [of ?body lim pre 61 rest] unfolding len
    by (simp add: put_int_def)
  then show ?case using Verbatim by (subst parse_frame.simps) (simp add: nth_append)
qed (subst parse_frame.simps; use lim in
      \<open>simp add: nth_append text_line_def on_line_at str_from_def parse_integer_def put_int_def on_header_at parse_bulk_at\<close>)+

subsection \<open>Every decoded frame is within the limits\<close>

lemma on_line_value:
  assumes "on_line input start f = Inr (Some r)"
  obtains line m where "crlf_free line" "f line m = Inr (Some r)"
  using assms read_line_crlf_free [of input start]
  by (auto simp: on_line_def split: option.splits prod.splits)

lemma parse_i64_range: "parse_i64 bs = Inr n \<Longrightarrow> in_i64 n"
  by (auto simp: parse_i64_def i64_from_str_def Let_def split: sum.splits option.splits if_splits)

lemma on_header_value:
  assumes "on_header input start f = Inr (Some r)"
  obtains i m where "in_i64 i" "f i m = Inr (Some r)"
  using assms unfolding on_header_def
  by (elim on_line_value) (auto split: sum.splits dest: parse_i64_range)

lemma parse_n_value:
  "parse_n f k pos acc = Inr (Some (xs, n)) \<Longrightarrow>
     \<exists>ys. xs = acc @ ys \<and> length ys = k \<and> (\<forall>y \<in> set ys. \<exists>q m. f q = Inr (Some (y, m)))"
proof (induction k arbitrary: pos acc)
  case (Suc k)
  then obtain x q where x: "f pos = Inr (Some (x, q))" "parse_n f k q (acc @ [x]) = Inr (Some (xs, n))"
    by (auto split: sum.splits option.splits)
  then obtain ys where "xs = (acc @ [x]) @ ys" "length ys = k"
      "\<forall>y \<in> set ys. \<exists>q m. f q = Inr (Some (y, m))"
    using Suc.IH by blast
  then show ?case using x by (intro exI [of _ "x # ys"]) auto
qed simp

lemma length_slice_le: "length (slice xs a b) \<le> b - a"
  by (simp add: slice_def)

lemma parse_bulk_within:
  assumes "parse_bulk input pos lim is_error = Inr (Some (fr, n))" "d \<le> max_depth lim"
  shows "frame_within lim d fr"
proof -
  have "length (slice input m (m + nat len)) \<le> max_bulk_len lim" if "nat len \<le> max_bulk_len lim" for m len
    using length_slice_le [of input m "m + nat len"] that by simp
  then show ?thesis using assms unfolding parse_bulk_def
    by (elim on_header_value) (auto simp: Let_def str_from_def split: if_splits)
qed

lemma parse_verbatim_within:
  assumes "parse_verbatim input pos lim = Inr (Some (fr, n))" "d \<le> max_depth lim"
  shows "frame_within lim d fr"
proof -
  have "4 + length (drop 4 (slice input m (m + nat len))) \<le> max_bulk_len lim"
    if "nat len \<le> max_bulk_len lim" "\<not> len < 4" for m len
    using length_slice_le [of input m "m + nat len"] that by simp
  then show ?thesis using assms unfolding parse_verbatim_def
    by (elim on_header_value) (auto simp: Let_def split: if_splits)
qed

lemma parse_aggregate_within:
  assumes "\<And>q x m. elem q = Inr (Some (x, m)) \<Longrightarrow> frame_within lim (Suc d) x"
    and "parse_aggregate elem input pos lim kind = Inr (Some (fr, n))" "d \<le> max_depth lim"
  shows "frame_within lim d fr"
  using assms(2) unfolding parse_aggregate_def
proof (elim on_header_value)
  fix count p
  assume p: "(if count = - 1 then if kind = AggArray then Inr (Some (Null, p))
           else Inl (Malformed (lit ''negative aggregate length''))
     else if count < 0 then Inl (Malformed (lit ''negative aggregate length''))
     else if max_array_len lim < nat count
     then Inl (LimitExceeded (lit ''aggregate length '' @ show_int count @ lit '' exceeds limit ''
            @ show_nat (max_array_len lim)))
     else case parse_n elem (nat count) p [] of Inl x \<Rightarrow> Inl x | Inr None \<Rightarrow> Inr None
          | Inr (Some (items, p)) \<Rightarrow> Inr (Some (agg_frame kind items, p))) = Inr (Some (fr, n))"
  show ?thesis
  proof (cases "count = - 1")
    case False
    then obtain items where "parse_n elem (nat count) p [] = Inr (Some (items, n))"
        "fr = agg_frame kind items" "nat count \<le> max_array_len lim"
      using p by (auto split: if_splits sum.splits option.splits)
    then show ?thesis using assms(1,3) parse_n_value [of elem "nat count" p "[]" items n]
      by (cases kind) fastforce+
  qed (use p assms(3) in \<open>auto split: if_splits\<close>)
qed

lemma parse_map_within:
  assumes "\<And>q x m. elem q = Inr (Some (x, m)) \<Longrightarrow> frame_within lim (Suc d) x"
    and "parse_map elem input pos lim = Inr (Some (fr, n))" "d \<le> max_depth lim"
  shows "frame_within lim d fr"
  using assms(2) unfolding parse_map_def
proof (elim on_header_value)
  fix count p
  assume p: "(if count < 0 then Inl (Malformed (lit ''negative map length''))
     else if max_array_len lim < nat count
     then Inl (LimitExceeded (lit ''map length '' @ show_int count @ lit '' exceeds limit ''
            @ show_nat (max_array_len lim)))
     else case parse_n (parse_pair elem) (nat count) p [] of Inl x \<Rightarrow> Inl x | Inr None \<Rightarrow> Inr None
          | Inr (Some (pairs, p)) \<Rightarrow> Inr (Some (Map pairs, p))) = Inr (Some (fr, n))"
  have pair: "parse_pair elem q = Inr (Some (x, m)) \<Longrightarrow>
      frame_within lim (Suc d) (fst x) \<and> frame_within lim (Suc d) (snd x)" for q x m
    using assms(1) by (auto simp: parse_pair_def split: sum.splits option.splits)
  obtain pairs where "parse_n (parse_pair elem) (nat count) p [] = Inr (Some (pairs, n))"
      "fr = Map pairs" "nat count \<le> max_array_len lim"
    using p by (auto split: if_splits sum.splits option.splits)
  then show ?thesis using assms(3) pair parse_n_value [of "parse_pair elem" "nat count" p "[]" pairs n]
    by fastforce
qed

lemma parse_frame_within:
  "parse_frame T input pos lim d = Inr (Some (fr, n)) \<Longrightarrow> frame_within lim d fr"
proof (induction "Suc (max_depth lim) - d" arbitrary: d pos fr n)
  case 0
  then show ?case by (simp add: parse_frame.simps)
next
  case (Suc k)
  let ?elem = "\<lambda>q. parse_frame T input q lim (Suc d)"
  have elem: "?elem q = Inr (Some (x, m)) \<Longrightarrow> frame_within lim (Suc d) x" for q x m
    using Suc(2) by (intro Suc(1)) simp_all
  have d: "d \<le> max_depth lim" using Suc(2) by simp
  have agg: "parse_aggregate ?elem input q lim kind = Inr (Some (x, m)) \<Longrightarrow> frame_within lim d x"
    for q kind x m by (rule parse_aggregate_within [OF elem _ d])
  have mp: "parse_map ?elem input q lim = Inr (Some (x, m)) \<Longrightarrow> frame_within lim d x"
    for q x m by (rule parse_map_within [OF elem _ d])
  show ?case using Suc(3) d
    by (subst (asm) parse_frame.simps)
      (auto simp: Let_def text_line_def parse_integer_def parse_null_def parse_boolean_def
        parse_double_def str_from_def split: if_splits sum.splits option.splits
        elim!: on_line_value on_header_value
        dest: parse_bulk_within [OF _ d] parse_verbatim_within [OF _ d] agg mp)
qed

end
