(* ===== verification/Resp_Correct.thy ===== *)
theory Resp_Correct
  imports Resp_Roundtrip
begin

text \<open>
  The correctness of the wire protocol: the decoder inverts the encoder, is insensitive to how the
  bytes are fragmented, and keeps every decoded value within the configured limits; client requests
  are read back exactly; the inline tokenizer can express every argument.  The one place where
  fragmentation does show (the length check of a partial inline command) is stated too.
\<close>

subsection \<open>Requests\<close>

lemma parse_arg_at:
  assumes "length payload \<le> max_bulk_len lim" "limits_fit lim"
  shows "parse_arg (pre @ 36 # show_int (int (length payload)) @ CRLF @ payload @ CRLF @ rest) lim (length pre)
       = Inr (Some (payload, length pre + length (show_int (int (length payload))) + 3 + length payload + 2))"
proof -
  have "in_i64 (int (length payload))" using assms by (simp add: in_i64_def limits_fit_def)
  then show ?thesis
    using assms payload_at [of pre 36 "show_int (int (length payload))" payload rest]
    by (simp add: parse_arg_def on_header_at Let_def nth_append)
qed

lemma on_header_front:
  "in_i64 n \<Longrightarrow> on_header (t # show_int n @ CRLF @ rest) (Suc 0) f = f n (length (show_int n) + 3)"
  using on_header_at [of n "[]" t rest f] by simp

lemma parse_multibulk_encode:
  assumes "length args \<le> max_array_len lim" "\<forall>a \<in> set args. length a \<le> max_bulk_len lim" "limits_fit lim"
  shows "parse_multibulk (encode T v (Array (map Bulk args)) @ rest) lim
       = Inr (Some (args, length (encode T v (Array (map Bulk args)))))"
proof -
  let ?enc = "\<lambda>a. encode T v (Bulk a)"
  let ?hdr = "42 # show_int (int (length args)) @ CRLF"
  let ?input = "?hdr @ concat (map ?enc args) @ rest"
  have "parse_n (parse_arg ?input lim) (length args) (length ?hdr) []
      = Inr (Some ([] @ args, length ?hdr + length (concat (map ?enc args))))"
  proof (rule parse_n_concat [where enc = ?enc and input = ?input])
    fix a pre' rest' assume "a \<in> set args" "pre' @ ?enc a @ rest' = ?input"
    then show "parse_arg ?input lim (length pre') = Inr (Some (a, length pre' + length (?enc a)))"
      using assms parse_arg_at [of a lim pre' rest'] by (simp add: put_int_def flip: \<open>pre' @ ?enc a @ rest' = ?input\<close>)
  qed simp
  moreover have hdr: "length ?hdr = length (show_int (int (length args))) + 3" by simp
  moreover have "in_i64 (int (length args))" using assms by (simp add: in_i64_def limits_fit_def)
  moreover have enc: "encode T v (Array (map Bulk args)) = ?hdr @ concat (map ?enc args)"
    by (simp add: put_int_def comp_def)
  ultimately have "parse_multibulk ?input lim = Inr (Some (args, length ?hdr + length (concat (map ?enc args))))"
    using assms(1) unfolding hdr parse_multibulk_def
    by (cases "args = []") (simp_all add: on_header_front del: encode.simps)
  then show ?thesis unfolding enc by (simp del: encode.simps)
qed

lemma decode_command_stable:
  assumes "decode_command a lim = (r, rest)" "r \<noteq> Inr None" "a ! 0 = 42 \<or> read_line a 0 \<noteq> None"
  shows "decode_command (a @ b) lim = (r, rest @ b)"
proof (cases "a = []")
  case True
  then show ?thesis using assms by (simp add: decode_command_def)
next
  case False
  show ?thesis
  proof (cases "a ! 0 = 42")
    case True
    then have "parse_multibulk a lim \<noteq> Inr None"
      using assms False by (auto simp: decode_command_def)
    then show ?thesis
      using assms True False parse_multibulk_stable [of a lim b] parse_multibulk_bounded [of a lim]
      by (auto simp: decode_command_def nth_append split: sum.splits option.splits)
  next
    case inline: False
    then obtain line n where "read_line a 0 = Some (line, n)" using assms(3) by auto
    then show ?thesis
      using assms inline False read_line_append [of a 0 "(line, n)" b] read_line_bounds [of a 0 line n]
      by (auto simp: decode_command_def nth_append split: sum.splits if_splits)
  qed
qed

lemma decode_command_shrinks:
  "decode_command a lim = (Inr (Some args), rest) \<Longrightarrow> \<exists>n. 0 < n \<and> n \<le> length a \<and> rest = drop n a"
proof (cases "a ! 0 = 42")
  case True
  assume "decode_command a lim = (Inr (Some args), rest)"
  then show ?thesis using True
    by (auto simp: decode_command_def split: if_splits sum.splits option.splits dest: parse_multibulk_bounded)
next
  case False
  assume a: "decode_command a lim = (Inr (Some args), rest)"
  then obtain line n where "read_line a 0 = Some (line, n)" "rest = drop n a"
    using False by (auto simp: decode_command_def split: if_splits sum.splits option.splits)
  then show ?thesis using read_line_bounds [of a 0 line n] by (intro exI [of _ n]) simp
qed

subsection \<open>Inline commands\<close>

text \<open>Every byte as \<open>\xhh\<close>, the argument in double quotes, a space after it.\<close>

definition inline_quote :: "bytes \<Rightarrow> bytes" where
  "inline_quote b = 34 # concat (map (\<lambda>c. 92 # 120 # hex02 c) b) @ [34]"

definition inline_line :: "bytes list \<Rightarrow> bytes" where
  "inline_line args = concat (map (\<lambda>a. inline_quote a @ [32]) args)"

lemma hex_digit_ok:
  assumes "n < 16"
  shows "is_hex (hex_digit n)" "hex_val (hex_digit n) = of_nat n" "hex_digit n \<noteq> CR"
proof -
  have "n \<in> set [0..<16]" using assms by simp
  then have "is_hex (hex_digit n) \<and> hex_val (hex_digit n) = of_nat n \<and> hex_digit n \<noteq> CR"
    by (simp add: upt_rec hex_digit_def is_hex_def hex_val_def CR_def) (elim disjE; simp)
  then show "is_hex (hex_digit n)" "hex_val (hex_digit n) = of_nat n" "hex_digit n \<noteq> CR" by auto
qed

lemma hex_byte: "push_bit 4 (of_nat (unat c div 16)) OR of_nat (unat c mod 16) = (c :: byte)"
proof -
  have "unat c div 16 < 2 ^ 8" "unat c mod 16 < 2 ^ 8" using unat_byte_bound [of c] by simp_all
  then have "of_nat (unat c div 16) = drop_bit 4 c" "of_nat (unat c mod 16) = take_bit 4 c"
    by (simp_all add: word_eq_iff_unsigned [where ?'a = nat] unat_div_distrib unat_mod_distrib
        drop_bit_eq_div take_bit_eq_mod unat_of_nat_byte)
  then show ?thesis by (simp only:) (rule bit_word_eqI, auto simp: bit_simps)
qed

lemma unescape_hex: "unescape_double (120 # hex02 c @ rest) = (c, 3)"
proof -
  have "unat c div 16 < 16" using unat_byte_bound [of c] by simp
  then show ?thesis
    using hex_digit_ok [of "unat c div 16"] hex_digit_ok [of "unat c mod 16"] hex_byte [of c]
    by (simp add: unescape_double_def hex02_def Let_def)
qed

lemma double_quoted_escapes:
  "double_quoted (concat (map (\<lambda>c. 92 # 120 # hex02 c) b) @ 34 # rest) cur = close_quote (cur @ b) rest"
proof (induction b arbitrary: cur)
  case (Cons c b)
  have "length (hex02 c) = 2" by (simp add: hex02_def)
  then show ?case using Cons [of "cur @ [c]"]
      unescape_hex [of c "concat (map (\<lambda>c. 92 # 120 # hex02 c) b) @ 34 # rest"]
    by simp
qed simp

lemma split_inline_line: "split_inline_from (inline_line args) acc = Inr (acc @ args)"
proof (induction args arbitrary: acc)
  case Nil
  then show ?case by (simp add: inline_line_def split_inline_from.simps)
next
  case (Cons a args)
  have sp: "is_space 32" "\<not> is_space 34" by (simp_all add: is_space_def)
  have "split_inline_from (32 # inline_line args) acc' = split_inline_from (inline_line args) acc'" for acc'
    using sp by (subst (1 2) split_inline_from.simps) simp
  then show ?case using Cons [of "acc @ [a]"] sp
      double_quoted_escapes [of a "32 # inline_line args" "[]"]
    by (subst split_inline_from.simps)
      (simp add: inline_line_def inline_quote_def next_token_def close_quote_def Let_def)
qed

lemma inline_line_plain: "b \<in> set (inline_line args) \<Longrightarrow> b \<noteq> CR"
proof -
  assume "b \<in> set (inline_line args)"
  then consider "b = 34" | "b = 92" | "b = 120" | "b = 32" | c where "b \<in> set (hex02 c)"
    by (auto simp: inline_line_def inline_quote_def split: if_splits)
  then show ?thesis
  proof cases
    case 5
    moreover have "unat c div 16 < 16" using unat_byte_bound [of c] by simp
    ultimately show ?thesis
      using hex_digit_ok(3) [of "unat c div 16"] hex_digit_ok(3) [of "unat c mod 16"]
      by (auto simp: hex02_def)
  qed (simp_all add: CR_def)
qed

lemma inline_line_not_multibulk: "(inline_line args @ CRLF @ rest) ! 0 \<noteq> 42"
  by (cases args) (simp_all add: inline_line_def inline_quote_def CRLF_def CR_def)

subsection \<open>A concrete float formatter\<close>

text \<open>
  Writes the bit pattern of a double in decimal; with it the assumptions on float formatting hold.
\<close>

definition bits_text :: float_text where
  "bits_text = \<lparr>fmt_f64 = (\<lambda>x. show_nat (unat x)), parse_f64 = (\<lambda>s. Some (of_nat (digits_value s)))\<rparr>"

lemma bits_text_ok: "float_text_ok bits_text"
  using show_nat_digits
  by (auto simp: float_text_ok_def bits_text_def digits_value_show_nat)

subsection \<open>Properties\<close>

text \<open>C6: Decoding the encoding of a frame gives the frame back and leaves exactly the bytes after it, in
  both protocol versions, for every frame within the limits: text without a line break, integers
  of 64 bits, any nesting the depth limit allows, every double (with the one NaN of the wire format).\<close>

theorem decode_encode:
  assumes "float_text_ok T" "limits_fit lim" "frame_within lim 0 fr" "canonical_nan fr"
  shows "decode T (encode T v fr @ rest) lim = (Inr (Some fr), rest)"
  using parse_frame_encode [OF assms, of "[]" v rest] by (simp add: decode_def)

theorem decode_encode_witness:
  "decode bits_text (encode bits_text V3
      (Array [Bulk [13, 10, 0], Integer (- 7), Null, Map [(Simple (lit ''k''), Double 0x3FF8000000000000)]]) @ [1, 2])
     default_limits
   = (Inr (Some (Array [Bulk [13, 10, 0], Integer (- 7), Null, Map [(Simple (lit ''k''), Double 0x3FF8000000000000)]])),
      [1, 2])"
  by (rule decode_encode [OF bits_text_ok])
    (simp_all add: limits_fit_def default_limits_def in_i64_def lit_def crlf_free_def
      f64_is_nan_def f64_mag_def f64_inf_mag_def)

text \<open>C9: Fragmentation does not matter to the frame decoder: while it asks for more input it consumes
  nothing, an answer it has given (a frame or an error) stays the same whatever bytes follow, and a
  frame that has not arrived completely is never an error.\<close>

theorem decode_fragmentation:
  "(decode T a lim = (Inr None, a)
     \<or> decode T (a @ b) lim = (fst (decode T a lim), snd (decode T a lim) @ b))
   \<and> (decode T m lim = (Inr (Some fr), []) \<and> k < length m
      \<longrightarrow> decode T (take k m) lim = (Inr None, take k m))"
proof (intro conjI impI)
  show "decode T a lim = (Inr None, a)
     \<or> decode T (a @ b) lim = (fst (decode T a lim), snd (decode T a lim) @ b)"
    using parse_frame_stable [of T a 0 lim 0 b] parse_frame_bounded [of T a 0 lim 0]
    by (auto simp: decode_def split: sum.splits option.splits)
next
  assume m: "decode T m lim = (Inr (Some fr), []) \<and> k < length m"
  then obtain n where "parse_frame T m 0 lim 0 = Inr (Some (fr, n))" "length m \<le> n"
    by (auto simp: decode_def split: sum.splits option.splits)
  then have "parse_frame T (take k m) 0 lim 0 = Inr None"
    using m parse_frame.cut_short [of T m 0 lim 0 fr n k] by simp
  then show "decode T (take k m) lim = (Inr None, take k m)" by (simp add: decode_def)
qed

lemma decode_bulk_demo:
  "decode bits_text (encode bits_text V2 (Bulk [120])) default_limits = (Inr (Some (Bulk [120])), [])"
  using parse_frame_encode [OF bits_text_ok, of default_limits 0 "Bulk [120]" "[]" V2 "[]"]
  by (simp add: decode_def limits_fit_def default_limits_def del: encode.simps)

theorem decode_fragmentation_witness:
  "decode bits_text (take 4 (encode bits_text V2 (Bulk [120]))) default_limits
   = (Inr None, take 4 (encode bits_text V2 (Bulk [120])))"
proof -
  have "4 < length (encode bits_text V2 (Bulk [120]))" by simp
  then show ?thesis
    using decode_fragmentation [of bits_text "[]" default_limits "[]"
        "encode bits_text V2 (Bulk [120])" "Bulk [120]" 4] decode_bulk_demo
    by (simp del: encode.simps)
qed

text \<open>C35: Whatever bytes arrive, a decoded frame is within the bounds the code enforces (payload lengths, items
  of an array, set or push, pairs of a map, nesting depth, integer range, valid UTF-8 text with no line
  break), and the bytes it was read from, at least one, are removed from the front of the buffer.  For maps the
  bound is on the pairs: a map of \<open>max_array_len\<close> pairs, twice as many elements, is accepted, where the
  documentation of \<open>Limits\<close> counts two for each pair.\<close>

theorem decode_within_limits:
  assumes "decode T buf lim = (Inr (Some fr), rest)"
  shows "frame_within lim 0 fr \<and> (\<exists>n. 0 < n \<and> n \<le> length buf \<and> rest = drop n buf)
    \<and> (float_text_ok T \<and> limits_fit lim \<and> 1 \<le> max_depth lim \<longrightarrow>
        (let big = Map (replicate (max_array_len lim) (Integer 0, Null))
         in decode T (encode T V3 big @ after) lim = (Inr (Some big), after)))"
proof -
  have "decode T (encode T V3 big @ after) lim = (Inr (Some big), after)"
    if "float_text_ok T" "limits_fit lim" "1 \<le> max_depth lim" "big = Map (replicate (max_array_len lim) (Integer 0, Null))" for big
  proof -
    have "frame_within lim 0 big" "canonical_nan big" using that(3,4) by (simp_all add: in_i64_def)
    from parse_frame_encode [OF that(1,2) this, of "[]" V3 after] show ?thesis by (simp add: decode_def del: encode.simps)
  qed
  then show ?thesis
    using assms parse_frame_within [of T buf 0 lim 0 fr] parse_frame_bounded [of T buf 0 lim 0 fr]
    by (auto simp: decode_def Let_def simp del: encode.simps split: sum.splits option.splits)
qed

theorem decode_within_limits_witness:
  "frame_within default_limits 0 (Bulk [120])
    \<and> decode bits_text (encode bits_text V3 (Map (replicate (1024 * 1024) (Integer 0, Null)))) default_limits
      = (Inr (Some (Map (replicate (1024 * 1024) (Integer 0, Null)))), [])"
  using decode_within_limits [OF decode_bulk_demo, of "[]"] bits_text_ok
  by (simp add: default_limits_def limits_fit_def Let_def del: encode.simps frame_within.simps)

text \<open>A client request, an array of bulk strings, is read back exactly as its arguments, and until
  its last byte has arrived the server asks for more without consuming anything.\<close>

theorem request_decode:
  assumes "length args \<le> max_array_len lim" "\<forall>a \<in> set args. length a \<le> max_bulk_len lim" "limits_fit lim"
  shows "decode_command (encode T v (Array (map Bulk args)) @ rest) lim = (Inr (Some args), rest)
    \<and> (\<forall>k < length (encode T v (Array (map Bulk args))).
         decode_command (take k (encode T v (Array (map Bulk args)))) lim
           = (Inr None, take k (encode T v (Array (map Bulk args)))))"
proof (intro conjI allI impI)
  let ?m = "encode T v (Array (map Bulk args))"
  have star: "?m ! 0 = 42" "?m \<noteq> []" by simp_all
  have m: "parse_multibulk (?m @ r) lim = Inr (Some (args, length ?m))" for r
    by (rule parse_multibulk_encode [OF assms])
  then show "decode_command (?m @ rest) lim = (Inr (Some args), rest)"
    using star by (simp add: decode_command_def nth_append del: encode.simps)
  fix k assume "k < length ?m"
  then have "parse_multibulk (take k ?m) lim = Inr None"
    using m [of "[]"] parse_multibulk.cut_short [where lim = lim and input = ?m and pos = 0 and m = k] by simp
  then show "decode_command (take k ?m) lim = (Inr None, take k ?m)"
    using star by (cases k) (simp_all add: decode_command_def del: encode.simps)
qed

theorem request_decode_witness:
  "decode_command (encode bits_text V2 (Array (map Bulk [lit ''GET'', lit ''k''])) @ [42]) default_limits
   = (Inr (Some [lit ''GET'', lit ''k'']), [42])"
  using request_decode [of "[lit ''GET'', lit ''k'']" default_limits bits_text V2 "[42]"]
  by (simp add: default_limits_def limits_fit_def lit_def del: encode.simps)

text \<open>The inline syntax can express any request: arguments of arbitrary bytes, written as quoted
  strings of hexadecimal escapes on one line, are read back exactly.\<close>

theorem inline_decode:
  assumes "length (inline_line args) \<le> max_inline_len lim"
  shows "decode_command (inline_line args @ CRLF @ rest) lim = (Inr (Some args), rest)"
proof -
  have "read_line (inline_line args @ CRLF @ rest) 0 = Some (inline_line args, length (inline_line args) + 2)"
    using read_line_found [of "inline_line args" "[]" rest] inline_line_plain crlf_freeI by force
  then show ?thesis
    using assms inline_line_not_multibulk [of args rest] split_inline_line [of args "[]"]
    by (simp add: decode_command_def split_inline_def CRLF_def)
qed

theorem inline_decode_witness:
  "decode_command (inline_line [lit ''SET'', [0, 34, 13]] @ CRLF @ []) default_limits
   = (Inr (Some [lit ''SET'', [0, 34, 13]]), [])"
proof (rule inline_decode)
  show "length (inline_line [lit ''SET'', [0, 34, 13]]) \<le> max_inline_len default_limits"
    by (simp add: inline_line_def inline_quote_def hex02_def lit_def default_limits_def)
qed

text \<open>C36: An inline command of exactly the maximal length is accepted when its line end arrives with it,
  but refused when the first read ends between CR and LF: the check of a partial line counts the CR.\<close>

theorem inline_limit_fragmentation:
  assumes "length line = max_inline_len lim" "CR \<notin> set line" "line \<noteq> []" "line ! 0 \<noteq> 42"
    and "split_inline line = Inr args"
  shows "decode_command (line @ CRLF) lim = (Inr (Some args), [])
    \<and> (\<exists>e. decode_command (line @ [CR]) lim = (Inl (LimitExceeded e), line @ [CR]))"
proof
  have hd: "(line @ xs) ! 0 = line ! 0" for xs using assms(3) by (cases line) simp_all
  have "read_line (line @ CRLF) 0 = Some (line, length line + 2)"
    using read_line_found [OF crlf_freeI [OF assms(2)], of "[]" "[]"] by simp
  then show "decode_command (line @ CRLF) lim = (Inr (Some args), [])"
    using assms by (simp add: decode_command_def hd)
  have "read_line (line @ [CR]) 0 = None"
  proof (rule ccontr)
    assume "read_line (line @ [CR]) 0 \<noteq> None"
    then obtain r where r: "read_line (line @ [CR]) 0 = Some r" by auto
    then have "read_line (line @ CRLF) 0 = Some r"
      using read_line_append [OF r, of "[LF]"] by (simp add: CRLF_def)
    then have "snd r = length line + 2"
      using read_line_found [OF crlf_freeI [OF assms(2)], of "[]" "[]"] by auto
    then show False using r read_line_bounds [of "line @ [CR]" 0 "fst r" "snd r"] by (cases r) simp
  qed
  then show "\<exists>e. decode_command (line @ [CR]) lim = (Inl (LimitExceeded e), line @ [CR])"
    using assms by (simp add: decode_command_def hd)
qed

theorem inline_limit_fragmentation_witness:
  "\<exists>e. decode_command (lit ''PING'' @ [CR]) (default_limits\<lparr>max_inline_len := 4\<rparr>)
     = (Inl (LimitExceeded e), lit ''PING'' @ [CR])"
proof -
  have "split_inline (lit ''PING'') = Inr [lit ''PING'']"
    by (simp add: split_inline_def split_inline_from.simps lit_def next_token_def is_space_def Let_def)
  then show ?thesis
    using inline_limit_fragmentation [of "lit ''PING''" "default_limits\<lparr>max_inline_len := 4\<rparr>"]
    by (simp add: lit_def CR_def)
qed

end
