(* ===== verification/Commands_Correct.thy ===== *)
theory Commands_Correct
  imports Commands Store_Requests Resp_Correct
begin

text \<open>
  The command layer: the arity table protects every handler from indexing its arguments out of
  range, so dispatch always answers; and a command that reaches the store is answered with the
  rendering of the abstract database's reply.
\<close>

subsection \<open>Names\<close>

lemma unat_of_char: "unat (of_char c :: byte) = of_char c"
  by (simp add: of_char_def)

lemma lit_inject [simp]: "lit s = lit t \<longleftrightarrow> s = t"
proof -
  have "inj (of_char :: char \<Rightarrow> byte)"
    by (rule injI) (metis of_char_eq_iff unat_of_char)
  then show ?thesis by (simp add: lit_def inj_map_eq_map)
qed

subsection \<open>Handlers answer whenever the arity fits\<close>

named_theorems answering

definition answers :: "int \<Rightarrow> 'e handler \<Rightarrow> bool" where
  "answers ar h \<longleftrightarrow> (\<forall>v args s. arity_matches ar (length args) \<longrightarrow> h v args s \<noteq> None)"

definition registry_answers :: "'e registry \<Rightarrow> bool" where
  "registry_answers reg \<longleftrightarrow> (\<forall>nm spec. reg nm = Some spec \<longrightarrow> answers (arity spec) (handler spec))"

lemma answersI: "(\<And>v args s. arity_matches ar (length args) \<Longrightarrow> h v args s \<noteq> None) \<Longrightarrow> answers ar h"
  by (simp add: answers_def)

lemma with_arg_some: "i < length args \<Longrightarrow> with_arg args i f = f (args ! i)"
  by (simp add: with_arg_def)

lemma args_from_some: "n \<le> length args \<Longrightarrow> args_from args n f = f (drop n args)"
  by (simp add: args_from_def)

lemmas arg_simps = arity_matches_def with_arg_some args_from_some

lemma connectivity_answers [answering]: "answers (- 1) cmd_ping" "answers 2 cmd_echo"
  by (rule answersI; simp add: arg_simps cmd_ping_def cmd_echo_def)+

lemma string_answers [answering]:
  "answers (- 3) (cmd_set E)" "answers 2 (cmd_get E)" "answers (- 2) (cmd_del E)"
  "answers (- 2) (cmd_exists E)" "answers 2 (cmd_type E)" "answers 3 (cmd_expire E)"
  "answers 3 (cmd_pexpire E)" "answers 2 (cmd_ttl E)" "answers 2 (cmd_pttl E)"
  by (rule answersI; auto simp: arg_simps cmd_set_def cmd_get_def cmd_del_def cmd_exists_def cmd_type_def
      cmd_expire_def cmd_pexpire_def expire_generic_def cmd_ttl_def cmd_pttl_def Let_def
      split: sum.splits option.splits prod.splits)+

lemma hash_answers [answering]:
  "answers (- 4) (cmd_hset E)" "answers 3 (cmd_hget E)" "answers (- 3) (cmd_hmget E)"
  "answers 2 (cmd_hgetall E)" "answers (- 3) (cmd_hdel E)" "answers 2 (cmd_hlen E)" "answers 3 (cmd_hexists E)"
  by (rule answersI; auto simp: arg_simps cmd_hset_def cmd_hget_def cmd_hmget_def cmd_hgetall_def
      cmd_hdel_def cmd_hlen_def cmd_hexists_def Let_def simp del: length_greater_0_conv)+

lemma set_answers [answering]:
  "answers (- 3) (cmd_sadd E)" "answers (- 3) (cmd_srem E)" "answers 3 (cmd_sismember E)"
  "answers 2 (cmd_smembers E)" "answers 2 (cmd_scard E)"
  by (rule answersI; simp add: arg_simps cmd_sadd_def cmd_srem_def cmd_sismember_def
      cmd_smembers_def cmd_scard_def)+

lemma zset_answers [answering]:
  "answers (- 4) (cmd_zadd E T)" "answers 3 (cmd_zscore E T)" "answers (- 4) (cmd_zrange E T)"
  "answers (- 4) (cmd_zrangebyscore E T)" "answers (- 3) (cmd_zrem E)" "answers 2 (cmd_zcard E)"
  by (rule answersI; auto simp: arg_simps cmd_zadd_def cmd_zscore_def cmd_zrange_def
      cmd_zrangebyscore_def cmd_zrem_def cmd_zcard_def split: option.splits)+

lemma list_answers [answering]:
  "answers (- 3) (cmd_push E)" "answers (- 2) (cmd_pop E)" "answers 4 (cmd_lrange E)" "answers 2 (cmd_llen E)"
  by (rule answersI; auto simp: arg_simps cmd_push_def cmd_pop_def cmd_lrange_def cmd_llen_def Let_def
      simp del: length_greater_0_conv split: option.splits sum.splits prod.splits)+

lemma admin_answers [answering]:
  "answers 1 (cmd_dbsize E)" "answers 1 (cmd_rawcount E)" "answers 1 (cmd_compact E)"
  by (rule answersI; simp add: cmd_dbsize_def cmd_rawcount_def cmd_compact_def)+

lemma registry_answers_register:
  "registry_answers reg \<Longrightarrow> answers ar h \<Longrightarrow> registry_answers (register nm ar h reg)"
  by (simp add: registry_answers_def register_def)

lemma registry_answers_standard: "registry_answers (registry_standard E T)"
proof -
  have "registry_answers registry_new" by (simp add: registry_answers_def registry_new_def)
  then show ?thesis
    unfolding registry_standard_def register_all_def register_connectivity_def register_string_def
      register_hash_def register_set_def register_zset_def register_list_def register_admin_def
    by simp (intro registry_answers_register answering)
qed

subsection \<open>Replies\<close>

text \<open>A client may spell a command name in any mix of cases.\<close>

definition spells :: "bytes \<Rightarrow> string \<Rightarrow> bool" where
  "spells nm c \<longleftrightarrow> to_ascii_uppercase (from_utf8_lossy nm) = lit c"

lemmas standard_defs = registry_standard_def register_all_def register_connectivity_def
  register_string_def register_hash_def register_set_def register_zset_def register_list_def
  register_admin_def register_def

lemma dispatch_handler:
  assumes "spells nm c" "reg (lit c) = Some spec" "arity_matches (arity spec) (length (nm # args))"
  shows "registry_dispatch reg v (nm # args) s = handler spec v (nm # args) s"
  using assms by (simp add: registry_dispatch_def spells_def)

text \<open>
  \<open>replies\<close>: the dispatched command answers with the rendering of the abstract reply and takes the
  store to one whose database is the abstract result.  \<open>s\<close> is the store the operation starts
  from, \<open>s0\<close> the one dispatched on (they differ where the handler reads the clock first).
\<close>

definition replies ::
  "('e \<Rightarrow> kv) \<Rightarrow> 'e registry \<Rightarrow> resp_version \<Rightarrow> bytes list \<Rightarrow> 'e store \<Rightarrow> 'e store \<Rightarrow> bytes
     \<Rightarrow> 'a aop \<Rightarrow> ('a \<Rightarrow> frame) \<Rightarrow> bool" where
  "replies view reg v args s0 s k spec render \<longleftrightarrow>
     (\<exists>s'. registry_dispatch reg v args s0
         = Some (case fst (spec (live_db view k s)) of Inl e \<Rightarrow> engine_error_frame e | Inr x \<Rightarrow> render x, s')
       \<and> store_ok view s' \<and> db_of view s' = snd (spec (live_db view k s)))"

lemma repliesI:
  assumes "implements view k f spec s"
    and "registry_dispatch reg v args s0 = Some (store_reply f render s)"
  shows "replies view reg v args s0 s k spec render"
  using assms unfolding replies_def implements_iff
  by (intro exI [of _ "snd (f s)"]) (auto simp: store_reply_def split: prod.splits sum.splits)

lemma replies_via:
  assumes "implements view k f spec s" "spells nm c" "reg (lit c) = Some spc"
    and "arity_matches (arity spc) (length (nm # args))"
    and "handler spc v (nm # args) s0 = Some (store_reply f render s)"
  shows "replies view reg v (nm # args) s0 s k spec render"
  using assms by (intro repliesI [OF assms(1)]) (simp add: dispatch_handler)

lemmas handler_simps = arity_matches_def with_arg_def args_from_def Suc_le_eq

lemma count_one_key: "count_keys f [k] 0 s = store_reply (f k) bool_frame s"
  by (auto simp: store_reply_def bool_frame_def split: prod.splits sum.splits bool.splits)

lemma clock_read [simp]:
  "store_ok view (snd (now_ms s)) \<longleftrightarrow> store_ok view s" "version_clock (snd (now_ms s)) = version_clock s"
  by (simp_all add: now_ms_def store_ok_def)

lemma pairs_of_empty: "even (length xs) \<Longrightarrow> pairs_of xs = [] \<longleftrightarrow> xs = []"
  by (cases xs rule: pairs_of.cases) simp_all

lemma even_nonempty: "even (length xs) \<Longrightarrow> xs \<noteq> [] \<Longrightarrow> 2 \<le> length xs"
  by (cases xs; cases "tl xs") auto

lemma parse_pairs_facts:
  "parse_pairs T ps = Some qs \<Longrightarrow> length qs = length ps \<and> (\<forall>q \<in> set qs. \<not> f64_is_nan (fst q))"
proof (induction ps arbitrary: qs)
  case (Cons p ps)
  obtain raw m where p: "p = (raw, m)" by (cases p)
  then obtain x rest where "parse_score T raw = Some x" "parse_pairs T ps = Some rest" "qs = (x, m) # rest"
    using Cons.prems by (auto split: option.splits)
  then show ?case using Cons.IH by (auto simp: parse_score_def split: if_splits option.splits)
qed simp

lemma parse_score_bound_not_nan: "parse_score_bound T raw = Some (x, excl) \<Longrightarrow> \<not> f64_is_nan x"
  by (auto simp: parse_score_bound_def parse_score_def split: if_splits option.splits)

context reliable_engine
begin

lemma reads_reply:
  assumes ok: "store_ok view s" "valid_key k"
  shows "spells nm ''GET'' \<Longrightarrow>
      replies view (registry_standard E T) v [nm, k] s s k (spec_get k) bulk_or_null"
    "spells nm ''TYPE'' \<Longrightarrow>
      replies view (registry_standard E T) v [nm, k] s s k (spec_type k) (\<lambda>t. Simple (lit t))"
    "spells nm ''EXISTS'' \<Longrightarrow>
      replies view (registry_standard E T) v [nm, k] s s k (spec_exists k) bool_frame"
    "spells nm ''HGET'' \<Longrightarrow>
      replies view (registry_standard E T) v [nm, k, f] s s k (spec_hget k f) bulk_or_null"
    "spells nm ''HEXISTS'' \<Longrightarrow>
      replies view (registry_standard E T) v [nm, k, f] s s k (spec_hexists k f) bool_frame"
    "spells nm ''HGETALL'' \<Longrightarrow>
      replies view (registry_standard E T) v [nm, k] s s k (spec_hgetall k) (hgetall_frame v)"
    "spells nm ''HLEN'' \<Longrightarrow>
      replies view (registry_standard E T) v [nm, k] s s k (spec_hlen k) Integer"
    "spells nm ''SISMEMBER'' \<Longrightarrow>
      replies view (registry_standard E T) v [nm, k, f] s s k (spec_sismember k f) bool_frame"
    "spells nm ''SMEMBERS'' \<Longrightarrow>
      replies view (registry_standard E T) v [nm, k] s s k (spec_smembers k) (smembers_frame v)"
    "spells nm ''SCARD'' \<Longrightarrow>
      replies view (registry_standard E T) v [nm, k] s s k (spec_scard k) Integer"
    "spells nm ''ZSCORE'' \<Longrightarrow>
      replies view (registry_standard E T) v [nm, k, f] s s k (spec_zscore k f)
        (\<lambda>r. case r of Some score \<Rightarrow> score_frame T score v | None \<Rightarrow> Null)"
    "spells nm ''ZCARD'' \<Longrightarrow>
      replies view (registry_standard E T) v [nm, k] s s k (spec_zcard k) Integer"
    "spells nm ''LLEN'' \<Longrightarrow>
      replies view (registry_standard E T) v [nm, k] s s k (spec_llen k) Integer"
  by (rule replies_via, rule store_get_implements [OF ok] type_of_implements [OF ok]
        store_exists_implements [OF ok] hget_implements [OF ok] hexists_implements [OF ok]
        hgetall_implements [OF ok] hlen_implements [OF ok] sismember_implements [OF ok]
        smembers_implements [OF ok] scard_implements [OF ok] zscore_implements [OF ok]
        zcard_implements [OF ok] llen_implements [OF ok], assumption, simp add: standard_defs,
      simp_all add: handler_simps count_one_key cmd_get_def cmd_type_def cmd_exists_def cmd_hget_def
        cmd_hexists_def cmd_hgetall_def cmd_hlen_def cmd_sismember_def cmd_smembers_def cmd_scard_def
        cmd_zscore_def cmd_zcard_def cmd_llen_def del: count_keys.simps)+

lemma ranges_reply:
  assumes ok: "store_ok view s" "valid_key k" and i: "arg_i64 a = Some i" "arg_i64 b = Some j"
  shows "spells nm ''LRANGE'' \<Longrightarrow>
      replies view (registry_standard E T) v [nm, k, a, b] s s k (spec_lrange k i j) (\<lambda>xs. Array (map Bulk xs))"
    "spells nm ''ZRANGE'' \<Longrightarrow>
      replies view (registry_standard E T) v [nm, k, a, b] s s k (spec_zrange k i j) (range_reply T False v)"
    "spells nm ''ZRANGE'' \<Longrightarrow> eq_ignore_ascii_case ws (lit ''WITHSCORES'') \<Longrightarrow>
      replies view (registry_standard E T) v [nm, k, a, b, ws] s s k (spec_zrange k i j) (range_reply T True v)"
  by (rule replies_via, rule lrange_implements [OF ok] zrange_implements [OF ok],
      assumption, simp add: standard_defs, simp_all add: handler_simps i cmd_lrange_def cmd_zrange_def)+

lemma score_range_reply:
  assumes ok: "store_ok view s" "valid_key k" and nm: "spells nm ''ZRANGEBYSCORE''"
    and b: "parse_score_bound T a = Some (mn, mne)" "parse_score_bound T b = Some (mx, mxe)"
    and opts: "zrbs_options rest False None = Some (ws, limit)"
  shows "replies view (registry_standard E T) v (nm # k # a # b # rest) s s k
      (spec_zrange_by_score k mn mne mx mxe) (\<lambda>xs. range_reply T ws v (apply_limit limit xs))"
  by (rule replies_via [OF zrange_by_score_implements [OF ok b [THEN parse_score_bound_not_nan]] nm],
      simp add: standard_defs, simp_all add: handler_simps b opts cmd_zrangebyscore_def)

lemma removals_reply:
  assumes ok: "store_ok view s" "valid_key k" and ms: "ms \<noteq> []"
  shows "spells nm ''DEL'' \<Longrightarrow>
      replies view (registry_standard E T) v [nm, k] s s k (spec_del k) bool_frame"
    "spells nm ''HDEL'' \<Longrightarrow> distinct ms \<Longrightarrow>
      replies view (registry_standard E T) v (nm # k # ms) s s k (spec_hdel k ms) Integer"
    "spells nm ''SREM'' \<Longrightarrow>
      replies view (registry_standard E T) v (nm # k # ms) s s k (spec_srem k ms) Integer"
    "spells nm ''ZREM'' \<Longrightarrow>
      replies view (registry_standard E T) v (nm # k # ms) s s k (spec_zrem k ms) Integer"
  by (rule replies_via, (rule store_del_implements [OF ok] hdel_implements [OF ok]
        srem_implements [OF ok] zrem_implements [OF ok], assumption?), assumption?, simp add: standard_defs,
      simp_all add: handler_simps ms count_one_key cmd_del_def cmd_hdel_def cmd_srem_def cmd_zrem_def
        del: count_keys.simps)+

lemma additions_reply:
  assumes ok: "store_ok view s" "valid_key k" "version_clock s \<noteq> - 1"
  shows "spells nm ''SET'' \<Longrightarrow>
      replies view (registry_standard E T) v [nm, k, x] s s k (spec_set k x 0) (\<lambda>_. frame_ok)"
    "spells nm ''SADD'' \<Longrightarrow> ms \<noteq> [] \<Longrightarrow> elements (live_db view k s) k + length ms < 2 ^ 32 \<Longrightarrow>
      replies view (registry_standard E T) v (nm # k # ms) s s k (spec_sadd k ms) Integer"
    "spells nm ''HSET'' \<Longrightarrow> \<not> eq_ignore_ascii_case nm (lit ''HMSET'') \<Longrightarrow> fvs \<noteq> [] \<Longrightarrow> even (length fvs) \<Longrightarrow>
      distinct (map fst (pairs_of fvs)) \<Longrightarrow>
      elements (live_db view k s) k + length (pairs_of fvs) < 2 ^ 32 \<Longrightarrow>
      replies view (registry_standard E T) v (nm # k # fvs) s s k (spec_hset k (pairs_of fvs)) Integer"
    "spells nm ''ZADD'' \<Longrightarrow> fvs \<noteq> [] \<Longrightarrow> even (length fvs) \<Longrightarrow>
      \<forall>f \<in> set zadd_flags. \<not> eq_ignore_ascii_case (hd fvs) f \<Longrightarrow>
      parse_pairs T (pairs_of fvs) = Some ps \<Longrightarrow>
      elements (live_db view k s) k + length ps < 2 ^ 32 \<Longrightarrow>
      replies view (registry_standard E T) v (nm # k # fvs) s s k (spec_zadd k ps) Integer"
    "spells nm (if left then ''LPUSH'' else ''RPUSH'') \<Longrightarrow> eq_ignore_ascii_case nm (lit ''LPUSH'') = left \<Longrightarrow>
      ms \<noteq> [] \<Longrightarrow> list_room view s k (length ms) left \<Longrightarrow>
      replies view (registry_standard E T) v (nm # k # ms) s s k (spec_push k ms left) Integer"
proof goal_cases
  case 1
  show ?case by (rule replies_via [OF store_set_implements [OF ok] 1], simp add: standard_defs,
      simp_all add: handler_simps cmd_set_def)
next
  case 2
  note b = elements_bound [OF 2(3)]
  show ?case by (rule replies_via [OF sadd_implements [OF ok 2(2) b(1) b(3)] 2(1)], assumption,
      simp add: standard_defs, simp_all add: handler_simps 2 cmd_sadd_def)
next
  case 3
  note b = elements_bound [OF 3(6)]
  have "pairs_of fvs \<noteq> []" using 3 pairs_of_empty by simp
  note h = hset_implements [OF ok this 3(5) b(1) b(2)]
  show ?case by (rule replies_via [OF h 3(1)], assumption, simp add: standard_defs,
      use 3 even_nonempty [OF 3(4,3)] in \<open>simp_all add: handler_simps cmd_hset_def Let_def even_iff_mod_2_eq_zero\<close>)
next
  case 4
  note b = elements_bound [OF 4(6)] and p = parse_pairs_facts [OF 4(5)]
  have "ps \<noteq> []" using 4 p pairs_of_empty by fastforce
  note z = zadd_implements [OF ok this _ b(1) b(4)]
  show ?case by (rule replies_via [OF z 4(1)], use p in simp, assumption, simp add: standard_defs,
      use 4 even_nonempty [OF 4(3,2)] in \<open>simp_all add: handler_simps cmd_zadd_def even_iff_mod_2_eq_zero hd_conv_nth\<close>)
next
  case 5
  note p = push_implements [OF ok 5(3,4)]
  show ?case
  proof (cases left)
    case True
    then have "spells nm ''LPUSH''" using 5(1) by simp
    then show ?thesis by (rule replies_via [OF p], simp add: standard_defs,
        simp_all add: handler_simps cmd_push_def 5)
  next
    case False
    then have "spells nm ''RPUSH''" using 5(1) by simp
    then show ?thesis by (rule replies_via [OF p], simp add: standard_defs,
        simp_all add: handler_simps cmd_push_def 5)
  qed
qed

lemma expire_reply:
  assumes ok: "store_ok view s" "valid_key k" and nm: "spells nm ''EXPIRE''"
    and n: "arg_i64 raw = Some n" "in_i64 (n * 1000)"
  shows "replies view (registry_standard E T) v [nm, k, raw] s (snd (now_ms s)) k
      (spec_expire_at k (word_of_int (max (saturate_i64 (sint (fst (now_ms s)) + n * 1000)) 1))) bool_frame"
proof (rule replies_via [OF _ nm])
  show "implements view k (expire_at E k (word_of_int (max (saturate_i64 (sint (fst (now_ms s)) + n * 1000)) 1)))
      (spec_expire_at k (word_of_int (max (saturate_i64 (sint (fst (now_ms s)) + n * 1000)) 1))) (snd (now_ms s))"
    using ok by (intro expire_at_implements) simp_all
qed (simp add: standard_defs, simp_all add: handler_simps cmd_expire_def expire_generic_def n
      checked_i64_def Let_def case_prod_beta)

end

subsection \<open>Properties\<close>

text \<open>C29: Dispatch always answers.  No request, however malformed, makes a handler index its arguments out
  of range: unknown names, wrong argument counts, bad numbers and engine failures all become replies.\<close>

theorem dispatch_always_answers:
  "\<exists>fr s'. registry_dispatch (registry_standard E T) v args s = Some (fr, s')"
proof -
  have "handler spec v args s \<noteq> None"
    if "registry_standard E T nm = Some spec" "arity_matches (arity spec) (length args)" for nm spec
    using that registry_answers_standard [of E T] by (auto simp: registry_answers_def answers_def)
  then have "registry_dispatch (registry_standard E T) v args s \<noteq> None"
    by (auto simp: registry_dispatch_def split: list.splits option.splits)
  then show ?thesis by auto
qed

text \<open>What a read command has to answer, over the value its key holds (\<open>None\<close> when it is missing or has
  expired), with the frames written out for both versions of the protocol.\<close>

definition answered ::
  "('e \<Rightarrow> kv) \<Rightarrow> 'e registry \<Rightarrow> resp_version \<Rightarrow> bytes list \<Rightarrow> 'e store \<Rightarrow> bytes \<Rightarrow> (rvalue option \<Rightarrow> frame) \<Rightarrow> bool" where
  "answered view reg v args s k F \<longleftrightarrow>
     (\<exists>s'. registry_dispatch reg v args s = Some (F (map_option fst (live_db view k s k)), s')
       \<and> store_ok view s' \<and> db_of view s' = live_db view k s)"

definition wrong_kind :: frame where
  "wrong_kind = Error (lit ''WRONGTYPE Operation against a key holding the wrong kind of value'')"

definition score_text :: "float_text \<Rightarrow> f64 \<Rightarrow> bytes" where
  "score_text T x =
     (if f64_is_finite x \<and> 2 ^ 1074 dvd f64_units x \<and> \<bar>f64_units x div 2 ^ 1074\<bar> < 10 ^ 17
      then show_int (f64_units x div 2 ^ 1074) else fmt_f64 T x)"

lemma score_text_eq: "format_score T x = score_text T x"
proof -
  have "\<bar>u\<bar> < 10 ^ 17 * 2 ^ 1074 \<longleftrightarrow> \<bar>u div 2 ^ 1074\<bar> < 10 ^ 17" if "2 ^ 1074 dvd u" for u :: int
  proof -
    have "\<bar>u\<bar> = \<bar>u div 2 ^ 1074\<bar> * 2 ^ 1074"
      using that by (metis abs_mult abs_numeral dvd_div_mult_self power_abs)
    then show ?thesis using mult_less_cancel_right_pos [of "2 ^ 1074" "\<bar>u div 2 ^ 1074\<bar>" "10 ^ 17"]
      by (simp only: zero_less_power zero_less_numeral)
  qed
  then show ?thesis unfolding format_score_def score_text_def f64_integral_def dvd_eq_mod_eq_0 by metis
qed

lemmas read_specs = spec_get_def spec_hget_def spec_hgetall_def spec_smembers_def spec_zscore_def spec_zrange_def
  spec_llen_def spec_lrange_def typed_def reply_def items_def

lemmas reply_frames = bulk_or_null_def hgetall_frame_def smembers_frame_def score_frame_def range_reply_def
  score_text_eq wrong_kind_def engine_error_frame_def

lemma answeredI:
  assumes "replies view reg v args s s k spec render"
    and "\<And>d. case spec d of (r, d') \<Rightarrow> d' = d
      \<and> F (map_option fst (d k)) = (case r of Inl e \<Rightarrow> engine_error_frame e | Inr x \<Rightarrow> render x)"
  shows "answered view reg v args s k F"
  using assms(1) assms(2) [of "live_db view k s"]
  by (auto simp: replies_def answered_def split: prod.splits)

text \<open>C28: A read command, its name spelled in any case, is answered from the value its key holds: hashes as
  maps and sets as sets on a RESP3 connection and as flat arrays on a RESP2 one, fields and members in
  order, scores as doubles or as text (integers below \<open>10^17\<close> without a fraction), a missing or expired key like an empty
  value, a value of another type with WRONGTYPE; only the key it names may be purged.\<close>

theorem read_commands_reply:
  assumes "reliable_engine E view gc_on" "store_ok view s" "valid_key k"
    and "\<forall>c \<in> {''GET'', ''HGET'', ''HGETALL'', ''SMEMBERS'', ''ZSCORE'', ''ZRANGE'', ''LLEN'', ''LRANGE''}. spells (nm c) c"
    and "arg_i64 a = Some i" "arg_i64 b = Some j" "eq_ignore_ascii_case ws (lit ''WITHSCORES'')"
  shows "answered view (registry_standard E T) v [nm ''GET'', k] s k
        (\<lambda>x. case x of None \<Rightarrow> Null | Some (RString y) \<Rightarrow> Bulk y | Some _ \<Rightarrow> wrong_kind)
    \<and> answered view (registry_standard E T) v [nm ''HGET'', k, f] s k
        (\<lambda>x. case x of None \<Rightarrow> Null
           | Some (RHash h) \<Rightarrow> (case h f of None \<Rightarrow> Null | Some y \<Rightarrow> Bulk y) | Some _ \<Rightarrow> wrong_kind)
    \<and> answered view (registry_standard E T) V2 [nm ''HGETALL'', k] s k
        (\<lambda>x. case x of None \<Rightarrow> Array []
           | Some (RHash h) \<Rightarrow> Array (concat (map (\<lambda>g. [Bulk g, Bulk (the (h g))]) (sorted_list_of_set (dom h))))
           | Some _ \<Rightarrow> wrong_kind)
    \<and> answered view (registry_standard E T) V3 [nm ''HGETALL'', k] s k
        (\<lambda>x. case x of None \<Rightarrow> Map []
           | Some (RHash h) \<Rightarrow> Map (map (\<lambda>g. (Bulk g, Bulk (the (h g)))) (sorted_list_of_set (dom h)))
           | Some _ \<Rightarrow> wrong_kind)
    \<and> answered view (registry_standard E T) V2 [nm ''SMEMBERS'', k] s k
        (\<lambda>x. case x of None \<Rightarrow> Array []
           | Some (RSet y) \<Rightarrow> Array (map Bulk (sorted_list_of_set y)) | Some _ \<Rightarrow> wrong_kind)
    \<and> answered view (registry_standard E T) V3 [nm ''SMEMBERS'', k] s k
        (\<lambda>x. case x of None \<Rightarrow> Set []
           | Some (RSet y) \<Rightarrow> Set (map Bulk (sorted_list_of_set y)) | Some _ \<Rightarrow> wrong_kind)
    \<and> answered view (registry_standard E T) v [nm ''ZSCORE'', k, f] s k
        (\<lambda>x. case x of None \<Rightarrow> Null
           | Some (RZSet z) \<Rightarrow> (case z f of None \<Rightarrow> Null
               | Some y \<Rightarrow> if v = V3 then Double y else Bulk (score_text T y))
           | Some _ \<Rightarrow> wrong_kind)
    \<and> answered view (registry_standard E T) V2 [nm ''ZRANGE'', k, a, b, ws] s k
        (\<lambda>x. case x of None \<Rightarrow> Array []
           | Some (RZSet z) \<Rightarrow>
               Array (concat (map (\<lambda>(m, x). [Bulk m, Bulk (score_text T x)]) (index_range i j (zitems z))))
           | Some _ \<Rightarrow> wrong_kind)
    \<and> answered view (registry_standard E T) V3 [nm ''ZRANGE'', k, a, b, ws] s k
        (\<lambda>x. case x of None \<Rightarrow> Array []
           | Some (RZSet z) \<Rightarrow> Array (map (\<lambda>(m, x). Array [Bulk m, Double x]) (index_range i j (zitems z)))
           | Some _ \<Rightarrow> wrong_kind)
    \<and> answered view (registry_standard E T) v [nm ''LLEN'', k] s k
        (\<lambda>x. case x of None \<Rightarrow> Integer 0 | Some (RList xs) \<Rightarrow> Integer (int (length xs)) | Some _ \<Rightarrow> wrong_kind)
    \<and> answered view (registry_standard E T) v [nm ''LRANGE'', k, a, b] s k
        (\<lambda>x. case x of None \<Rightarrow> Array []
           | Some (RList xs) \<Rightarrow> Array (map Bulk (index_range i j xs)) | Some _ \<Rightarrow> wrong_kind)"
proof -
  note r = reliable_engine.reads_reply [OF assms(1-3)] and q = reliable_engine.ranges_reply [OF assms(1-3,5,6)]
  have nm: "c \<in> {''GET'', ''HGET'', ''HGETALL'', ''SMEMBERS'', ''ZSCORE'', ''ZRANGE'', ''LLEN'', ''LRANGE''} \<Longrightarrow> spells (nm c) c" for c
    by (rule assms(4) [rule_format])
  show ?thesis
  proof (intro conjI; (rule answeredI, (rule r(1) r(4) r(6) r(9) r(11) r(13) q(1) q(3) [OF _ assms(7)], rule nm, simp)))
  qed (simp_all add: read_specs reply_frames comp_def split: option.split rvalue.split prod.split resp_version.split)
qed

lemma spells_upper:
  "spells (lit ''GET'') ''GET''" "spells (lit ''HGET'') ''HGET''" "spells (lit ''HGETALL'') ''HGETALL''"
  "spells (lit ''SMEMBERS'') ''SMEMBERS''" "spells (lit ''ZSCORE'') ''ZSCORE''" "spells (lit ''LLEN'') ''LLEN''"
  "spells (lit ''SET'') ''SET''" "spells (lit ''HSET'') ''HSET''" "spells (lit ''SADD'') ''SADD''"
  "spells (lit ''ZADD'') ''ZADD''" "spells (lit ''LPUSH'') ''LPUSH''" "spells (lit ''EXPIRE'') ''EXPIRE''"
  "spells (lit ''DEL'') ''DEL''" "spells (lit ''SREM'') ''SREM''"
  "spells (lit ''ZRANGE'') ''ZRANGE''" "spells (lit ''LRANGE'') ''LRANGE''"
  by (simp_all add: spells_def lit_def from_utf8_lossy_ascii to_ascii_uppercase_def ascii_upper_def)

theorem read_commands_reply_witness:
  "\<exists>s'. registry_dispatch (registry_standard (rocks mem_db) bits_text) V3 [lit ''HGETALL'', [107]] demo_hash
     = Some (Map [(Bulk [97], Bulk [1]), (Bulk [98], Bulk [2])], s')"
proof -
  have args: "arg_i64 (lit ''0'') = Some 0" "arg_i64 (lit ''1'') = Some 1"
    "eq_ignore_ascii_case (lit ''withscores'') (lit ''WITHSCORES'')" by code_simp+
  have "\<forall>c \<in> {''GET'', ''HGET'', ''HGETALL'', ''SMEMBERS'', ''ZSCORE'', ''ZRANGE'', ''LLEN'', ''LRANGE''}. spells (lit c) c"
    by (simp add: spells_upper)
  from read_commands_reply [OF on_hash this args, of bits_text V3 "[97]"]
  have "answered mem_view (registry_standard (rocks mem_db) bits_text) V3 [lit ''HGETALL'', [107]] demo_hash [107]
      (\<lambda>x. case x of None \<Rightarrow> Map []
         | Some (RHash h) \<Rightarrow> Map (map (\<lambda>g. (Bulk g, Bulk (the (h g)))) (sorted_list_of_set (dom h)))
         | Some _ \<Rightarrow> wrong_kind)"
    by (elim conjE)
  then show ?thesis by (auto simp: answered_def demo)
qed

text \<open>C7: An update command is answered with the abstract reply and has the abstract effect: plain \<open>SET\<close>,
  \<open>HSET\<close> with distinct fields, \<open>SADD\<close>, \<open>ZADD\<close> (scores parsed from text, NaN refused), \<open>SREM\<close>, \<open>DEL\<close> of one key, and
  \<open>EXPIRE\<close>, which turns relative seconds into an absolute deadline, saturating, never zero.\<close>

theorem update_commands_reply:
  assumes "reliable_engine E view gc_on" "store_ok view s" "valid_key k" "version_clock s \<noteq> - 1"
    and nm: "\<forall>c \<in> {''SET'', ''HSET'', ''SADD'', ''ZADD'', ''SREM'', ''DEL'', ''EXPIRE''}. spells (nm c) c"
    and hset: "\<not> eq_ignore_ascii_case (nm ''HSET'') (lit ''HMSET'')"
  shows "replies view (registry_standard E T) v [nm ''SET'', k, x] s s k (spec_set k x 0) (\<lambda>_. frame_ok)
    \<and> (fvs \<noteq> [] \<and> even (length fvs) \<and> distinct (map fst (pairs_of fvs))
       \<and> elements (live_db view k s) k + length (pairs_of fvs) < 2 ^ 32 \<longrightarrow>
       replies view (registry_standard E T) v (nm ''HSET'' # k # fvs) s s k (spec_hset k (pairs_of fvs)) Integer)
    \<and> (ms \<noteq> [] \<and> elements (live_db view k s) k + length ms < 2 ^ 32 \<longrightarrow>
       replies view (registry_standard E T) v (nm ''SADD'' # k # ms) s s k (spec_sadd k ms) Integer)
    \<and> (fvs \<noteq> [] \<and> even (length fvs) \<and> (\<forall>f \<in> set zadd_flags. \<not> eq_ignore_ascii_case (hd fvs) f)
       \<and> parse_pairs T (pairs_of fvs) = Some ps \<and> elements (live_db view k s) k + length ps < 2 ^ 32 \<longrightarrow>
       replies view (registry_standard E T) v (nm ''ZADD'' # k # fvs) s s k (spec_zadd k ps) Integer)
    \<and> (ms \<noteq> [] \<longrightarrow>
       replies view (registry_standard E T) v (nm ''SREM'' # k # ms) s s k (spec_srem k ms) Integer)
    \<and> replies view (registry_standard E T) v [nm ''DEL'', k] s s k (spec_del k) bool_frame
    \<and> (arg_i64 raw = Some n \<and> in_i64 (n * 1000) \<longrightarrow>
       replies view (registry_standard E T) v [nm ''EXPIRE'', k, raw] s (snd (now_ms s)) k
         (spec_expire_at k (word_of_int (max (saturate_i64 (sint (fst (now_ms s)) + n * 1000)) 1))) bool_frame)"
proof -
  note add = reliable_engine.additions_reply [OF assms(1-4)]
    and rem = reliable_engine.removals_reply [OF assms(1-3)]
    and exp = reliable_engine.expire_reply [OF assms(1-3)]
  have del: "replies view (registry_standard E T) v [nm ''DEL'', k] s s k (spec_del k) bool_frame"
    using nm by (intro rem(1) [of "[k]"]) simp_all
  have sp: "spells (nm ''SET'') ''SET''" "spells (nm ''HSET'') ''HSET''" "spells (nm ''SADD'') ''SADD''"
      "spells (nm ''ZADD'') ''ZADD''" "spells (nm ''SREM'') ''SREM''" "spells (nm ''EXPIRE'') ''EXPIRE''"
    using nm by simp_all
  show ?thesis
  proof (intro conjI impI del add(1) [OF sp(1)], goal_cases)
    case 1
    then show ?case by (elim conjE) (rule add(3) [OF sp(2) hset])
  next
    case 2
    then show ?case by (elim conjE) (rule add(2) [OF sp(3)])
  next
    case 3
    then show ?case by (elim conjE) (rule add(4) [OF sp(4)])
  next
    case 4
    then show ?case by (rule rem(3) [OF _ sp(5)])
  next
    case 5
    then show ?case by (elim conjE) (rule exp [OF sp(6)])
  qed
qed

theorem update_commands_reply_witness:
  "\<exists>s'. registry_dispatch (registry_standard (rocks mem_db) bits_text) V2 [lit ''SADD'', [107], [97], [97]] empty_store
     = Some (Integer 1, s') \<and> db_of mem_view s' = [[107] \<mapsto> (RSet {[97]}, 0)]"
proof -
  have "\<not> eq_ignore_ascii_case (lit ''HSET'') (lit ''HMSET'')"
    by (simp add: eq_ignore_ascii_case_def to_ascii_lowercase_def lit_def ascii_lower_def)
  then show ?thesis
    using update_commands_reply [OF on_empty, of lit bits_text V2 _ "[]" "[[97], [97]]"]
    by (simp add: spells_upper replies_def demo elements_def) blast
qed

end
