(* ===== verification/Reply_Types.thy ===== *)
theory Reply_Types
  imports Commands_Correct
begin

text \<open>
  The type discipline of the replies.  A connection that negotiated RESP2 is never sent one of the
  frame types RESP3 added, and the text of a status or error line never holds a line break, except
  where the code copies text it does not control: a storage engine's message, or the name of an
  unknown command.
\<close>

subsection \<open>Well-typed replies\<close>

definition one_line :: "bytes \<Rightarrow> bool" where
  "one_line t \<longleftrightarrow> (\<forall>b \<in> set t. b \<noteq> 13 \<and> b \<noteq> 10)"

fun reply_ok :: "resp_version \<Rightarrow> frame \<Rightarrow> bool" where
  "reply_ok v (Simple t) \<longleftrightarrow> one_line t"
| "reply_ok v (Error t) \<longleftrightarrow> one_line t"
| "reply_ok v (Integer n) \<longleftrightarrow> True"
| "reply_ok v (Bulk b) \<longleftrightarrow> True"
| "reply_ok v Null \<longleftrightarrow> True"
| "reply_ok v (Array frs) \<longleftrightarrow> (\<forall>x \<in> set frs. reply_ok v x)"
| "reply_ok v (Set frs) \<longleftrightarrow> v = V3 \<and> (\<forall>x \<in> set frs. reply_ok v x)"
| "reply_ok v (Push frs) \<longleftrightarrow> v = V3 \<and> (\<forall>x \<in> set frs. reply_ok v x)"
| "reply_ok v (Map prs) \<longleftrightarrow> v = V3 \<and> (\<forall>p \<in> set prs. reply_ok v (fst p) \<and> reply_ok v (snd p))"
| "reply_ok v (BigNumber t) \<longleftrightarrow> v = V3 \<and> one_line t"
| "reply_ok v _ \<longleftrightarrow> v = V3"

definition reply_type :: "resp_version \<Rightarrow> frame \<Rightarrow> bool" where
  "reply_type v fr \<longleftrightarrow> reply_ok v fr \<or> (\<exists>e. fr = engine_error_frame e)"

definition typed_result :: "resp_version \<Rightarrow> (frame \<times> 'e store) option \<Rightarrow> bool" where
  "typed_result v r \<longleftrightarrow> (case r of None \<Rightarrow> True | Some (fr, _) \<Rightarrow> reply_type v fr)"

definition typed_handler :: "'e handler \<Rightarrow> bool" where
  "typed_handler h \<longleftrightarrow> (\<forall>v args s. typed_result v (h v args s))"

named_theorems reply_typing
named_theorems handler_typing

lemma typed_handlerI: "(\<And>v args s. typed_result v (h v args s)) \<Longrightarrow> typed_handler h"
  by (simp add: typed_handler_def)

lemma typed_result_simps [simp]:
  "typed_result v None" "typed_result v (Some r) \<longleftrightarrow> reply_type v (fst r)"
  "(\<And>x. typed_result v (f x)) \<Longrightarrow> typed_result v (with_arg args i f)"
  "(\<And>xs. typed_result v (g xs)) \<Longrightarrow> typed_result v (args_from args i g)"
  by (auto simp: typed_result_def with_arg_def args_from_def split: prod.splits)

lemma one_line_simps [simp]:
  "one_line []" "one_line (x # t) \<longleftrightarrow> x \<noteq> 13 \<and> x \<noteq> 10 \<and> one_line t" "one_line (t @ u) \<longleftrightarrow> one_line t \<and> one_line u"
  by (auto simp: one_line_def)

lemma one_line_constants [simp]:
  "one_line NOT_AN_INTEGER" "one_line NOT_A_FLOAT" "one_line BAD_RANGE_BOUND"
  "one_line (lit ''hset'')" "one_line (lit ''hmset'')" "one_line (lit ''set'')" "one_line (lit ''lpop'')"
  "one_line (lit ''rpop'')" "one_line (lit ''ping'')" "one_line (lit ''expire'')" "one_line (lit ''pexpire'')" "one_line (lit ''PONG'')"
  "one_line (lit ''ERR value is out of range, must be positive'')"
  by (simp_all add: NOT_AN_INTEGER_def NOT_A_FLOAT_def BAD_RANGE_BOUND_def lit_def)

lemma constant_replies [reply_typing]:
  "reply_ok v frame_ok" "reply_ok v syntax_error" "reply_ok v (Error NOT_AN_INTEGER)"
  "reply_ok v (Error NOT_A_FLOAT)" "reply_ok v (Error BAD_RANGE_BOUND)" "reply_ok v (Simple (lit ''PONG''))"
  "reply_ok v (Error (lit ''ERR value is out of range, must be positive''))"
  by (simp_all add: frame_ok_def syntax_error_def NOT_AN_INTEGER_def NOT_A_FLOAT_def BAD_RANGE_BOUND_def
      lit_def)

lemma built_replies [reply_typing]:
  "one_line nm \<Longrightarrow> reply_ok v (wrong_args nm)" "one_line nm \<Longrightarrow> reply_ok v (invalid_expire nm)"
  "reply_ok v (bulk_or_null r)" "reply_ok v (bool_frame b)" "reply_ok v (hgetall_frame v ps)"
  "reply_ok v (smembers_frame v ms)" "reply_ok v (score_frame T sc v)" "reply_ok v (range_reply T ws v prs)"
  by (auto simp: wrong_args_def invalid_expire_def bulk_or_null_def bool_frame_def hgetall_frame_def
      smembers_frame_def score_frame_def range_reply_def lit_def split: option.splits resp_version.splits)

lemma engine_error_typed [reply_typing]: "reply_type v (engine_error_frame e)"
  by (auto simp: reply_type_def)

lemma reply_typeI [reply_typing]: "reply_ok v fr \<Longrightarrow> reply_type v fr"
  by (simp add: reply_type_def)

lemma store_reply_typed [reply_typing]:
  assumes "\<And>x. reply_ok v (k x)"
  shows "reply_type v (fst (store_reply f k s))"
  using assms by (auto simp: store_reply_def reply_typing split: prod.splits sum.splits)

lemma count_keys_typed [reply_typing]: "reply_type v (fst (count_keys f ks n s))"
  by (induction ks arbitrary: n s) (auto simp: reply_typing split: prod.splits sum.splits bool.splits)

lemma hmget_loop_typed [reply_typing]:
  "\<forall>x \<in> set frs. reply_ok v x \<Longrightarrow> reply_type v (fst (hmget_loop E k fs frs s))"
  by (induction fs arbitrary: frs s) (auto simp: reply_typing split: prod.splits sum.splits)

lemma set_options_typed: "fst (set_options opts ex s) = Inl fr \<Longrightarrow> reply_ok v fr"
  by (induction opts ex s rule: set_options.induct)
    (auto simp: reply_typing Let_def split: if_splits list.splits option.splits prod.splits)

lemma type_of_typed [reply_typing]: "reply_type v (fst (store_reply (type_of E k) (\<lambda>t. Simple (lit t)) s))"
  by (auto simp: store_reply_def type_of_def try_then_def ok_def reply_typing lit_def split: prod.splits sum.splits
      option.splits)

subsection \<open>Every handler\<close>

lemma string_handlers_typed [handler_typing]:
  "typed_handler (cmd_get E)" "typed_handler (cmd_del E)" "typed_handler (cmd_exists E)"
  "typed_handler (cmd_type E)" "typed_handler (cmd_expire E)" "typed_handler (cmd_pexpire E)"
  "typed_handler (cmd_ttl E)" "typed_handler (cmd_pttl E)" "typed_handler cmd_ping" "typed_handler cmd_echo"
  by (rule typed_handlerI; auto simp: cmd_get_def cmd_del_def cmd_exists_def cmd_type_def cmd_expire_def
      cmd_pexpire_def expire_generic_def cmd_ttl_def cmd_pttl_def cmd_ping_def cmd_echo_def Let_def reply_typing
      split: prod.splits option.splits)+

lemma cmd_set_typed [handler_typing]: "typed_handler (cmd_set E)"
proof (rule typed_handlerI)
  fix v args and s :: "'a store"
  show "typed_result v (cmd_set E v args s)"
    using set_options_typed [of "drop 3 args" 0 s _ v]
    by (auto simp: cmd_set_def reply_typing split: prod.splits sum.splits)
qed

lemma hash_handlers_typed [handler_typing]:
  "typed_handler (cmd_hset E)" "typed_handler (cmd_hget E)" "typed_handler (cmd_hmget E)"
  "typed_handler (cmd_hgetall E)" "typed_handler (cmd_hdel E)" "typed_handler (cmd_hlen E)" "typed_handler (cmd_hexists E)"
  by (rule typed_handlerI; auto simp: cmd_hset_def cmd_hget_def cmd_hmget_def cmd_hgetall_def cmd_hdel_def
      cmd_hlen_def cmd_hexists_def Let_def reply_typing)+

lemma set_handlers_typed [handler_typing]:
  "typed_handler (cmd_sadd E)" "typed_handler (cmd_srem E)" "typed_handler (cmd_sismember E)"
  "typed_handler (cmd_smembers E)" "typed_handler (cmd_scard E)"
  by (rule typed_handlerI; simp add: cmd_sadd_def cmd_srem_def cmd_sismember_def
      cmd_smembers_def cmd_scard_def reply_typing)+

lemma zset_handlers_typed [handler_typing]:
  "typed_handler (cmd_zadd E T)" "typed_handler (cmd_zscore E T)" "typed_handler (cmd_zrange E T)"
  "typed_handler (cmd_zrangebyscore E T)" "typed_handler (cmd_zrem E)" "typed_handler (cmd_zcard E)"
  by (rule typed_handlerI; auto simp: cmd_zadd_def cmd_zscore_def cmd_zrange_def
      cmd_zrangebyscore_def cmd_zrem_def cmd_zcard_def reply_typing split: option.splits)+

lemma list_handlers_typed [handler_typing]:
  "typed_handler (cmd_push E)" "typed_handler (cmd_pop E)" "typed_handler (cmd_lrange E)" "typed_handler (cmd_llen E)"
  by (rule typed_handlerI; auto simp: cmd_push_def cmd_pop_def cmd_lrange_def cmd_llen_def Let_def reply_typing
      split: option.splits sum.splits prod.splits list.splits)+

lemma admin_handlers_typed [handler_typing]:
  "typed_handler (cmd_dbsize E)" "typed_handler (cmd_rawcount E)" "typed_handler (cmd_compact E)"
  by (rule typed_handlerI; simp add: cmd_dbsize_def cmd_rawcount_def cmd_compact_def reply_typing)+

subsection \<open>The registry\<close>

definition registry_typed :: "'e registry \<Rightarrow> bool" where
  "registry_typed reg \<longleftrightarrow>
     (\<forall>nm spec. reg nm = Some spec \<longrightarrow> typed_handler (handler spec) \<and> one_line (name_lower spec))"

lemma registry_typed_register:
  "registry_typed reg \<Longrightarrow> typed_handler h \<Longrightarrow> one_line (to_ascii_lowercase nm) \<Longrightarrow> registry_typed (register nm ar h reg)"
  by (simp add: registry_typed_def register_def)

lemma registered_names:
  "one_line (to_ascii_lowercase (lit ''PING''))"  "one_line (to_ascii_lowercase (lit ''ECHO''))"
  "one_line (to_ascii_lowercase (lit ''SET''))"  "one_line (to_ascii_lowercase (lit ''GET''))"
  "one_line (to_ascii_lowercase (lit ''DEL''))"  "one_line (to_ascii_lowercase (lit ''EXISTS''))"
  "one_line (to_ascii_lowercase (lit ''TYPE''))"  "one_line (to_ascii_lowercase (lit ''EXPIRE''))"
  "one_line (to_ascii_lowercase (lit ''PEXPIRE''))"  "one_line (to_ascii_lowercase (lit ''TTL''))"
  "one_line (to_ascii_lowercase (lit ''PTTL''))"  "one_line (to_ascii_lowercase (lit ''HSET''))"
  "one_line (to_ascii_lowercase (lit ''HMSET''))"  "one_line (to_ascii_lowercase (lit ''HGET''))"
  "one_line (to_ascii_lowercase (lit ''HMGET''))"  "one_line (to_ascii_lowercase (lit ''HGETALL''))"
  "one_line (to_ascii_lowercase (lit ''HDEL''))"  "one_line (to_ascii_lowercase (lit ''HLEN''))"
  "one_line (to_ascii_lowercase (lit ''HEXISTS''))"  "one_line (to_ascii_lowercase (lit ''SADD''))"
  "one_line (to_ascii_lowercase (lit ''SREM''))"  "one_line (to_ascii_lowercase (lit ''SISMEMBER''))"
  "one_line (to_ascii_lowercase (lit ''SMEMBERS''))"  "one_line (to_ascii_lowercase (lit ''SCARD''))"
  "one_line (to_ascii_lowercase (lit ''ZADD''))"  "one_line (to_ascii_lowercase (lit ''ZSCORE''))"
  "one_line (to_ascii_lowercase (lit ''ZRANGE''))"  "one_line (to_ascii_lowercase (lit ''ZRANGEBYSCORE''))"
  "one_line (to_ascii_lowercase (lit ''ZREM''))"  "one_line (to_ascii_lowercase (lit ''ZCARD''))"
  "one_line (to_ascii_lowercase (lit ''LPUSH''))"  "one_line (to_ascii_lowercase (lit ''RPUSH''))"
  "one_line (to_ascii_lowercase (lit ''LPOP''))"  "one_line (to_ascii_lowercase (lit ''RPOP''))"
  "one_line (to_ascii_lowercase (lit ''LRANGE''))"  "one_line (to_ascii_lowercase (lit ''LLEN''))"
  "one_line (to_ascii_lowercase (lit ''DBSIZE''))"  "one_line (to_ascii_lowercase (lit ''RAWCOUNT''))"
  "one_line (to_ascii_lowercase (lit ''COMPACT''))"
  by (simp_all add: lit_def to_ascii_lowercase_def ascii_lower_def)

lemma registry_typed_standard: "registry_typed (registry_standard E T)"
proof -
  have "registry_typed registry_new" by (simp add: registry_typed_def registry_new_def)
  then show ?thesis
    unfolding registry_standard_def register_all_def register_connectivity_def register_string_def
      register_hash_def register_set_def register_zset_def register_list_def register_admin_def
    by simp (intro registry_typed_register handler_typing registered_names)
qed

text \<open>C19: Every reply to a command of the standard registry is well typed for the connection's protocol
  version: a RESP2 client only ever gets simple strings, errors, integers, bulk strings, nulls and arrays of
  them, never a frame type that RESP3 added, and a status or error line is one line.  The only texts the
  code does not make itself are the storage engine's error message and the name of an unknown command.\<close>

theorem replies_well_typed:
  assumes "registry_dispatch (registry_standard E T) v args s = Some (fr, s')"
  shows "reply_ok v fr \<or> (\<exists>e. fr = engine_error_frame e)
    \<or> (\<not> registry_contains (hd args) (registry_standard E T)
        \<and> fr = Error (lit ''ERR unknown command '' @ [39] @ from_utf8_lossy (hd args) @ [39]))"
proof -
  have "reply_type v fr" if "registry_standard E T nm = Some spec" "handler spec v args s = Some (fr, s')" for nm spec
    using that registry_typed_standard [of E T] unfolding registry_typed_def typed_handler_def
    by (metis typed_result_simps(2) fst_conv)
  moreover have "one_line (name_lower spec)" if "registry_standard E T nm = Some spec" for nm spec
    using that registry_typed_standard [of E T] by (simp add: registry_typed_def)
  moreover have "reply_ok v (Error (lit ''ERR empty command''))" by (simp add: lit_def)
  ultimately show ?thesis using assms
    by (auto simp: registry_dispatch_def registry_contains_def reply_type_def built_replies(1)
        simp del: reply_ok.simps split: list.splits option.splits if_splits)
qed

theorem replies_well_typed_witness:
  "reply_ok V2 (Bulk [104]) \<or> (\<exists>e. Bulk [104] = engine_error_frame e)
    \<or> (\<not> registry_contains (hd [lit ''ECHO'', [104]]) (registry_standard (rocks mem_db) bits_text)
        \<and> Bulk [104] = Error (lit ''ERR unknown command '' @ [39] @ from_utf8_lossy (hd [lit ''ECHO'', [104]]) @ [39]))"
  by (rule replies_well_typed [where s = demo_hash])
    (simp add: registry_dispatch_def lit_def from_utf8_lossy_ascii to_ascii_uppercase_def ascii_upper_def standard_defs
      arity_matches_def cmd_echo_def with_arg_def)

end
