(* ===== verification/Codec.thy ===== *)
theory Codec
  imports Resp_Decode
begin

text \<open>
  The adapters between the protocol and a framed byte stream
  (\<open>crates/gamestore-protocol/src/codec.rs\<close>): \<open>RespCodec\<close> for frames in both directions, \<open>CommandCodec\<close>
  for a server, which reads requests and writes frames.  Both carry the protocol version used for
  encoding and the decoder's limits.
\<close>

datatype codec_error = Protocol protocol_error | Io bytes

record resp_codec =
  rc_version :: resp_version
  rc_limits :: limits

record command_codec =
  cc_version :: resp_version
  cc_limits :: limits

definition resp_codec_new :: resp_codec where
  "resp_codec_new = \<lparr>rc_version = V2, rc_limits = default_limits\<rparr>"

definition resp_codec_with_limits :: "limits \<Rightarrow> resp_codec \<Rightarrow> resp_codec" where
  "resp_codec_with_limits lim c = c\<lparr>rc_limits := lim\<rparr>"

definition resp_codec_set_version :: "resp_version \<Rightarrow> resp_codec \<Rightarrow> resp_codec" where
  "resp_codec_set_version v c = c\<lparr>rc_version := v\<rparr>"

text \<open>\<open>?\<close> turns a protocol error into a codec error.\<close>

definition lift_protocol :: "(protocol_error + 'a) \<times> bytes \<Rightarrow> (codec_error + 'a) \<times> bytes" where
  "lift_protocol r = (case r of (Inl e, buf) \<Rightarrow> (Inl (Protocol e), buf) | (Inr x, buf) \<Rightarrow> (Inr x, buf))"

definition resp_codec_decode :: "float_text \<Rightarrow> resp_codec \<Rightarrow> bytes \<Rightarrow> (codec_error + frame option) \<times> bytes" where
  "resp_codec_decode T c src = lift_protocol (decode T src (rc_limits c))"

definition resp_codec_encode :: "float_text \<Rightarrow> resp_codec \<Rightarrow> frame \<Rightarrow> bytes \<Rightarrow> bytes" where
  "resp_codec_encode T c item dst = dst @ encode T (rc_version c) item"

definition command_codec_new :: command_codec where
  "command_codec_new = \<lparr>cc_version = V2, cc_limits = default_limits\<rparr>"

definition command_codec_with_limits :: "limits \<Rightarrow> command_codec \<Rightarrow> command_codec" where
  "command_codec_with_limits lim c = c\<lparr>cc_limits := lim\<rparr>"

definition command_codec_set_version :: "resp_version \<Rightarrow> command_codec \<Rightarrow> command_codec" where
  "command_codec_set_version v c = c\<lparr>cc_version := v\<rparr>"

definition command_codec_decode :: "command_codec \<Rightarrow> bytes \<Rightarrow> (codec_error + bytes list option) \<times> bytes" where
  "command_codec_decode c src = lift_protocol (decode_command src (cc_limits c))"

definition command_codec_encode :: "float_text \<Rightarrow> command_codec \<Rightarrow> frame \<Rightarrow> bytes \<Rightarrow> bytes" where
  "command_codec_encode T c item dst = dst @ encode T (cc_version c) item"

text \<open>\<open>Display\<close> for \<open>CodecError\<close>: protocol errors are transparent.\<close>

fun codec_error_text :: "codec_error \<Rightarrow> bytes" where
  "codec_error_text (Protocol e) = protocol_error_text e"
| "codec_error_text (Io m) = lit ''i/o error: '' @ m"

end
