(* ===== verification/Resp_Api.thy ===== *)
theory Resp_Api
  imports Codec
begin

text \<open>
  The rest of what \<open>crates/gamestore-protocol/src\<close> offers its users: constructors of frames
  (\<open>frame.rs\<close>), the formatting of integers into a buffer of twenty bytes and the encoder's convenience
  form (\<open>encode.rs\<close>), the accessors and both encoding directions of the codecs (\<open>codec.rs\<close>).  The buffer
  is large enough for every 64-bit integer.
\<close>

subsection \<open>Frames\<close>

definition frame_simple :: "bytes \<Rightarrow> frame" where
  "frame_simple s = Simple s"

definition frame_error :: "bytes \<Rightarrow> frame" where
  "frame_error s = Error s"

definition frame_bulk :: "bytes \<Rightarrow> frame" where
  "frame_bulk b = Bulk b"

definition frame_null :: frame where
  "frame_null = Null"

definition frame_from_str :: "bytes \<Rightarrow> frame" where
  "frame_from_str s = Bulk s"

definition frame_from_i64 :: "int \<Rightarrow> frame" where
  "frame_from_i64 n = Integer n"

definition malformed :: "bytes \<Rightarrow> protocol_error" where
  "malformed msg = Malformed msg"

subsection \<open>Encoding\<close>

definition encode_to_vec :: "float_text \<Rightarrow> frame \<Rightarrow> resp_version \<Rightarrow> bytes" where
  "encode_to_vec T f v = [] @ encode T v f"

text \<open>The cursor over the buffer takes no more than twenty bytes; \<open>None\<close> is the panic of \<open>expect\<close>.\<close>

definition format_i64 :: "int \<Rightarrow> bytes option" where
  "format_i64 n = (if length (show_int n) \<le> 20 then Some (show_int n) else None)"

subsection \<open>Codecs\<close>

definition resp_codec_version :: "resp_codec \<Rightarrow> resp_version" where
  "resp_codec_version c = rc_version c"

definition resp_codec_default :: resp_codec where
  "resp_codec_default = resp_codec_new"

definition command_codec_version :: "command_codec \<Rightarrow> resp_version" where
  "command_codec_version c = cc_version c"

definition command_codec_default :: command_codec where
  "command_codec_default = command_codec_new"

text \<open>\<open>Encoder<&Frame>\<close>, which borrows the frame.\<close>

definition resp_codec_encode_ref :: "float_text \<Rightarrow> resp_codec \<Rightarrow> frame \<Rightarrow> bytes \<Rightarrow> bytes" where
  "resp_codec_encode_ref T c item dst = dst @ encode T (rc_version c) item"

definition command_codec_encode_ref :: "float_text \<Rightarrow> command_codec \<Rightarrow> frame \<Rightarrow> bytes \<Rightarrow> bytes" where
  "command_codec_encode_ref T c item dst = dst @ encode T (cc_version c) item"

subsection \<open>Facts\<close>

lemma length_show_nat: "n < 10 ^ d \<Longrightarrow> 0 < d \<Longrightarrow> length (show_nat n) \<le> d"
proof (induction n arbitrary: d rule: show_nat.induct)
  case (1 n)
  show ?case
  proof (cases "n < 10")
    case True
    then show ?thesis using 1(3) by (subst show_nat.simps) simp
  next
    case False
    obtain d' where e: "d = Suc d'" using 1(3) by (cases d) simp_all
    then have d: "d = Suc d'" "0 < d'" using 1(2) False by (cases d'; simp)+
    then have "length (show_nat (n div 10)) \<le> d'" using 1(1) [OF False, of d'] 1(2) by (simp add: less_mult_imp_div_less mult.commute)
    then show ?thesis using False d by (subst show_nat.simps) simp
  qed
qed

text \<open>Twenty bytes hold every 64-bit integer, the smallest with its sign included: formatting never panics.\<close>

theorem format_i64_total: "in_i64 n \<Longrightarrow> format_i64 n = Some (put_int n)"
proof -
  assume "in_i64 n"
  then have "nat (- n) < 10 ^ 19" "nat n < 10 ^ 19" by (auto simp: in_i64_def)
  then have "length (show_nat (nat (- n))) \<le> 19" "length (show_nat (nat n)) \<le> 19"
    by (simp_all add: length_show_nat)
  then show ?thesis by (simp add: format_i64_def put_int_def show_int_def)
qed

end
