(* ===== verification/Server.thy ===== *)
theory Server
  imports Codec Commands Resp_Correct
begin

text \<open>
  The connection service of a DataNode (\<open>crates/gamestore-datanode/src/server.rs\<close>): dispatch of
  connection-scoped commands, and the read, dispatch and reply loop of one connection.  The network
  is reduced to the bytes received and sent; accepting connections, metrics and logging are left out.
\<close>

subsection \<open>Dispatch\<close>

record action =
  act_reply :: frame
  act_close :: bool
  act_set_version :: "resp_version option"

definition action_reply :: "frame \<Rightarrow> action" where
  "action_reply fr = \<lparr>act_reply = fr, act_close = False, act_set_version = None\<rparr>"

definition action_close_with :: "frame \<Rightarrow> action" where
  "action_close_with fr = \<lparr>act_reply = fr, act_close = True, act_set_version = None\<rparr>"

text \<open>The workspace version in \<open>Cargo.toml\<close>.\<close>

definition CARGO_PKG_VERSION :: bytes where
  "CARGO_PKG_VERSION = lit ''0.1.0''"

definition hello_fields :: "resp_version \<Rightarrow> int \<Rightarrow> (frame \<times> frame) list" where
  "hello_fields v conn_id =
     [(Bulk (lit ''server''), Bulk (lit ''gamestore'')),
      (Bulk (lit ''version''), Bulk CARGO_PKG_VERSION),
      (Bulk (lit ''proto''), Integer (as_i64 v)),
      (Bulk (lit ''id''), Integer conn_id),
      (Bulk (lit ''mode''), Bulk (lit ''standalone'')),
      (Bulk (lit ''role''), Bulk (lit ''master'')),
      (Bulk (lit ''modules''), Array [])]"

definition hello_reply :: "resp_version \<Rightarrow> int \<Rightarrow> frame" where
  "hello_reply v conn_id =
     (case v of
        V3 \<Rightarrow> Map (hello_fields v conn_id)
      | V2 \<Rightarrow> Array (concat (map (\<lambda>(k, x). [k, x]) (hello_fields v conn_id))))"

definition hello :: "bytes list \<Rightarrow> resp_version \<Rightarrow> int \<Rightarrow> action" where
  "hello args current conn_id =
     (if length args \<ge> 2 then
        (case Option.bind (i64_from_str (trim (from_utf8_lossy (args ! 1)))) from_i64 of
           Some v \<Rightarrow> \<lparr>act_reply = hello_reply v conn_id, act_close = False, act_set_version = Some v\<rparr>
         | None \<Rightarrow> action_reply (Error (lit ''NOPROTO unsupported protocol version'')))
      else \<lparr>act_reply = hello_reply current conn_id, act_close = False, act_set_version = None\<rparr>)"

definition client :: "bytes list \<Rightarrow> int \<Rightarrow> frame" where
  "client args conn_id =
     (if length args < 2 then wrong_args (lit ''client'')
      else
        let sub_upper = to_ascii_uppercase (from_utf8_lossy (args ! 1))
        in if sub_upper \<in> set (map lit [''SETINFO'', ''SETNAME'', ''NO-EVICT'', ''NO-TOUCH'']) then frame_ok
           else if sub_upper = lit ''ID'' then Integer conn_id
           else if sub_upper = lit ''GETNAME'' then Bulk []
           else Error (lit ''ERR Unknown subcommand or wrong number of arguments for '' @ [39] @ sub_upper
                  @ [39] @ lit ''. Try CLIENT HELP.''))"

definition select :: "bytes list \<Rightarrow> frame" where
  "select args =
     (if length args \<noteq> 2 then wrong_args (lit ''select'')
      else case arg_i64 (args ! 1) of
        Some n \<Rightarrow> if n = 0 then frame_ok else Error (lit ''ERR DB index is out of range'')
      | None \<Rightarrow> Error NOT_AN_INTEGER)"

definition flush :: "'e engine_ops \<Rightarrow> bytes list \<Rightarrow> 'e store \<Rightarrow> (frame \<times> 'e store) option" where
  "flush E args s =
     with_arg args 0 (\<lambda>nm.
       let name = (if eq_ignore_ascii_case nm (lit ''FLUSHALL'') then lit ''flushall'' else lit ''flushdb'')
       in if length args > 2 then Some (wrong_args name, s)
          else if length args = 2 \<and> \<not> eq_ignore_ascii_case (args ! 1) (lit ''ASYNC'')
               \<and> \<not> eq_ignore_ascii_case (args ! 1) (lit ''SYNC'')
          then Some (syntax_error, s)
          else (case flush_all E s of
                  (Inr (), s') \<Rightarrow> Some (frame_ok, s')
                | (Inl e, s') \<Rightarrow> Some (Error (lit ''ERR '' @ engine_error_text e), s')))"

definition dispatch ::
  "'e engine_ops \<Rightarrow> 'e registry \<Rightarrow> bytes list \<Rightarrow> resp_version \<Rightarrow> int \<Rightarrow> 'e store \<Rightarrow> (action \<times> 'e store) option" where
  "dispatch E reg args v conn_id s =
     with_arg args 0 (\<lambda>nm.
       let name = to_ascii_uppercase (from_utf8_lossy nm)
       in if name = lit ''HELLO'' then Some (hello args v conn_id, s)
          else if name = lit ''QUIT'' then Some (action_close_with frame_ok, s)
          else if name = lit ''CLIENT'' then Some (action_reply (client args conn_id), s)
          else if name = lit ''SELECT'' then Some (action_reply (select args), s)
          else if name = lit ''COMMAND'' then Some (action_reply (Array []), s)
          else if name = lit ''FLUSHDB'' \<or> name = lit ''FLUSHALL''
          then map_option (\<lambda>(fr, s'). (action_reply fr, s')) (flush E args s)
          else map_option (\<lambda>(fr, s'). (action_reply fr, s')) (registry_dispatch reg v args s))"

definition CONNECTION_VERBS :: "bytes list" where
  "CONNECTION_VERBS = map lit [''HELLO'', ''QUIT'', ''CLIENT'', ''SELECT'', ''COMMAND'', ''FLUSHDB'', ''FLUSHALL'']"

definition command_label :: "bytes \<Rightarrow> 'e registry \<Rightarrow> bytes" where
  "command_label raw reg =
     (let upper = to_ascii_uppercase (from_utf8_lossy raw)
      in if upper \<in> set CONNECTION_VERBS \<or> registry_contains raw reg then upper else lit ''UNKNOWN'')"

subsection \<open>One connection\<close>

text \<open>
  \<open>inbuf\<close> are the bytes received and not yet decoded, \<open>outbuf\<close> the bytes sent.  A panic in a handler
  ends the connection's task.
\<close>

record conn =
  codec :: command_codec
  conn_id :: int
  inbuf :: bytes
  outbuf :: bytes
  closed :: bool

definition conn_new :: "int \<Rightarrow> conn" where
  "conn_new i = \<lparr>codec = command_codec_new, conn_id = i, inbuf = [], outbuf = [], closed = False\<rparr>"

definition send :: "float_text \<Rightarrow> frame \<Rightarrow> conn \<Rightarrow> conn" where
  "send T fr c = c\<lparr>outbuf := command_codec_encode T (codec c) fr (outbuf c)\<rparr>"

text \<open>Dispatch one request and reply; \<open>HELLO\<close> switches the encoder before its own reply.\<close>

definition serve_request ::
  "'e engine_ops \<Rightarrow> float_text \<Rightarrow> 'e registry \<Rightarrow> bytes list \<Rightarrow> conn \<Rightarrow> 'e store \<Rightarrow> conn \<times> 'e store" where
  "serve_request E T reg args c s =
     (case dispatch E reg args (cc_version (codec c)) (conn_id c) s of
        None \<Rightarrow> (c\<lparr>closed := True\<rparr>, s)
      | Some (act, s') \<Rightarrow>
          let c1 = (case act_set_version act of
                      Some v \<Rightarrow> c\<lparr>codec := command_codec_set_version v (codec c)\<rparr>
                    | None \<Rightarrow> c);
              c2 = send T (act_reply act) c1
          in (c2\<lparr>closed := act_close act\<rparr>, s'))"

lemma serve_request_inbuf: "inbuf (fst (serve_request E T reg args c s)) = inbuf c"
  by (auto simp: serve_request_def send_def Let_def split: option.splits)

lemma command_codec_decode_shrinks:
  assumes "command_codec_decode cd a = (Inr (Some args), buf)"
  shows "length buf < length a"
proof -
  have "decode_command a (cc_limits cd) = (Inr (Some args), buf)"
    using assms by (auto simp: command_codec_decode_def lift_protocol_def split: prod.splits sum.splits)
  then show ?thesis using decode_command_shrinks by fastforce
qed

lemma serve_request_length:
  "serve_request E T reg args c s = (c', s') \<Longrightarrow> length (inbuf c') = length (inbuf c)"
  using serve_request_inbuf [of E T reg args c s] by simp

text \<open>The loop over what is buffered, until more input is needed or the connection closes.\<close>

function run_conn ::
  "'e engine_ops \<Rightarrow> float_text \<Rightarrow> 'e registry \<Rightarrow> conn \<Rightarrow> 'e store \<Rightarrow> conn \<times> 'e store" where
  "run_conn E T reg c s =
     (if closed c then (c, s)
      else case command_codec_decode (codec c) (inbuf c) of
        (Inl e, buf) \<Rightarrow>
          ((send T (Error (lit ''ERR Protocol error: '' @ codec_error_text e)) (c\<lparr>inbuf := buf\<rparr>))\<lparr>closed := True\<rparr>, s)
      | (Inr None, buf) \<Rightarrow> (c\<lparr>inbuf := buf\<rparr>, s)
      | (Inr (Some args), buf) \<Rightarrow>
          if args = [] then run_conn E T reg (c\<lparr>inbuf := buf\<rparr>) s
          else (case serve_request E T reg args (c\<lparr>inbuf := buf\<rparr>) s of
                  (c', s') \<Rightarrow> run_conn E T reg c' s'))"
  by pat_completeness auto

termination
  by (relation "measure (\<lambda>(E, T, reg, c, s). length (inbuf c))")
    (auto dest!: serve_request_length dest: command_codec_decode_shrinks simp: eq_commute [of "(_, _)"])

declare run_conn.simps [simp del]

text \<open>Bytes arrive; the client closes its end, or the server shuts down.\<close>

definition receive ::
  "'e engine_ops \<Rightarrow> float_text \<Rightarrow> 'e registry \<Rightarrow> bytes \<Rightarrow> conn \<times> 'e store \<Rightarrow> conn \<times> 'e store" where
  "receive E T reg chunk cs =
     (case cs of (c, s) \<Rightarrow> run_conn E T reg (c\<lparr>inbuf := inbuf c @ chunk\<rparr>) s)"

definition conn_end :: "conn \<Rightarrow> conn" where
  "conn_end c = c\<lparr>closed := True\<rparr>"

end
