(* ===== verification/Observability.thy ===== *)
theory Observability
  imports Server
begin

text \<open>
  What a DataNode records about the commands it runs (\<open>crates/gamestore-datanode/src/observability.rs\<close>).
  The metrics registry is the \<open>metrics\<close> crates': counters are maps from label values, gauges a map from names.
  \<open>Metrics_Endpoint\<close> is the other half of the file.
\<close>

subsection \<open>Command metrics\<close>

text \<open>Durations are in nanoseconds.\<close>

record slow_entry =
  slow_cmd :: bytes
  slow_key :: bytes
  slow_argc :: nat
  slow_elapsed_ms :: u64

record metrics =
  commands_total :: "bytes \<rightharpoonup> nat"
  command_latency :: "bytes \<rightharpoonup> nat list"
  slow_commands_total :: "bytes \<rightharpoonup> nat"
  slow_log :: "slow_entry list"
  gauges :: "bytes \<rightharpoonup> f64"
  metric_help :: "bytes \<rightharpoonup> bytes"

definition metrics_new :: metrics where
  "metrics_new = \<lparr>commands_total = Map.empty, command_latency = Map.empty,
     slow_commands_total = Map.empty, slow_log = [], gauges = Map.empty, metric_help = Map.empty\<rparr>"

text \<open>The help texts of the metric set.\<close>

definition describe_metrics :: "metrics \<Rightarrow> metrics" where
  "describe_metrics m = m\<lparr>metric_help := (metric_help m)(
     lit ''datanode_commands_total'' \<mapsto> lit ''Commands executed, labelled by (known) command name'',
     lit ''datanode_command_latency_seconds'' \<mapsto> lit ''Command execution latency (dispatch to reply frame ready)'',
     lit ''datanode_slow_commands_total'' \<mapsto> lit ''Commands that exceeded the slow-log threshold'',
     lit ''datanode_conn_active'' \<mapsto> lit ''Open RESP connections'')\<rparr>"

definition count_in :: "(bytes \<rightharpoonup> nat) \<Rightarrow> bytes \<Rightarrow> nat" where
  "count_in m label = (case m label of None \<Rightarrow> 0 | Some n \<Rightarrow> n)"

definition bump :: "bytes \<Rightarrow> (bytes \<rightharpoonup> nat) \<Rightarrow> (bytes \<rightharpoonup> nat)" where
  "bump label m = m(label \<mapsto> count_in m label + 1)"

definition record_command :: "bytes \<Rightarrow> bytes list \<Rightarrow> nat \<Rightarrow> nat \<Rightarrow> metrics \<Rightarrow> metrics" where
  "record_command cmd args elapsed slow_threshold m =
     (let m1 = m\<lparr>commands_total := bump cmd (commands_total m),
                command_latency := (command_latency m)(cmd \<mapsto>
                  (case command_latency m cmd of None \<Rightarrow> [] | Some xs \<Rightarrow> xs) @ [elapsed])\<rparr>
      in if elapsed \<ge> slow_threshold
         then m1\<lparr>slow_commands_total := bump cmd (slow_commands_total m1),
                slow_log := slow_log m1 @
                  [\<lparr>slow_cmd = cmd,
                    slow_key = (if length args > 1 then from_utf8_lossy (args ! 1) else []),
                    slow_argc = length args,
                    slow_elapsed_ms = of_nat (elapsed div 1000000)\<rparr>]\<rparr>
         else m1)"

text \<open>The connection loop records every request it dispatches (never an empty one), under the label of its
  name.\<close>

definition observe :: "'e registry \<Rightarrow> nat \<Rightarrow> bytes list \<times> nat \<Rightarrow> metrics \<Rightarrow> metrics" where
  "observe reg slow_threshold req m =
     (case req of (args, elapsed) \<Rightarrow> record_command (command_label (hd args) reg) args elapsed slow_threshold m)"

subsection \<open>Facts\<close>

lemma count_in_bump: "count_in (bump l m) l' = count_in m l' + (if l' = l then 1 else 0)"
  by (simp add: bump_def count_in_def)

lemma record_counts:
  "count_in (commands_total (record_command cmd args el th m)) l
     = count_in (commands_total m) l + (if l = cmd then 1 else 0)"
  by (simp add: record_command_def Let_def count_in_bump)

lemma record_labels:
  "dom (commands_total (record_command cmd args el th m)) = insert cmd (dom (commands_total m))"
  "dom (command_latency (record_command cmd args el th m)) = insert cmd (dom (command_latency m))"
  "dom (slow_commands_total (record_command cmd args el th m)) \<subseteq> insert cmd (dom (slow_commands_total m))"
  by (auto simp: record_command_def Let_def bump_def)

definition known_labels :: "'e registry \<Rightarrow> bytes set" where
  "known_labels reg = set CONNECTION_VERBS \<union> dom reg \<union> {lit ''UNKNOWN''}"

lemma command_label_known: "command_label raw reg \<in> known_labels reg"
  by (auto simp: command_label_def known_labels_def registry_contains_def Let_def)

definition metric_labels :: "metrics \<Rightarrow> bytes set" where
  "metric_labels m = dom (commands_total m) \<union> dom (command_latency m) \<union> dom (slow_commands_total m)"

lemma record_metric_labels:
  "metric_labels (record_command cmd args el th m) \<subseteq> insert cmd (metric_labels m)"
  using record_labels(3) [of cmd args el th m] unfolding metric_labels_def record_labels(1,2) by blast

lemma observe_labels:
  assumes "metric_labels m \<subseteq> known_labels reg"
  shows "metric_labels (observe reg th r m) \<subseteq> known_labels reg"
proof (cases r)
  case (Pair args el)
  have "metric_labels (observe reg th r m) \<subseteq> insert (command_label (hd args) reg) (metric_labels m)"
    unfolding Pair observe_def by (simp add: record_metric_labels)
  then show ?thesis using command_label_known [of "hd args" reg] assms by blast
qed

lemma observed_labels: "metric_labels m \<subseteq> known_labels reg \<Longrightarrow> metric_labels (fold (observe reg th) rs m) \<subseteq> known_labels reg"
  by (induction rs arbitrary: m) (simp_all add: observe_labels)

lemma observed_counts:
  "count_in (commands_total (fold (observe reg th) rs m)) l
     = count_in (commands_total m) l + length (filter (\<lambda>(args, _). command_label (hd args) reg = l) rs)"
proof (induction rs arbitrary: m)
  case (Cons r rs)
  then show ?case by (cases r) (simp add: observe_def record_counts)
qed simp

lemma register_dom: "dom (register nm ar h reg) = insert nm (dom reg)"
  by (simp add: register_def)

lemma standard_dom: "\<exists>names. dom (registry_standard E T) = set names \<and> length names = 39"
proof -
  have "dom (registry_standard E T) = set (map lit
      [''ECHO'', ''PING'', ''SET'', ''GET'', ''DEL'', ''EXISTS'', ''TYPE'', ''EXPIRE'', ''PEXPIRE'', ''TTL'', ''PTTL'',
       ''HSET'', ''HMSET'', ''HGET'', ''HMGET'', ''HGETALL'', ''HDEL'', ''HLEN'', ''HEXISTS'',
       ''SADD'', ''SREM'', ''SISMEMBER'', ''SMEMBERS'', ''SCARD'',
       ''ZADD'', ''ZSCORE'', ''ZRANGE'', ''ZRANGEBYSCORE'', ''ZREM'', ''ZCARD'',
       ''LPUSH'', ''RPUSH'', ''LPOP'', ''RPOP'', ''LRANGE'', ''LLEN'', ''DBSIZE'', ''RAWCOUNT'', ''COMPACT''])"
    unfolding registry_standard_def register_all_def register_connectivity_def register_string_def
      register_hash_def register_set_def register_zset_def register_list_def register_admin_def registry_new_def
    by (simp add: register_dom insert_commute del: insert_iff)
  then show ?thesis by (intro exI conjI, assumption) simp
qed

lemma known_labels_card: "card (known_labels (registry_standard E T)) \<le> 47"
proof -
  obtain names where n: "dom (registry_standard E T) = set names" "length names = 39" using standard_dom by blast
  have "known_labels (registry_standard E T) = set (CONNECTION_VERBS @ names @ [lit ''UNKNOWN''])"
    by (simp add: known_labels_def n insert_commute)
  then have "card (known_labels (registry_standard E T)) \<le> length (CONNECTION_VERBS @ names @ [lit ''UNKNOWN''])"
    using card_length by metis
  then show ?thesis by (simp add: n CONNECTION_VERBS_def)
qed

lemma metrics_new_count: "count_in (commands_total metrics_new) l = 0"
  by (simp add: metrics_new_def count_in_def)

subsection \<open>Properties\<close>

text \<open>C33: Clients cannot mint metric labels.  Whatever requests a node has served, its metrics carry at most
  the 47 label values of known commands and \<open>UNKNOWN\<close>, and the counter of each label is the number
  of requests that map to it.\<close>

theorem metric_labels_bounded:
  "card (metric_labels (fold (observe (registry_standard E T) th) rs metrics_new)) \<le> 47
   \<and> count_in (commands_total (fold (observe (registry_standard E T) th) rs metrics_new)) l
     = length (filter (\<lambda>(args, _). command_label (hd args) (registry_standard E T) = l) rs)"
proof -
  let ?reg = "registry_standard E T"
  have "metric_labels metrics_new \<subseteq> known_labels ?reg" by (simp add: metric_labels_def metrics_new_def)
  then have "metric_labels (fold (observe ?reg th) rs metrics_new) \<subseteq> known_labels ?reg" by (rule observed_labels)
  moreover have "finite (known_labels ?reg)" using standard_dom [of E T] by (auto simp: known_labels_def)
  ultimately have "card (metric_labels (fold (observe ?reg th) rs metrics_new)) \<le> 47"
    using known_labels_card [of E T] card_mono order_trans by metis
  then show ?thesis by (simp add: observed_counts metrics_new_count)
qed

end
