(* ===== verification/Metrics_Endpoint.thy ===== *)
theory Metrics_Endpoint
  imports Observability Store_Correct "HOL-Library.Log_Nat"
begin

text \<open>
  The \<open>/metrics\<close> endpoint (\<open>crates/gamestore-datanode/src/observability.rs\<close>): reading a request head, the
  answer, the gauges refreshed on each scrape, and the accept loop \<open>serve_metrics\<close> with its tasks as a step
  relation beside the commands that go on meanwhile.  The exporter (\<open>PrometheusHandle\<close>) is a parameter:
  its upkeep and its rendering of the registry.
\<close>

subsection \<open>Engine gauges\<close>

text \<open>\<open>n as f64\<close>: the nearest double, ties to even.\<close>

definition u64_as_f64 :: "u64 \<Rightarrow> f64" where
  "u64_as_f64 w =
     (let n = unat w; e = floorlog 2 n - 1
      in if n = 0 then 0
         else if e \<le> 52 then of_nat ((1023 + e) * 2 ^ 52 + (n * 2 ^ (52 - e) - 2 ^ 52))
         else
           let sh = e - 52; q = n div 2 ^ sh; r = n mod 2 ^ sh;
               q' = (if r > 2 ^ (sh - 1) \<or> r = 2 ^ (sh - 1) \<and> odd q then q + 1 else q)
           in of_nat ((1023 + e) * 2 ^ 52 + (q' - 2 ^ 52)))"

definition set_gauge :: "string \<times> u64 \<Rightarrow> metrics \<Rightarrow> metrics" where
  "set_gauge st m = m\<lparr>gauges := (gauges m)(lit (fst st) \<mapsto> u64_as_f64 (snd st))\<rparr>"

definition refresh_engine_gauges :: "'e engine_ops \<Rightarrow> 'e store \<Rightarrow> metrics \<Rightarrow> metrics" where
  "refresh_engine_gauges E s m = fold set_gauge (eng_stats E (engine s)) m"

subsection \<open>Answering a request\<close>

fun has_blank_line :: "bytes \<Rightarrow> bool" where
  "has_blank_line [] \<longleftrightarrow> False"
| "has_blank_line (b # bs) \<longleftrightarrow> take 4 (b # bs) = CRLF @ CRLF \<or> has_blank_line bs"

text \<open>
  Reading the request head: \<open>reads\<close> are what successive reads of the socket return so far, an error, or
  bytes, none of them when the peer has closed; a read never returns more than the room left.  \<open>None\<close> while
  another read is needed.
\<close>

fun read_head :: "(bytes + bytes) list \<Rightarrow> bytes \<Rightarrow> (bytes + bytes) option" where
  "read_head reads buf =
     (if \<not> (length buf < 4096 \<and> \<not> has_blank_line buf) then Some (Inr buf)
      else case reads of
        [] \<Rightarrow> None
      | Inl e # _ \<Rightarrow> Some (Inl e)
      | Inr ch # reads' \<Rightarrow>
          if ch = [] then Some (Inr buf) else read_head reads' (buf @ take (4096 - length buf) ch))"

declare read_head.simps [simp del]

fun take_word :: "bytes \<Rightarrow> bytes \<times> bytes" where
  "take_word [] = ([], [])"
| "take_word (a # rest) =
     (if ws_len (a # rest) > 0 then ([], a # rest)
      else case take_word rest of (w, r) \<Rightarrow> (a # w, r))"

text \<open>\<open>split_whitespace\<close>, one word at a time; the empty string when there is none.\<close>

definition next_word :: "bytes \<Rightarrow> bytes \<times> bytes" where
  "next_word s = take_word (trim_start s)"

definition http_ok :: "bytes \<Rightarrow> bytes" where
  "http_ok body =
     lit ''HTTP/1.1 200 OK'' @ CRLF @ lit ''content-type: text/plain; version=0.0.4; charset=utf-8'' @ CRLF
       @ lit ''content-length: '' @ show_nat (length body) @ CRLF @ lit ''connection: close'' @ CRLF @ CRLF @ body"

definition http_not_found :: bytes where
  "http_not_found =
     lit ''HTTP/1.1 404 Not Found'' @ CRLF @ lit ''content-length: 0'' @ CRLF @ lit ''connection: close'' @ CRLF @ CRLF"

record exporter =
  run_upkeep :: "metrics \<Rightarrow> metrics"
  render :: "metrics \<Rightarrow> bytes"

text \<open>Whether the head asks for the metrics.\<close>

definition wants_metrics :: "bytes \<Rightarrow> bool" where
  "wants_metrics raw =
     (let (meth, rest) = next_word (from_utf8_lossy raw); (path, _) = next_word rest
      in meth = lit ''GET'' \<and> (path = lit ''/metrics'' \<or> prefix (lit ''/metrics?'') path))"

definition answer_http ::
  "'e engine_ops \<Rightarrow> exporter \<Rightarrow> (bytes + bytes) list \<Rightarrow> 'e store \<Rightarrow> metrics \<Rightarrow> ((bytes + bytes) \<times> metrics) option" where
  "answer_http E H reads s m =
     (case read_head reads [] of
        None \<Rightarrow> None
      | Some (Inl e) \<Rightarrow> Some (Inl e, m)
      | Some (Inr raw) \<Rightarrow>
          if wants_metrics raw then
            let m' = run_upkeep H (refresh_engine_gauges E s m) in Some (Inr (http_ok (render H m')), m')
          else Some (Inr http_not_found, m))"

subsection \<open>The accept loop\<close>

datatype scrape = Reading "(bytes + bytes) list" | Answered bytes | ScrapeFailed bytes

record 'e endpoint =
  ep_store :: "'e store"
  ep_metrics :: metrics
  scrapes :: "scrape list"
  ep_open :: bool

definition endpoint_new :: "'e store \<Rightarrow> metrics \<Rightarrow> 'e endpoint" where
  "endpoint_new s m = \<lparr>ep_store = s, ep_metrics = m, scrapes = [], ep_open = True\<rparr>"

text \<open>
  \<open>serve_metrics\<close>: until the shutdown future resolves, an accepted connection gets a task of its own and a failed
  accept is skipped; tasks go on when the loop has returned.  Meanwhile commands run and are recorded.
\<close>

inductive metrics_step ::
  "'e engine_ops \<Rightarrow> exporter \<Rightarrow> 'e registry \<Rightarrow> nat \<Rightarrow> 'e endpoint \<Rightarrow> 'e endpoint \<Rightarrow> bool"
  for E H reg threshold where
  scrape_accepted: "ep_open e \<Longrightarrow> metrics_step E H reg threshold e (e\<lparr>scrapes := scrapes e @ [Reading []]\<rparr>)"
| scrape_accept_failed: "ep_open e \<Longrightarrow> metrics_step E H reg threshold e e"
| scrape_read: "i < length (scrapes e) \<Longrightarrow> scrapes e ! i = Reading reads \<Longrightarrow>
    metrics_step E H reg threshold e (e\<lparr>scrapes := (scrapes e)[i := Reading (reads @ [r])]\<rparr>)"
| scrape_answered: "i < length (scrapes e) \<Longrightarrow> scrapes e ! i = Reading reads \<Longrightarrow>
    answer_http E H reads (ep_store e) (ep_metrics e) = Some (Inr body, m') \<Longrightarrow>
    metrics_step E H reg threshold e (e\<lparr>scrapes := (scrapes e)[i := Answered body], ep_metrics := m'\<rparr>)"
| scrape_failed: "i < length (scrapes e) \<Longrightarrow> scrapes e ! i = Reading reads \<Longrightarrow>
    answer_http E H reads (ep_store e) (ep_metrics e) = Some (Inl x, m') \<Longrightarrow>
    metrics_step E H reg threshold e (e\<lparr>scrapes := (scrapes e)[i := ScrapeFailed x], ep_metrics := m'\<rparr>)"
| scrape_send_failed: "i < length (scrapes e) \<Longrightarrow> scrapes e ! i = Reading reads \<Longrightarrow>
    answer_http E H reads (ep_store e) (ep_metrics e) = Some (Inr body, m') \<Longrightarrow>
    metrics_step E H reg threshold e (e\<lparr>scrapes := (scrapes e)[i := ScrapeFailed x], ep_metrics := m'\<rparr>)"
| endpoint_shutdown: "ep_open e \<Longrightarrow> metrics_step E H reg threshold e (e\<lparr>ep_open := False\<rparr>)"
| command_runs: "args \<noteq> [] \<Longrightarrow> metrics_step E H reg threshold e
    (e\<lparr>ep_store := s', ep_metrics := observe reg threshold (args, elapsed) (ep_metrics e)\<rparr>)"

inductive_cases metrics_step_cases: "metrics_step E H reg threshold e e'"

subsection \<open>Facts\<close>

lemma read_head_bounded: "length buf \<le> 4096 \<Longrightarrow> read_head reads buf = Some (Inr raw) \<Longrightarrow> length raw \<le> 4096"
proof (induction reads buf rule: read_head.induct)
  case (1 reads buf)
  then show ?case
    by (subst (asm) (2) read_head.simps) (auto split: if_splits list.splits sum.splits)
qed

lemma blank_line_grows: "has_blank_line p \<Longrightarrow> has_blank_line (p @ q)"
proof (induction p)
  case (Cons b p)
  have "take 4 ((b # p) @ q) = CRLF @ CRLF" if "take 4 (b # p) = CRLF @ CRLF"
  proof -
    have "length (take 4 (b # p)) = 4" using that by (simp add: CRLF_def)
    then show ?thesis using that by (simp add: take_Cons' split: if_splits)
  qed
  then show ?case using Cons by auto
qed simp

text \<open>However its bytes are fragmented, the head is read up to the blank line.\<close>

lemma read_head_chunks:
  assumes "buf @ concat chunks = head" "[] \<notin> set chunks"
    "length head \<le> 4096" "has_blank_line head" "\<not> has_blank_line (butlast head)"
  shows "read_head (map Inr chunks) buf = Some (Inr head)"
  using assms
proof (induction chunks arbitrary: buf)
  case Nil
  then show ?case by (simp add: read_head.simps)
next
  case (Cons ch chunks)
  have ne: "ch \<noteq> []" using Cons.prems(2) by auto
  have len: "length buf + length ch \<le> length head" unfolding Cons.prems(1) [symmetric] by simp
  have "butlast head = buf @ butlast (ch @ concat chunks)"
    unfolding Cons.prems(1) [symmetric] using ne by (simp add: butlast_append)
  then have "\<not> has_blank_line buf" using Cons.prems(5) blank_line_grows by metis
  moreover have "take (4096 - length buf) ch = ch" using len Cons.prems(3) by simp
  moreover have "read_head (map Inr chunks) (buf @ ch) = Some (Inr head)" using Cons by simp
  moreover have "length buf < 4096" using len ne Cons.prems(3) by (cases ch) simp_all
  ultimately show ?case using ne by (subst read_head.simps) simp
qed

lemma other_gauges: "g \<notin> lit ` fst ` set xs \<Longrightarrow> gauges (fold set_gauge xs m) g = gauges m g"
  by (induction xs arbitrary: m) (simp_all add: set_gauge_def)

lemma refreshed_gauges:
  assumes "distinct (map (lit \<circ> fst) stats)" "(name, val) \<in> set stats"
  shows "gauges (fold set_gauge stats m) (lit name) = Some (u64_as_f64 val)"
  using assms
proof (induction stats arbitrary: m)
  case (Cons x stats)
  show ?case
  proof (cases "x = (name, val)")
    case True
    then have "lit name \<notin> lit ` fst ` set stats" using Cons.prems(1) by (force simp: image_iff)
    then show ?thesis using True other_gauges [of "lit name" stats "set_gauge x m"]
      by (simp add: set_gauge_def [of "(name, val)"])
  next
    case False
    then show ?thesis using Cons by simp
  qed
qed simp

lemma refresh_keeps:
  "commands_total (refresh_engine_gauges E s m) = commands_total m
   \<and> command_latency (refresh_engine_gauges E s m) = command_latency m
   \<and> slow_commands_total (refresh_engine_gauges E s m) = slow_commands_total m
   \<and> slow_log (refresh_engine_gauges E s m) = slow_log m"
proof -
  have "commands_total (fold set_gauge xs m) = commands_total m \<and> command_latency (fold set_gauge xs m) = command_latency m
      \<and> slow_commands_total (fold set_gauge xs m) = slow_commands_total m \<and> slow_log (fold set_gauge xs m) = slow_log m" for xs
    by (induction xs arbitrary: m) (simp_all add: set_gauge_def)
  then show ?thesis by (simp add: refresh_engine_gauges_def)
qed

text \<open>Gauges are exact up to \<open>2^53\<close>.\<close>

lemma u64_as_f64_exact:
  assumes "unat w < 2 ^ 53"
  shows "f64_units (u64_as_f64 w) = int (unat w) * 2 ^ 1074"
proof (cases "unat w = 0")
  case True
  then show ?thesis by (simp add: u64_as_f64_def f64_units_def f64_neg_def f64_mag_def mag_units_def)
next
  case False
  define n e where "n = unat w" and "e = floorlog 2 n - 1"
  have fl: "floorlog 2 n = Suc e" using False by (simp add: n_def e_def floorlog_def)
  have b: "2 ^ e \<le> n" "n < 2 ^ Suc e" using floorlog_bounds [of n 2] False fl by (simp_all add: n_def)
  have "(2 :: nat) ^ e < 2 ^ 53" using b(1) assms by (simp add: n_def)
  then have e: "e \<le> 52" using power_less_imp_less_exp [of "2 :: nat" e 53] by simp
  define f where "f = n * 2 ^ (52 - e) - 2 ^ 52"
  have pe: "(2 :: nat) ^ e * 2 ^ (52 - e) = 2 ^ 52" using e by (simp only: power_add [symmetric]) simp
  have lo: "2 ^ 52 \<le> n * 2 ^ (52 - e)" using mult_le_mono1 [OF b(1), of "2 ^ (52 - e)"] pe by simp
  have "n * 2 ^ (52 - e) < 2 ^ Suc e * 2 ^ (52 - e)" using b(2) by (intro mult_less_mono1) simp_all
  then have hi: "n * 2 ^ (52 - e) < 2 * 2 ^ 52" using pe by (simp only: power_Suc mult.assoc)
  have f: "f < 2 ^ 52" "2 ^ 52 + f = n * 2 ^ (52 - e)" using lo hi by (simp_all add: f_def)
  have "(1023 + e) * 2 ^ 52 + f < 2 ^ 63"
  proof -
    have "(1023 + e) * 2 ^ 52 + f < (1023 + 52 + 1) * 2 ^ 52" using e f(1) by simp
    then show ?thesis by simp
  qed
  moreover have "u64_as_f64 w = of_nat ((1023 + e) * 2 ^ 52 + f)"
    using False e unfolding u64_as_f64_def Let_def f_def e_def n_def by (simp only: if_True if_False)
  ultimately have m: "unat (u64_as_f64 w) = (1023 + e) * 2 ^ 52 + f" "(1023 + e) * 2 ^ 52 + f < 2 ^ 63"
    using unat_of_nat_u64 [of "(1023 + e) * 2 ^ 52 + f"] by simp_all
  have dm: "((1023 + e) * 2 ^ 52 + f) div 2 ^ 52 = 1023 + e" "((1023 + e) * 2 ^ 52 + f) mod 2 ^ 52 = f"
    using f(1) by (simp_all only: div_mult_self3 mod_mult_self3 div_less mod_less)
  have "mag_units ((1023 + e) * 2 ^ 52 + f) = (2 ^ 52 + f) * 2 ^ (1022 + e)"
    unfolding mag_units_def Let_def dm by simp
  also have "\<dots> = n * (2 ^ (52 - e) * 2 ^ (1022 + e))" using f(2) by simp
  also have "2 ^ (52 - e) * 2 ^ (1022 + e) = (2 :: nat) ^ 1074" using e by (simp only: power_add [symmetric]) simp
  finally have "mag_units (f64_mag (u64_as_f64 w)) = n * 2 ^ 1074" using m by (simp add: f64_mag_def)
  then show ?thesis using m by (simp add: f64_units_def f64_neg_def n_def)
qed

text \<open>Nothing but commands moves the command metrics: not a scrape, whatever it asks for and however it ends.\<close>

definition command_metrics :: "metrics \<Rightarrow> (bytes \<rightharpoonup> nat) \<times> (bytes \<rightharpoonup> nat list) \<times> (bytes \<rightharpoonup> nat) \<times> slow_entry list" where
  "command_metrics m = (commands_total m, command_latency m, slow_commands_total m, slow_log m)"

lemma answer_keeps:
  assumes "answer_http E H reads s m = Some (r, m')" "\<And>m. command_metrics (run_upkeep H m) = command_metrics m"
  shows "command_metrics m' = command_metrics m"
  using assms refresh_keeps [of E s m]
  by (auto simp: answer_http_def command_metrics_def Let_def split: option.splits sum.splits if_splits)

lemma observe_command_metrics:
  "command_metrics x = command_metrics y \<Longrightarrow> command_metrics (observe reg th q x) = command_metrics (observe reg th q y)"
  by (cases q) (simp add: command_metrics_def observe_def record_command_def Let_def)

lemma step_observes:
  assumes "metrics_step E H reg th e e'" "\<And>m. command_metrics (run_upkeep H m) = command_metrics m"
  shows "command_metrics (ep_metrics e') = command_metrics (ep_metrics e)
    \<or> (\<exists>q. ep_metrics e' = observe reg th q (ep_metrics e))"
  using assms(1)
proof cases
  case (scrape_answered i reads body m')
  then show ?thesis using answer_keeps [OF scrape_answered(4) assms(2)] by simp
next
  case (scrape_failed i reads x m')
  then show ?thesis using answer_keeps [OF scrape_failed(4) assms(2)] by simp
next
  case (scrape_send_failed i reads body m' x)
  then show ?thesis using answer_keeps [OF scrape_send_failed(4) assms(2)] by simp
qed (simp_all, blast)

lemma endpoint_observes:
  assumes "(metrics_step E H reg th)\<^sup>*\<^sup>* (endpoint_new s m) e" "\<And>m. command_metrics (run_upkeep H m) = command_metrics m"
  shows "\<exists>reqs. command_metrics (ep_metrics e) = command_metrics (fold (observe reg th) reqs m)"
  using assms(1)
proof (induction rule: rtranclp_induct)
  case base
  show ?case by (rule exI [of _ "[]"]) (simp add: endpoint_new_def)
next
  case (step e e')
  then obtain reqs where r: "command_metrics (ep_metrics e) = command_metrics (fold (observe reg th) reqs m)" by blast
  from step_observes [OF step(2) assms(2)] show ?case
  proof (elim disjE exE)
    fix q assume "ep_metrics e' = observe reg th q (ep_metrics e)"
    then show ?thesis using observe_command_metrics [OF r] by (intro exI [of _ "reqs @ [q]"]) simp
  qed (use r in auto)
qed

subsection \<open>Properties\<close>

text \<open>What the documentation of the exporter and of the Prometheus text format say: upkeep moves samples around
  inside and changes no value; the rendering has, for each gauge whose name needs no escaping, a line with
  the name, a space and the value.\<close>

definition metric_name :: "bytes \<Rightarrow> bool" where
  "metric_name g \<longleftrightarrow> g \<noteq> [] \<and> (\<forall>b \<in> set g. digit b \<or> b = 95 \<or> (97 \<le> b \<and> b \<le> 122)) \<and> \<not> digit (hd g)"

definition has_line :: "bytes \<Rightarrow> bytes \<Rightarrow> bool" where
  "has_line line txt \<longleftrightarrow> (\<exists>before after. txt = before @ line @ [LF] @ after \<and> (before = [] \<or> last before = LF))"

definition prometheus_exporter :: "float_text \<Rightarrow> exporter \<Rightarrow> bool" where
  "prometheus_exporter T H \<longleftrightarrow>
     (\<forall>m. gauges (run_upkeep H m) = gauges m \<and> command_metrics (run_upkeep H m) = command_metrics m)
     \<and> (\<forall>m g x. finite (dom (gauges m)) \<longrightarrow> gauges m g = Some x \<longrightarrow> f64_is_finite x \<longrightarrow> metric_name g \<longrightarrow>
          has_line (g @ [32] @ fmt_f64 T x) (render H m))"

lemma rocks_gauge_names:
  "distinct (map (lit \<circ> fst) (rocks_stats D e))"
  "(name, key) \<in> set rocks_props \<Longrightarrow> metric_name (lit name)"
  "(name, key) \<in> set rocks_props \<Longrightarrow> db_property_int_value D (db e) key = Inr (Some val) \<Longrightarrow> (name, val) \<in> set (rocks_stats D e)"
proof -
  have "distinct (map (lit \<circ> fst) rocks_props)" by code_simp
  moreover have "map (lit \<circ> fst) (List.map_filter
        (\<lambda>(name, key). case db_property_int_value D (db e) key of Inl _ \<Rightarrow> None | Inr v \<Rightarrow> map_option (\<lambda>x. (name, x)) v) ps)
      = map (lit \<circ> fst) (filter (\<lambda>(n, p). \<exists>x. db_property_int_value D (db e) p = Inr (Some x)) ps)" for ps
    by (induction ps) (auto simp: map_filter_simps split: sum.splits option.splits)
  ultimately show "distinct (map (lit \<circ> fst) (rocks_stats D e))" by (simp add: rocks_stats_def distinct_map_filter)
  have "list_all (\<lambda>x. metric_name (lit (fst x))) rocks_props" by code_simp
  then show "(name, key) \<in> set rocks_props \<Longrightarrow> metric_name (lit name)" by (auto simp: list_all_iff)
  show "(name, key) \<in> set rocks_props \<Longrightarrow> db_property_int_value D (db e) key = Inr (Some val) \<Longrightarrow>
      (name, val) \<in> set (rocks_stats D e)"
    by (force simp: rocks_stats_def map_filter_def)
qed

lemma u64_as_f64_finite: "f64_is_finite (u64_as_f64 w)"
proof (cases "unat w = 0")
  case True
  then show ?thesis by (simp add: u64_as_f64_def f64_is_finite_def f64_mag_def f64_inf_mag_def)
next
  case False
  define n e where "n = unat w" and "e = floorlog 2 n - 1"
  have b: "2 ^ e \<le> n" "n < 2 ^ Suc e"
    using floorlog_bounds [of n 2] False by (simp_all add: n_def e_def floorlog_def)
  have "(2 :: nat) ^ e < 2 ^ 64" using b(1) unat_u64_bound [of w] by (simp add: n_def)
  then have e: "e \<le> 63" using power_less_imp_less_exp [of "2 :: nat" e 64] by simp
  have small: "f64_is_finite (of_nat ((1023 + e) * 2 ^ 52 + r))" if "r \<le> 2 ^ 52" for r
  proof -
    have "(1023 + e) * 2 ^ 52 + r \<le> (1023 + 63) * 2 ^ 52 + 2 ^ 52" using e that by (intro add_mono mult_le_mono) simp_all
    then have "(1023 + e) * 2 ^ 52 + r < 2047 * 2 ^ 52" by simp
    then show ?thesis using unat_of_nat_u64 [of "(1023 + e) * 2 ^ 52 + r"] by (simp add: f64_is_finite_def f64_mag_def f64_inf_mag_def)
  qed
  show ?thesis
  proof (cases "e \<le> 52")
    case True
    have "n * 2 ^ (52 - e) \<le> 2 ^ Suc e * 2 ^ (52 - e)" using b(2) by (intro mult_le_mono1) simp
    also have "\<dots> = 2 ^ 53" using True by (simp only: power_add [symmetric]) simp
    finally show ?thesis using small [of "n * 2 ^ (52 - e) - 2 ^ 52"] True False
      unfolding u64_as_f64_def Let_def n_def [symmetric] e_def [symmetric] by simp
  next
    case False': False
    define q where "q = n div 2 ^ (e - 52)"
    have "n < 2 ^ 53 * 2 ^ (e - 52)" using b(2) False' by (simp only: power_add [symmetric]) simp
    then have "q < 2 ^ 53" unfolding q_def by (simp add: less_mult_imp_div_less)
    then have "(if c then q + 1 else q) - 2 ^ 52 \<le> 2 ^ 52" for c by (cases c) auto
    then show ?thesis using small False False'
      unfolding u64_as_f64_def Let_def n_def [symmetric] e_def [symmetric] q_def [symmetric] by (simp only: if_False)
  qed
qed

lemma refresh_finite: "finite (dom (gauges m)) \<Longrightarrow> finite (dom (gauges (refresh_engine_gauges E s m)))"
proof -
  have "finite (dom (gauges m)) \<Longrightarrow> finite (dom (gauges (fold set_gauge xs m)))" for xs
    by (induction xs arbitrary: m) (simp_all add: set_gauge_def)
  then show "finite (dom (gauges m)) \<Longrightarrow> ?thesis" by (simp add: refresh_engine_gauges_def)
qed

text \<open>C34: A scrape reports the engine as it is.  However a request for \<open>/metrics\<close> is fragmented, it is answered
  with status 200 and a text that has, for every property the database reports a number for, the line
  of its gauge with the nearest double of that number, the number itself below \<open>2^53\<close>; and neither the
  scrape nor the exporter's upkeep moves the command metrics.\<close>

theorem scrape_reports_engine:
  assumes "prometheus_exporter T H" "finite (dom (gauges m))"
    and "concat chunks = head" "[] \<notin> set chunks" "length head \<le> 4096"
    and "has_blank_line head" "\<not> has_blank_line (butlast head)" "wants_metrics head"
  shows "\<exists>body m'. answer_http (rocks D) H (map Inr chunks) s m = Some (Inr (http_ok body), m')
    \<and> command_metrics m' = command_metrics m
    \<and> (\<forall>(name, key) \<in> set rocks_props. \<forall>val. db_property_int_value D (db (engine s)) key = Inr (Some val) \<longrightarrow>
        has_line (lit name @ [32] @ fmt_f64 T (u64_as_f64 val)) body
        \<and> (unat val < 2 ^ 53 \<longrightarrow> f64_units (u64_as_f64 val) = int (unat val) * 2 ^ 1074))"
proof -
  let ?m = "refresh_engine_gauges (rocks D) s m"
  have up: "gauges (run_upkeep H ?m) = gauges ?m" "command_metrics (run_upkeep H ?m) = command_metrics ?m"
    using assms(1) by (simp_all add: prometheus_exporter_def)
  have "read_head (map Inr chunks) [] = Some (Inr head)" using assms(3-7) by (intro read_head_chunks) simp_all
  then have run: "answer_http (rocks D) H (map Inr chunks) s m = Some (Inr (http_ok (render H (run_upkeep H ?m))), run_upkeep H ?m)"
    using assms(8) by (simp add: answer_http_def Let_def)
  have cmd: "command_metrics (run_upkeep H ?m) = command_metrics m"
    using up(2) refresh_keeps [of "rocks D" s m] by (simp add: command_metrics_def)
  have "has_line (lit name @ [32] @ fmt_f64 T (u64_as_f64 val)) (render H (run_upkeep H ?m))"
    if "(name, key) \<in> set rocks_props" "db_property_int_value D (db (engine s)) key = Inr (Some val)" for name key val
  proof -
    have "gauges (run_upkeep H ?m) (lit name) = Some (u64_as_f64 val)"
      using refreshed_gauges [OF rocks_gauge_names(1) rocks_gauge_names(3) [OF that], of m] up(1)
      by (simp add: refresh_engine_gauges_def rocks_def)
    then show ?thesis
      using assms(1) refresh_finite [OF assms(2), of "rocks D" s] up(1) rocks_gauge_names(2) [OF that(1)] u64_as_f64_finite
      unfolding prometheus_exporter_def by metis
  qed
  note lines = this
  show ?thesis
  proof (intro exI conjI ballI)
    fix x assume x: "x \<in> set rocks_props"
    show "case x of (name, key) \<Rightarrow> \<forall>val. db_property_int_value D (db (engine s)) key = Inr (Some val) \<longrightarrow>
        has_line (lit name @ [32] @ fmt_f64 T (u64_as_f64 val)) (render H (run_upkeep H ?m))
        \<and> (unat val < 2 ^ 53 \<longrightarrow> f64_units (u64_as_f64 val) = int (unat val) * 2 ^ 1074)"
    proof (cases x)
      case (Pair name key)
      then show ?thesis using lines [of name key] x u64_as_f64_exact unfolding Pair prod.case by blast
    qed
  qed (rule run, rule cmd)
qed

text \<open>An exporter that keeps to the documentation: the gauges, one per line.\<close>

definition plain_exporter :: "float_text \<Rightarrow> exporter" where
  "plain_exporter T = \<lparr>run_upkeep = (\<lambda>m. m),
     render = (\<lambda>m. concat (map (\<lambda>g. g @ [32] @ fmt_f64 T (the (gauges m g)) @ [LF]) (sorted_list_of_set (dom (gauges m)))))\<rparr>"

lemma has_line_concat:
  assumes "g \<in> set gs"
  shows "has_line (f g) (concat (map (\<lambda>g. f g @ [LF]) gs))"
proof -
  obtain xs ys where gs: "gs = xs @ g # ys" using assms by (meson split_list)
  have "xs = [] \<or> last (concat (map (\<lambda>g. f g @ [LF]) xs)) = LF" by (cases xs rule: rev_cases) simp_all
  then show ?thesis unfolding has_line_def gs
    by (intro exI [of _ "concat (map (\<lambda>g. f g @ [LF]) xs)"] exI [of _ "concat (map (\<lambda>g. f g @ [LF]) ys)"]) auto
qed

lemma plain_exporter_ok: "prometheus_exporter T (plain_exporter T)"
proof -
  have "has_line (g @ [32] @ fmt_f64 T x) (render (plain_exporter T) m)"
    if "finite (dom (gauges m))" "gauges m g = Some x" for m g x
    using has_line_concat [of g "sorted_list_of_set (dom (gauges m))" "\<lambda>g. g @ [32] @ fmt_f64 T (the (gauges m g))"] that
    by (auto simp: plain_exporter_def)
  then show ?thesis by (simp add: prometheus_exporter_def plain_exporter_def)
qed

text \<open>A database with seven keys.\<close>

definition stats_db :: "mem rocksdb" where
  "stats_db = mem_db\<lparr>db_property_int_value := (\<lambda>_ p. Inr (if p = ''rocksdb.estimate-num-keys'' then Some 7 else None))\<rparr>"

theorem scrape_reports_engine_witness:
  "\<exists>body m'. answer_http (rocks stats_db) (plain_exporter bits_text)
      (map Inr [lit ''GET /met'', lit ''rics HTTP/1.1'' @ CRLF, CRLF]) empty_store metrics_new = Some (Inr (http_ok body), m')
    \<and> has_line (lit ''rocksdb_estimate_num_keys'' @ [32] @ fmt_f64 bits_text (u64_as_f64 7)) body
    \<and> f64_units (u64_as_f64 7) = 7 * 2 ^ 1074"
proof -
  let ?cs = "[lit ''GET /met'', lit ''rics HTTP/1.1'' @ CRLF, CRLF]"
  have "finite (dom (gauges metrics_new))" by (simp add: metrics_new_def)
  moreover have "has_blank_line (concat ?cs)" "\<not> has_blank_line (butlast (concat ?cs))" by code_simp+
  moreover have "wants_metrics (concat ?cs)"
    by (simp add: wants_metrics_def lit_def CRLF_def CR_def LF_def from_utf8_lossy_ascii next_word_def trim_start.simps)
  moreover have "[] \<notin> set ?cs" "length (concat ?cs) \<le> 4096" by (simp_all add: CRLF_def lit_def)
  ultimately obtain body m' where b: "answer_http (rocks stats_db) (plain_exporter bits_text) (map Inr ?cs) empty_store metrics_new
        = Some (Inr (http_ok body), m')"
      "\<forall>(name, key) \<in> set rocks_props. \<forall>val. db_property_int_value stats_db (db (engine empty_store)) key = Inr (Some val) \<longrightarrow>
        has_line (lit name @ [32] @ fmt_f64 bits_text (u64_as_f64 val)) body
        \<and> (unat val < 2 ^ 53 \<longrightarrow> f64_units (u64_as_f64 val) = int (unat val) * 2 ^ 1074)"
    using scrape_reports_engine [OF plain_exporter_ok _ refl, where chunks = ?cs and m = metrics_new and D = stats_db
      and s = empty_store and T = bits_text] by blast
  have "(''rocksdb_estimate_num_keys'', ''rocksdb.estimate-num-keys'') \<in> set rocks_props" by (simp add: rocks_props_def)
  moreover have "db_property_int_value stats_db (db (engine empty_store)) ''rocksdb.estimate-num-keys'' = Inr (Some 7)"
    by (simp add: stats_db_def)
  ultimately show ?thesis using b by (intro exI conjI) (assumption, fastforce+)
qed

end
