(* ===== verification/Node_Config.thy ===== *)
theory Node_Config
  imports Rust_Text
begin

text \<open>
  The configuration of a DataNode (\<open>crates/gamestore-common/src/config.rs\<close>, \<open>error.rs\<close>) and the command
  line of its binary (\<open>crates/gamestore-datanode/src/main.rs\<close>): defaults, the TOML file, environment
  variables, flags, each overriding the one before.  Reading a file and parsing TOML (the \<open>toml\<close>
  crate) are arguments, as is the environment.
\<close>

type_synonym u16 = "16 word"

subsection \<open>Settings\<close>

datatype common_error =
  ConfigError bytes | IoError bytes | ProtocolFailure bytes | EngineFailure bytes
| ObservabilityError bytes | OtherError bytes

record server_config =
  srv_bind :: bytes
  srv_port :: u16

record storage_config =
  data_dir :: bytes

record logging_config =
  log_level :: bytes
  slow_log_threshold_ms :: u64

record metrics_config =
  met_enabled :: bool
  met_bind :: bytes
  met_port :: u16

record config =
  cfg_server :: server_config
  cfg_storage :: storage_config
  cfg_logging :: logging_config
  cfg_metrics :: metrics_config

definition server_config_default :: server_config where
  "server_config_default = \<lparr>srv_bind = lit ''127.0.0.1'', srv_port = 6380\<rparr>"

definition storage_config_default :: storage_config where
  "storage_config_default = \<lparr>data_dir = lit ''./data''\<rparr>"

definition logging_config_default :: logging_config where
  "logging_config_default = \<lparr>log_level = lit ''info'', slow_log_threshold_ms = 10\<rparr>"

definition metrics_config_default :: metrics_config where
  "metrics_config_default = \<lparr>met_enabled = True, met_bind = lit ''127.0.0.1'', met_port = 9600\<rparr>"

definition config_default :: config where
  "config_default =
     \<lparr>cfg_server = server_config_default, cfg_storage = storage_config_default,
      cfg_logging = logging_config_default, cfg_metrics = metrics_config_default\<rparr>"

definition server_addr :: "server_config \<Rightarrow> bytes" where
  "server_addr c = srv_bind c @ lit '':'' @ show_nat (unat (srv_port c))"

definition metrics_addr :: "metrics_config \<Rightarrow> bytes" where
  "metrics_addr c = met_bind c @ lit '':'' @ show_nat (unat (met_port c))"

subsection \<open>Parsing a setting\<close>

text \<open>\<open>str::parse\<close> for an unsigned integer: an optional plus sign, digits, no overflow.\<close>

definition unsigned_from_str :: "nat \<Rightarrow> bytes \<Rightarrow> nat option" where
  "unsigned_from_str bound s =
     (let ds = (if s \<noteq> [] \<and> hd s = 43 then tl s else s)
      in if ds \<noteq> [] \<and> (\<forall>b \<in> set ds. digit b) \<and> digits_value ds < bound then Some (digits_value ds) else None)"

definition u16_from_str :: "bytes \<Rightarrow> u16 option" where
  "u16_from_str s = map_option of_nat (unsigned_from_str (2 ^ 16) s)"

definition u64_from_str :: "bytes \<Rightarrow> u64 option" where
  "u64_from_str s = map_option of_nat (unsigned_from_str (2 ^ 64) s)"

definition bool_from_str :: "bytes \<Rightarrow> bool option" where
  "bool_from_str s = (if s = lit ''true'' then Some True else if s = lit ''false'' then Some False else None)"

subsection \<open>Environment\<close>

definition ENV_PREFIX :: bytes where
  "ENV_PREFIX = lit ''GAMESTORE_''"

definition env_var :: "(bytes \<rightharpoonup> bytes) \<Rightarrow> string \<Rightarrow> bytes option" where
  "env_var env sfx = (case env (ENV_PREFIX @ lit sfx) of Some v \<Rightarrow> if v \<noteq> [] then Some v else None | None \<Rightarrow> None)"

text \<open>\<open>if let Some(v) = env_var(..) { if let Ok(x) = v.parse() { f x } }\<close>.\<close>

definition override :: "(bytes \<rightharpoonup> bytes) \<Rightarrow> string \<Rightarrow> (bytes \<Rightarrow> 'a option) \<Rightarrow> ('a \<Rightarrow> 'c \<Rightarrow> 'c) \<Rightarrow> 'c \<Rightarrow> 'c" where
  "override env sfx pars f cfg =
     (case env_var env sfx of
        None \<Rightarrow> cfg
      | Some v \<Rightarrow> (case pars v of None \<Rightarrow> cfg | Some x \<Rightarrow> f x cfg))"

definition apply_env_overrides :: "(bytes \<rightharpoonup> bytes) \<Rightarrow> config \<Rightarrow> config" where
  "apply_env_overrides env cfg =
     (let c1 = override env ''SERVER__BIND'' Some (\<lambda>v c. c\<lparr>cfg_server := (cfg_server c)\<lparr>srv_bind := v\<rparr>\<rparr>) cfg;
          c2 = override env ''SERVER__PORT'' u16_from_str (\<lambda>p c. c\<lparr>cfg_server := (cfg_server c)\<lparr>srv_port := p\<rparr>\<rparr>) c1;
          c3 = override env ''STORAGE__DATA_DIR'' Some (\<lambda>v c. c\<lparr>cfg_storage := (cfg_storage c)\<lparr>data_dir := v\<rparr>\<rparr>) c2;
          c4 = override env ''LOGGING__LEVEL'' Some (\<lambda>v c. c\<lparr>cfg_logging := (cfg_logging c)\<lparr>log_level := v\<rparr>\<rparr>) c3;
          c5 = override env ''LOGGING__SLOW_LOG_THRESHOLD_MS'' u64_from_str
                 (\<lambda>ms c. c\<lparr>cfg_logging := (cfg_logging c)\<lparr>slow_log_threshold_ms := ms\<rparr>\<rparr>) c4;
          c6 = override env ''METRICS__ENABLED'' bool_from_str
                 (\<lambda>b c. c\<lparr>cfg_metrics := (cfg_metrics c)\<lparr>met_enabled := b\<rparr>\<rparr>) c5;
          c7 = override env ''METRICS__BIND'' Some (\<lambda>v c. c\<lparr>cfg_metrics := (cfg_metrics c)\<lparr>met_bind := v\<rparr>\<rparr>) c6
      in override env ''METRICS__PORT'' u16_from_str
           (\<lambda>p c. c\<lparr>cfg_metrics := (cfg_metrics c)\<lparr>met_port := p\<rparr>\<rparr>) c7)"

subsection \<open>Loading\<close>

definition from_toml :: "(bytes \<Rightarrow> bytes + config) \<Rightarrow> bytes \<Rightarrow> common_error + config" where
  "from_toml toml text' =
     (case toml text' of Inl e \<Rightarrow> Inl (ConfigError (lit ''parsing TOML: '' @ e)) | Inr c \<Rightarrow> Inr c)"

definition from_file ::
  "(bytes \<Rightarrow> bytes + bytes) \<Rightarrow> (bytes \<Rightarrow> bytes + config) \<Rightarrow> bytes \<Rightarrow> common_error + config" where
  "from_file read toml path =
     (case read path of
        Inl e \<Rightarrow> Inl (ConfigError (lit ''reading '' @ path @ lit '': '' @ e))
      | Inr text' \<Rightarrow> from_toml toml text')"

definition config_load ::
  "(bytes \<Rightarrow> bytes + bytes) \<Rightarrow> (bytes \<Rightarrow> bytes + config) \<Rightarrow> (bytes \<rightharpoonup> bytes) \<Rightarrow> bytes option
     \<Rightarrow> common_error + config" where
  "config_load read toml env path =
     (case (case path of Some p \<Rightarrow> from_file read toml p | None \<Rightarrow> Inr config_default) of
        Inl e \<Rightarrow> Inl e
      | Inr cfg \<Rightarrow> Inr (apply_env_overrides env cfg))"

subsection \<open>Command line\<close>

record args =
  arg_config :: "bytes option"
  arg_bind :: "bytes option"
  arg_port :: "u16 option"
  arg_data_dir :: "bytes option"

datatype stop = ShowHelp | ArgumentError bytes

definition args_none :: args where
  "args_none = \<lparr>arg_config = None, arg_bind = None, arg_port = None, arg_data_dir = None\<rparr>"

text \<open>The loop over \<open>argv\<close> after the program name.  A flag without its value is an unknown argument.\<close>

fun parse_args :: "bytes list \<Rightarrow> args \<Rightarrow> stop + args" where
  "parse_args [] a = Inr a"
| "parse_args [flag] a =
     (if flag = lit ''-h'' \<or> flag = lit ''--help'' then Inl ShowHelp
      else Inl (ArgumentError (lit ''unknown argument: '' @ flag)))"
| "parse_args (flag # v # argv) a =
     (if flag = lit ''--config'' then parse_args argv (a\<lparr>arg_config := Some v\<rparr>)
      else if flag = lit ''--bind'' then parse_args argv (a\<lparr>arg_bind := Some v\<rparr>)
      else if flag = lit ''--port'' then
        (case u16_from_str v of
           None \<Rightarrow> Inl (ArgumentError (lit ''invalid --port''))
         | Some p \<Rightarrow> parse_args argv (a\<lparr>arg_port := Some p\<rparr>))
      else if flag = lit ''--data-dir'' then parse_args argv (a\<lparr>arg_data_dir := Some v\<rparr>)
      else if flag = lit ''-h'' \<or> flag = lit ''--help'' then Inl ShowHelp
      else Inl (ArgumentError (lit ''unknown argument: '' @ flag)))"

text \<open>Flags win over the file and the environment.\<close>

definition apply_args :: "args \<Rightarrow> config \<Rightarrow> config" where
  "apply_args a cfg =
     (let c1 = (case arg_bind a of Some b \<Rightarrow> cfg\<lparr>cfg_server := (cfg_server cfg)\<lparr>srv_bind := b\<rparr>\<rparr> | None \<Rightarrow> cfg);
          c2 = (case arg_port a of Some p \<Rightarrow> c1\<lparr>cfg_server := (cfg_server c1)\<lparr>srv_port := p\<rparr>\<rparr> | None \<Rightarrow> c1)
      in case arg_data_dir a of Some d \<Rightarrow> c2\<lparr>cfg_storage := (cfg_storage c2)\<lparr>data_dir := d\<rparr>\<rparr> | None \<Rightarrow> c2)"

subsection \<open>Facts\<close>

definition first_of :: "'a option list \<Rightarrow> 'a \<Rightarrow> 'a" where
  "first_of opts x = (case filter (\<lambda>r. r \<noteq> None) opts of Some y # _ \<Rightarrow> y | _ \<Rightarrow> x)"

lemma override_fields:
  "cfg_server (override env sfx pars f c)
     = (case Option.bind (env_var env sfx) pars of None \<Rightarrow> cfg_server c | Some x \<Rightarrow> cfg_server (f x c))"
  "cfg_storage (override env sfx pars f c)
     = (case Option.bind (env_var env sfx) pars of None \<Rightarrow> cfg_storage c | Some x \<Rightarrow> cfg_storage (f x c))"
  by (simp_all add: override_def split: option.splits)

lemma case_option_const [simp]: "(case r of None \<Rightarrow> a | Some _ \<Rightarrow> a) = a"
  by (cases r) simp_all

lemma env_fields:
  "cfg_server (apply_env_overrides env cfg) =
     \<lparr>srv_bind = first_of [env_var env ''SERVER__BIND''] (srv_bind (cfg_server cfg)),
      srv_port = first_of [Option.bind (env_var env ''SERVER__PORT'') u16_from_str] (srv_port (cfg_server cfg))\<rparr>"
  "cfg_storage (apply_env_overrides env cfg) =
     \<lparr>data_dir = first_of [env_var env ''STORAGE__DATA_DIR''] (data_dir (cfg_storage cfg))\<rparr>"
  by (simp_all add: apply_env_overrides_def Let_def override_fields first_of_def split: option.splits)

text \<open>A setting is the flag's, else the valid environment variable's, else the file's.\<close>

lemma config_precedence:
  "srv_bind (cfg_server (apply_args a (apply_env_overrides env cfg)))
     = first_of [arg_bind a, env_var env ''SERVER__BIND''] (srv_bind (cfg_server cfg))"
  "srv_port (cfg_server (apply_args a (apply_env_overrides env cfg)))
     = first_of [arg_port a, Option.bind (env_var env ''SERVER__PORT'') u16_from_str] (srv_port (cfg_server cfg))"
  "data_dir (cfg_storage (apply_args a (apply_env_overrides env cfg)))
     = first_of [arg_data_dir a, env_var env ''STORAGE__DATA_DIR''] (data_dir (cfg_storage cfg))"
  "cfg_metrics (apply_args a cfg) = cfg_metrics cfg" "cfg_logging (apply_args a cfg) = cfg_logging cfg"
  by (simp_all add: apply_args_def Let_def env_fields first_of_def split: option.splits)

lemma u16_from_str_show: "u16_from_str (show_nat (unat p)) = Some p"
proof -
  have "unat p < 65536" using unsigned_less [of p, where ?'a = nat] by simp
  moreover have "\<forall>b \<in> set (show_nat (unat p)). digit b" by (rule show_nat_digits)
  moreover have "hd (show_nat (unat p)) \<noteq> 43"
    using show_nat_digits [of "unat p"] show_nat_not_empty [of "unat p"] digit_facts by (metis hd_in_set)
  ultimately show ?thesis
    by (simp add: u16_from_str_def unsigned_from_str_def Let_def show_nat_not_empty digits_value_show_nat)
qed

end
