(* ===== verification/Server_Correct.thy ===== *)
theory Server_Correct
  imports Server Commands_Correct
begin

text \<open>
  What a connection guarantees: requests are executed one by one in the order they were sent, however
  the network cuts the byte stream, each answered before the next is looked at.
\<close>

subsection \<open>Requests in sequence\<close>

abbreviation request_bytes :: "float_text \<Rightarrow> bytes list \<Rightarrow> bytes" where
  "request_bytes T args \<equiv> encode T V2 (Array (map Bulk args))"

definition request_fits :: "limits \<Rightarrow> bytes list \<Rightarrow> bool" where
  "request_fits lim args \<longleftrightarrow>
     args \<noteq> [] \<and> length args \<le> max_array_len lim \<and> (\<forall>a \<in> set args. length a \<le> max_bulk_len lim)"

primrec serve_all ::
  "'e engine_ops \<Rightarrow> float_text \<Rightarrow> 'e registry \<Rightarrow> bytes list list \<Rightarrow> conn \<Rightarrow> 'e store \<Rightarrow> conn \<times> 'e store" where
  "serve_all E T reg [] c s = (c, s)"
| "serve_all E T reg (r # rs) c s =
     (if closed c then (c, s)
      else case serve_request E T reg r c s of (c', s') \<Rightarrow> serve_all E T reg rs c' s')"

lemma serve_request_rebuf:
  "serve_request E T reg args (c\<lparr>inbuf := b\<rparr>) s
   = (case serve_request E T reg args c s of (c', s') \<Rightarrow> (c'\<lparr>inbuf := b\<rparr>, s'))"
  by (simp add: serve_request_def send_def Let_def split: option.splits prod.splits)

lemma serve_all_rebuf:
  "serve_all E T reg rs (c\<lparr>inbuf := b\<rparr>) s
   = (case serve_all E T reg rs c s of (c', s') \<Rightarrow> (c'\<lparr>inbuf := b\<rparr>, s'))"
  by (induction rs arbitrary: c s) (simp_all add: serve_request_rebuf split: prod.splits)

lemma serve_all_closed: "closed c \<Longrightarrow> serve_all E T reg rs c s = (c, s)"
  by (cases rs) simp_all

lemma serve_all_append:
  "serve_all E T reg (rs1 @ rs2) c s
   = (case serve_all E T reg rs1 c s of (c', s') \<Rightarrow> serve_all E T reg rs2 c' s')"
  by (induction rs1 arbitrary: c s) (simp_all add: serve_all_closed split: prod.splits)

lemma serve_request_limits:
  "serve_request E T reg args c s = (c', s') \<Longrightarrow> cc_limits (codec c') = cc_limits (codec c)"
  by (auto simp: serve_request_def send_def command_codec_set_version_def Let_def split: option.splits)

lemma serve_all_limits:
  "serve_all E T reg rs c s = (c', s') \<Longrightarrow> cc_limits (codec c') = cc_limits (codec c)"
  by (induction rs arbitrary: c s) (auto split: if_splits prod.splits dest: serve_request_limits)

subsection \<open>The loop executes what is buffered\<close>

lemma decode_request:
  assumes "request_fits lim args" "limits_fit lim"
  shows "decode_command (request_bytes T args @ rest) lim = (Inr (Some args), rest)"
  using assms parse_multibulk_encode [of args lim T V2 rest]
  by (simp add: decode_command_def request_fits_def nth_append)

text \<open>The start of a request, not all of it.\<close>

definition pending :: "float_text \<Rightarrow> bytes list list \<Rightarrow> bytes \<Rightarrow> bool" where
  "pending T rs q \<longleftrightarrow>
     (case rs of [] \<Rightarrow> q = [] | r # _ \<Rightarrow> \<exists>k < length (request_bytes T r). q = take k (request_bytes T r))"

lemma decode_pending:
  assumes "pending T rs q" "\<forall>r \<in> set rs. request_fits lim r" "limits_fit lim"
  shows "decode_command q lim = (Inr None, q)"
proof (cases rs)
  case Nil
  then show ?thesis using assms by (simp add: pending_def decode_command_def)
next
  case (Cons r rs')
  then obtain k where k: "k < length (request_bytes T r)" "q = take k (request_bytes T r)"
    using assms by (auto simp: pending_def)
  have "parse_multibulk (request_bytes T r) lim = Inr (Some (r, length (request_bytes T r)))"
    using parse_multibulk_encode [of r lim T V2 "[]"] assms Cons by (simp add: request_fits_def)
  then have "parse_multibulk q lim = Inr None"
    using k parse_multibulk.cut_short [where lim = lim and input = "request_bytes T r" and pos = 0 and m = k]
    by simp
  then show ?thesis using k by (cases k) (simp_all add: decode_command_def)
qed

lemma run_requests:
  assumes "limits_fit (cc_limits (codec c))" "\<forall>r \<in> set rs. request_fits (cc_limits (codec c)) r"
    and "decode_command q (cc_limits (codec c)) = (Inr None, q)"
  shows "\<exists>b. run_conn E T reg (c\<lparr>inbuf := concat (map (request_bytes T') rs) @ q\<rparr>) s
           = (case serve_all E T reg rs c s of (c', s') \<Rightarrow> (c'\<lparr>inbuf := b\<rparr>, s'))
         \<and> (\<not> closed (fst (serve_all E T reg rs c s)) \<longrightarrow> b = q)"
  using assms
proof (induction rs arbitrary: c s)
  case Nil
  then show ?case
    by (subst run_conn.simps) (auto simp: command_codec_decode_def lift_protocol_def)
next
  case (Cons r rs)
  let ?rest = "concat (map (request_bytes T') rs) @ q"
  obtain c1 s1 where r: "serve_request E T reg r c s = (c1, s1)" by fastforce
  have lim: "cc_limits (codec c1) = cc_limits (codec c)" by (rule serve_request_limits [OF r])
  have "decode_command (request_bytes T' r @ ?rest) (cc_limits (codec c)) = (Inr (Some r), ?rest)"
    using Cons.prems by (intro decode_request) simp_all
  moreover have "r \<noteq> []" using Cons.prems by (simp add: request_fits_def)
  ultimately have "run_conn E T reg (c\<lparr>inbuf := concat (map (request_bytes T') (r # rs)) @ q\<rparr>) s
      = run_conn E T reg (c1\<lparr>inbuf := ?rest\<rparr>) s1" if "\<not> closed c"
    using that r
    by (subst run_conn.simps) (simp add: command_codec_decode_def lift_protocol_def serve_request_rebuf
        del: encode.simps)
  then show ?case
    using Cons.IH [of c1 s1] Cons.prems lim r
    by (cases "closed c") (auto simp: run_conn.simps [of E T reg "c\<lparr>inbuf := _\<rparr>"])
qed

subsection \<open>Any fragmentation\<close>

text \<open>A prefix of the stream of requests is some whole requests and the start of the next.\<close>

lemma stream_prefix:
  "p @ rest = concat (map (request_bytes T) reqs) \<Longrightarrow>
     \<exists>rs1 rs2 q. reqs = rs1 @ rs2 \<and> p = concat (map (request_bytes T) rs1) @ q \<and> pending T rs2 q
       \<and> q @ rest = concat (map (request_bytes T) rs2)"
proof (induction reqs arbitrary: p)
  case Nil
  then show ?case by (simp add: pending_def)
next
  case (Cons r reqs)
  let ?m = "request_bytes T r"
  show ?case
  proof (cases "length p < length ?m")
    case True
    have "take (length p) (p @ rest) = take (length p) (?m @ concat (map (request_bytes T) reqs))"
      using Cons.prems by (simp del: encode.simps)
    then have "p = take (length p) ?m" using True by (simp del: encode.simps)
    then have "pending T (r # reqs) p" using True by (auto simp: pending_def simp del: encode.simps)
    then show ?thesis using Cons.prems
      by (intro exI [of _ "[]"] exI [of _ "r # reqs"] exI [of _ p]) (simp del: encode.simps)
  next
    case False
    let ?p' = "drop (length ?m) p"
    have "p @ rest = ?m @ concat (map (request_bytes T) reqs)" using Cons.prems by (simp del: encode.simps)
    note eq = arg_cong [OF this, of "take (length ?m)"] arg_cong [OF this, of "drop (length ?m)"]
    have p: "p = ?m @ ?p'" "?p' @ rest = concat (map (request_bytes T) reqs)"
      using eq False append_take_drop_id [of "length ?m" p] by (simp_all del: encode.simps append_take_drop_id)
    then obtain rs1 rs2 q where "reqs = rs1 @ rs2" "?p' = concat (map (request_bytes T) rs1) @ q" "pending T rs2 q"
        "q @ rest = concat (map (request_bytes T) rs2)"
      using Cons.IH by blast
    then show ?thesis using p by (intro exI [of _ "r # rs1"] exI [of _ rs2] exI [of _ q]) simp
  qed
qed

lemma receive_closed: "closed c \<Longrightarrow> \<exists>b. fold (receive E T reg) chunks (c, s) = (c\<lparr>inbuf := b\<rparr>, s)"
proof (induction chunks arbitrary: c)
  case Nil
  then show ?case by (intro exI [of _ "inbuf c"]) simp
next
  case (Cons ch chunks)
  have "receive E T reg ch (c, s) = (c\<lparr>inbuf := inbuf c @ ch\<rparr>, s)"
    using Cons.prems by (simp add: receive_def run_conn.simps)
  then show ?case using Cons.IH [of "c\<lparr>inbuf := inbuf c @ ch\<rparr>"] Cons.prems by simp
qed

lemma fragments_served:
  assumes "limits_fit (cc_limits (codec c))" "\<forall>r \<in> set reqs. request_fits (cc_limits (codec c)) r"
    and "pending T' reqs (inbuf c)" "inbuf c @ concat chunks = concat (map (request_bytes T') reqs)" "\<not> closed c"
  shows "\<exists>b. fold (receive E T reg) chunks (c, s)
           = (case serve_all E T reg reqs c s of (c', s') \<Rightarrow> (c'\<lparr>inbuf := b\<rparr>, s'))"
  using assms
proof (induction chunks arbitrary: c s reqs)
  case Nil
  have "reqs = []"
  proof (cases reqs)
    case (Cons r rs)
    then have "length (inbuf c) < length (request_bytes T' r)" using Nil(3) by (auto simp: pending_def)
    moreover have "length (inbuf c) \<ge> length (request_bytes T' r)" using Nil(4) Cons by simp
    ultimately show ?thesis by simp
  qed
  then show ?case by (intro exI [of _ "inbuf c"]) simp
next
  case (Cons ch chunks)
  obtain rs1 rs2 q where split: "reqs = rs1 @ rs2" "inbuf c @ ch = concat (map (request_bytes T') rs1) @ q"
      "pending T' rs2 q" "q @ concat chunks = concat (map (request_bytes T') rs2)"
    using stream_prefix [of "inbuf c @ ch" "concat chunks" T' reqs] Cons.prems(4) by auto
  have none: "decode_command q (cc_limits (codec c)) = (Inr None, q)"
    using decode_pending [OF split(3)] Cons.prems(1,2) split(1) by simp
  obtain c1 s1 where all: "serve_all E T reg rs1 c s = (c1, s1)" by fastforce
  then obtain b where b: "receive E T reg ch (c, s) = (c1\<lparr>inbuf := b\<rparr>, s1)" "\<not> closed c1 \<longrightarrow> b = q"
    using run_requests [of c rs1 q E T reg T' s] Cons.prems(1,2) split(1,2) none by (auto simp: receive_def)
  have lim: "cc_limits (codec c1) = cc_limits (codec c)" by (rule serve_all_limits [OF all])
  show ?case
  proof (cases "closed c1")
    case True
    then obtain b' where "fold (receive E T reg) chunks (c1\<lparr>inbuf := b\<rparr>, s1) = (c1\<lparr>inbuf := b'\<rparr>, s1)"
      using receive_closed [of "c1\<lparr>inbuf := b\<rparr>" E T reg chunks s1] by auto
    then show ?thesis using b all True by (auto simp: split(1) serve_all_append serve_all_closed)
  next
    case False
    then obtain b' where "fold (receive E T reg) chunks (c1\<lparr>inbuf := q\<rparr>, s1)
        = (case serve_all E T reg rs2 (c1\<lparr>inbuf := q\<rparr>) s1 of (c', s') \<Rightarrow> (c'\<lparr>inbuf := b'\<rparr>, s'))"
      using Cons.IH [of "c1\<lparr>inbuf := q\<rparr>" rs2 s1] Cons.prems(1,2) lim split by auto
    then show ?thesis using b all False
      by (auto simp: split(1) serve_all_append serve_all_rebuf split: prod.splits)
  qed
qed

subsection \<open>Names with a line break are not commands\<close>

definition plain_names :: "'e registry \<Rightarrow> bool" where
  "plain_names reg \<longleftrightarrow> (\<forall>nm spec. reg nm = Some spec \<longrightarrow> CR \<notin> set nm)"

lemma plain_names_register: "plain_names reg \<Longrightarrow> CR \<notin> set nm \<Longrightarrow> plain_names (register nm ar h reg)"
  by (simp add: plain_names_def register_def)

lemma plain_names_standard: "plain_names (registry_standard E T)"
proof -
  have "plain_names registry_new" by (simp add: plain_names_def registry_new_def)
  then show ?thesis
    unfolding registry_standard_def register_all_def register_connectivity_def register_string_def
      register_hash_def register_set_def register_zset_def register_list_def register_admin_def
    by simp (intro plain_names_register; simp add: lit_def CR_def)
qed

lemma decode_error_reply:
  assumes "utf8_valid t" "crlf_free t"
  shows "decode T (encode T v (Error t) @ rest) lim = (Inr (Some (Error t)), rest)"
  using assms by (simp add: decode_def parse_frame.simps text_line_def str_from_def numeral_3_eq_3
      on_line_at [of t "[]" 45 rest, simplified])

text \<open>A command of the registry leaves the connection open and its reply at the end of the output.\<close>

lemma serve_registered:
  assumes "registry_dispatch reg (cc_version (codec c)) (nm # args) s = Some (fr, s')"
    and "to_ascii_uppercase (from_utf8_lossy nm) \<notin> set CONNECTION_VERBS"
  shows "serve_request E T reg (nm # args) c s
    = (c\<lparr>outbuf := outbuf c @ encode T (cc_version (codec c)) fr, closed := False\<rparr>, s')"
proof -
  have "dispatch E reg (nm # args) (cc_version (codec c)) (conn_id c) s = Some (action_reply fr, s')"
    using assms by (simp add: dispatch_def with_arg_def Let_def CONNECTION_VERBS_def)
  then show ?thesis by (simp add: serve_request_def action_reply_def send_def command_codec_encode_def)
qed

lemma default_limits_fit: "limits_fit default_limits"
  by (simp add: limits_fit_def default_limits_def)

lemma pending_start: "pending T' reqs (inbuf (conn_new i))"
  by (auto simp: pending_def conn_new_def split: list.splits intro: exI [of _ 0])

subsection \<open>Properties\<close>

text \<open>C4: Requests sent over a connection, as RESP arrays within the default limits, are executed exactly once each, in order, one after the other,
  until one closes the connection, whatever way the network fragments the bytes; the bytes sent
  back, the store and the negotiated version are those of executing the requests in sequence.\<close>

theorem requests_in_order:
  assumes "\<forall>r \<in> set reqs. request_fits default_limits r"
    and "concat chunks = concat (map (request_bytes T') reqs)"
  shows "\<exists>b. fold (receive E T reg) chunks (conn_new i, s)
           = (case serve_all E T reg reqs (conn_new i) s of (c', s') \<Rightarrow> (c'\<lparr>inbuf := b\<rparr>, s'))"
proof (rule fragments_served)
  show "pending T' reqs (inbuf (conn_new i))" by (rule pending_start)
qed (use assms default_limits_fit in \<open>simp_all add: conn_new_def command_codec_new_def\<close>)

lemma serve_ping:
  "serve_request (rocks mem_db) bits_text (registry_standard (rocks mem_db) bits_text) [lit ''PING''] (conn_new 1) empty_store
   = (conn_new 1\<lparr>outbuf := [43, 80, 79, 78, 71, 13, 10]\<rparr>, empty_store)"
proof -
  have up: "to_ascii_uppercase (from_utf8_lossy (lit ''PING'')) = lit ''PING''"
    by (simp add: lit_def from_utf8_lossy_ascii to_ascii_uppercase_def ascii_upper_def)
  have "registry_dispatch (registry_standard (rocks mem_db) bits_text) V2 [lit ''PING''] empty_store
      = Some (Simple (lit ''PONG''), empty_store)"
    unfolding registry_dispatch_def list.case up
    by (simp add: standard_defs arity_matches_def cmd_ping_def)
  moreover have "encode bits_text V2 (Simple (lit ''PONG'')) = [43, 80, 79, 78, 71, 13, 10]"
    by (simp add: lit_def CRLF_def CR_def LF_def)
  ultimately show ?thesis
    by (simp add: serve_request_def dispatch_def with_arg_def up Let_def conn_new_def command_codec_new_def
        action_reply_def send_def command_codec_encode_def del: encode.simps)
qed

theorem requests_in_order_witness:
  "outbuf (fst (fold (receive (rocks mem_db) bits_text (registry_standard (rocks mem_db) bits_text))
     [take 3 (request_bytes bits_text [lit ''PING'']), drop 3 (request_bytes bits_text [lit ''PING''])]
     (conn_new 1, empty_store))) = [43, 80, 79, 78, 71, 13, 10]"
proof -
  have fits: "\<forall>r \<in> set [[lit ''PING'']]. request_fits default_limits r"
    by (simp add: request_fits_def default_limits_def lit_def)
  have cat: "concat [take 3 (request_bytes bits_text [lit ''PING'']), drop 3 (request_bytes bits_text [lit ''PING''])]
      = concat (map (request_bytes bits_text) [[lit ''PING'']])"
    by (simp del: encode.simps)
  show ?thesis
    using requests_in_order [OF fits cat, of "rocks mem_db" bits_text
        "registry_standard (rocks mem_db) bits_text" 1 empty_store] serve_ping
    by (auto simp: conn_new_def simp del: encode.simps fold.simps)
qed

text \<open>C38: The reply to an unknown command repeats the command name unescaped.  A name with a line break in it
  makes the one reply into a complete error reply followed by bytes of the client's choosing, which
  the reader of the connection takes for the next reply.\<close>

theorem unknown_command_reply_splits:
  assumes "\<forall>b \<in> set (a @ extra). b < 0x80" "CR \<notin> set a"
  shows "\<exists>fr. dispatch E (registry_standard E T) [a @ CRLF @ extra] v i s = Some (action_reply fr, s)
     \<and> decode T (encode T v fr) lim
       = (Inr (Some (Error (lit ''ERR unknown command '' @ [39] @ a))), extra @ [39] @ CRLF)"
proof -
  let ?nm = "a @ CRLF @ extra"
  let ?fr = "Error (lit ''ERR unknown command '' @ [39] @ ?nm @ [39])"
  have lossy: "from_utf8_lossy ?nm = ?nm"
    using assms by (intro from_utf8_lossy_ascii) (auto simp: CRLF_def CR_def LF_def)
  have cr: "CR \<in> set (to_ascii_uppercase ?nm)"
    by (simp add: to_ascii_uppercase_def CRLF_def) (simp add: ascii_upper_def CR_def)
  then have none: "registry_standard E T (to_ascii_uppercase ?nm) = None"
    using plain_names_standard [of E T] by (auto simp: plain_names_def)
  have verbs: "to_ascii_uppercase ?nm \<notin> set CONNECTION_VERBS"
    using cr by (auto simp: CONNECTION_VERBS_def lit_def CR_def)
  have "dispatch E (registry_standard E T) [?nm] v i s = Some (action_reply ?fr, s)"
    unfolding dispatch_def with_arg_def registry_dispatch_def
    using verbs by (simp add: lossy none Let_def CONNECTION_VERBS_def del: append.simps)
  moreover have "encode T v ?fr = encode T v (Error (lit ''ERR unknown command '' @ [39] @ a)) @ extra @ [39] @ CRLF"
    by simp
  moreover have "utf8_valid (lit ''ERR unknown command '' @ [39] @ a)"
    using assms(1) by (intro utf8_ascii) (auto simp: lit_def)
  moreover have "crlf_free (lit ''ERR unknown command '' @ [39] @ a)"
    using assms(2) by (intro crlf_freeI) (auto simp: lit_def CR_def)
  ultimately show ?thesis
    using decode_error_reply [of "lit ''ERR unknown command '' @ [39] @ a" T v "extra @ [39] @ CRLF" lim]
    by (intro exI [of _ ?fr]) simp
qed

theorem unknown_command_reply_splits_witness:
  "\<exists>fr. dispatch (rocks mem_db) (registry_standard (rocks mem_db) bits_text) [lit ''X'' @ CRLF @ lit '':1''] V2 1 empty_store
       = Some (action_reply fr, empty_store)
     \<and> decode bits_text (encode bits_text V2 fr) default_limits
       = (Inr (Some (Error (lit ''ERR unknown command '' @ [39] @ lit ''X''))), lit '':1'' @ [39] @ CRLF)"
  by (rule unknown_command_reply_splits) (simp_all add: lit_def CR_def)

end
