(* ===== verification/Node.thy ===== *)
theory Node
  imports Server_Correct
begin

text \<open>
  The DataNode as a whole (\<open>serve_with\<close> and \<open>handle_connection\<close> of
  \<open>crates/gamestore-datanode/src/server.rs\<close>): the accept loop, one task per connection, all working on
  one store, and graceful shutdown.  A step is one thing that happens: a connection is accepted, its
  task starts, looks at the shutdown flag, receives bytes, takes a request, executes it, has sent
  the reply; the listener stops, the shutdown signal is sent, a task ends.  Steps of different tasks interleave
  freely, also between the steps of one request.
\<close>

subsection \<open>Tasks\<close>

text \<open>
  Where a task is: not yet started; at the top of its loop; in the select, past the look at the shutdown flag
  and polling \<open>framed.next()\<close>; with a request taken; in \<open>framed.send(..).await\<close>, the reply encoded; at its end.
  In \<open>Sending\<close> the field \<open>closed\<close> says whether the task ends after the reply.
\<close>

datatype task =
    Spawned
  | Running conn
  | Polling conn
  | Handling "bytes list" conn
  | Sending conn
  | Finished conn

text \<open>What \<open>framed.next()\<close> yields: a request, a protocol error to report, or nothing yet, and then the select
  starts again with the shutdown flag.\<close>

definition take_item :: "float_text \<Rightarrow> conn \<Rightarrow> task" where
  "take_item T c =
     (case command_codec_decode (codec c) (inbuf c) of
        (Inl e, buf) \<Rightarrow>
          Sending ((send T (Error (lit ''ERR Protocol error: '' @ codec_error_text e)) (c\<lparr>inbuf := buf\<rparr>))\<lparr>closed := True\<rparr>)
      | (Inr None, buf) \<Rightarrow> Running (c\<lparr>inbuf := buf\<rparr>)
      | (Inr (Some args), buf) \<Rightarrow>
          if args = [] then Running (c\<lparr>inbuf := buf\<rparr>) else Handling args (c\<lparr>inbuf := buf\<rparr>))"

subsection \<open>The node\<close>

record 'e node =
  node_store :: "'e store"
  next_conn_id :: u64
  tasks :: "task list"
  accepting :: bool
  signalled :: bool
  conn_active :: int

definition node_new :: "'e store \<Rightarrow> 'e node" where
  "node_new s = \<lparr>node_store = s, next_conn_id = 1, tasks = [], accepting = True, signalled = False, conn_active = 0\<rparr>"

definition set_task :: "nat \<Rightarrow> task \<Rightarrow> 'e node \<Rightarrow> 'e node" where
  "set_task i t n = n\<lparr>tasks := (tasks n)[i := t]\<rparr>"

text \<open>A task ends when its connection is closed; a task that ends takes itself off the gauge of open connections.\<close>

definition finish_task :: "nat \<Rightarrow> conn \<Rightarrow> 'e node \<Rightarrow> 'e node" where
  "finish_task i c n = (set_task i (Finished c) n)\<lparr>conn_active := conn_active n - 1\<rparr>"

definition after_turn :: "nat \<Rightarrow> conn \<Rightarrow> 'e node \<Rightarrow> 'e node" where
  "after_turn i c n = (if closed c then finish_task i c n else set_task i (Running c) n)"

definition task_at :: "'e node \<Rightarrow> nat \<Rightarrow> task option" where
  "task_at n i = (if i < length (tasks n) then Some (tasks n ! i) else None)"

text \<open>
  The select is biased: a task at the top of its loop ends once shutdown is signalled, and goes on to
  poll its connection otherwise; the accept loop has stopped before.  A request that has been taken is
  executed and answered whatever the signal; the send is not part of a select and takes as long as the
  client lets it.  A transport failure, including bytes left over when the client closes, is an \<open>Io\<close> error: the
  client is told, then the task ends.  When a reply cannot be sent the task ends with the request executed.
\<close>

inductive node_step ::
  "'e engine_ops \<Rightarrow> float_text \<Rightarrow> 'e registry \<Rightarrow> 'e node \<Rightarrow> 'e node \<Rightarrow> bool"
  for E T reg where
  accept: "accepting n \<Longrightarrow> node_step E T reg n (n\<lparr>tasks := tasks n @ [Spawned]\<rparr>)"
| start: "task_at n i = Some Spawned \<Longrightarrow>
    node_step E T reg n
      ((set_task i (Running (conn_new (sint (next_conn_id n)))) n)
        \<lparr>next_conn_id := next_conn_id n + 1, conn_active := conn_active n + 1\<rparr>)"
| stop: "task_at n i = Some (Running c) \<Longrightarrow> signalled n \<Longrightarrow>
    node_step E T reg n (finish_task i c n)"
| poll: "task_at n i = Some (Running c) \<Longrightarrow> \<not> signalled n \<Longrightarrow>
    node_step E T reg n (set_task i (Polling c) n)"
| deliver: "task_at n i = Some (Polling c) \<Longrightarrow>
    node_step E T reg n (set_task i (Polling (c\<lparr>inbuf := inbuf c @ chunk\<rparr>)) n)"
| item: "task_at n i = Some (Polling c) \<Longrightarrow> node_step E T reg n (set_task i (take_item T c) n)"
| client_closed: "task_at n i = Some (Polling c) \<Longrightarrow> inbuf c = [] \<Longrightarrow>
    node_step E T reg n (finish_task i c n)"
| io_error: "task_at n i = Some (Polling c) \<Longrightarrow>
    node_step E T reg n (set_task i
      (Sending ((send T (Error (lit ''ERR Protocol error: '' @ codec_error_text (Io m))) c)\<lparr>closed := True\<rparr>)) n)"
| execute: "task_at n i = Some (Handling args c) \<Longrightarrow>
    serve_request E T reg args c (node_store n) = (c', s') \<Longrightarrow>
    node_step E T reg n ((set_task i (Sending c') n)\<lparr>node_store := s'\<rparr>)"
| sent: "task_at n i = Some (Sending c) \<Longrightarrow> node_step E T reg n (after_turn i c n)"
| send_failed: "task_at n i = Some (Sending c) \<Longrightarrow> node_step E T reg n (finish_task i c n)"
| shutdown: "accepting n \<Longrightarrow> node_step E T reg n (n\<lparr>accepting := False\<rparr>)"
| signal: "\<not> accepting n \<Longrightarrow> \<not> signalled n \<Longrightarrow> node_step E T reg n (n\<lparr>signalled := True\<rparr>)"

text \<open>\<open>serve_with\<close> returns when every task has been joined.\<close>

definition is_finished :: "task \<Rightarrow> bool" where
  "is_finished t \<longleftrightarrow> (case t of Finished _ \<Rightarrow> True | _ \<Rightarrow> False)"

definition drained :: "'e node \<Rightarrow> bool" where
  "drained n \<longleftrightarrow> signalled n \<and> list_all is_finished (tasks n)"

inductive_cases node_step_cases [consumes 1, case_names accept start stop poll deliver item client_closed io_error
  execute sent send_failed shutdown signal]: "node_step E T reg n n'"

subsection \<open>Tasks and the loop\<close>

lemma take_item_cases:
  obtains (error) e buf where "command_codec_decode (codec c) (inbuf c) = (Inl e, buf)"
      "take_item T c
        = Sending ((send T (Error (lit ''ERR Protocol error: '' @ codec_error_text e)) (c\<lparr>inbuf := buf\<rparr>))\<lparr>closed := True\<rparr>)"
  | (nothing) buf where "command_codec_decode (codec c) (inbuf c) = (Inr None, buf)" "take_item T c = Running (c\<lparr>inbuf := buf\<rparr>)"
  | (empty) buf where "command_codec_decode (codec c) (inbuf c) = (Inr (Some []), buf)" "take_item T c = Running (c\<lparr>inbuf := buf\<rparr>)"
  | (request) args buf where "command_codec_decode (codec c) (inbuf c) = (Inr (Some args), buf)" "args \<noteq> []"
      "take_item T c = Handling args (c\<lparr>inbuf := buf\<rparr>)"
proof (cases "command_codec_decode (codec c) (inbuf c)")
  case (Pair r buf)
  then consider e where "r = Inl e" | "r = Inr None" | args where "r = Inr (Some args)" by (metis sum.exhaust option.exhaust)
  then show thesis using that Pair by cases (auto simp: take_item_def split: if_splits)
qed

text \<open>Taking an item, executing it and replying is one turn of the loop of a connection (\<open>run_conn\<close>).\<close>

lemma run_conn_turn:
  assumes "\<not> closed c"
  shows "take_item T c = Handling args c' \<Longrightarrow>
      run_conn E T reg c s = (case serve_request E T reg args c' s of (c'', s') \<Rightarrow> run_conn E T reg c'' s')"
    "take_item T c = Sending c' \<Longrightarrow> run_conn E T reg c s = (c', s)"
    "take_item T c = Running c' \<Longrightarrow> run_conn E T reg c s = (c', s) \<or> run_conn E T reg c s = run_conn E T reg c' s"
proof -
  show "take_item T c = Handling args c' \<Longrightarrow>
      run_conn E T reg c s = (case serve_request E T reg args c' s of (c'', s') \<Rightarrow> run_conn E T reg c'' s')"
    by (cases T c rule: take_item_cases; subst run_conn.simps) (use assms in auto)
  show "take_item T c = Sending c' \<Longrightarrow> run_conn E T reg c s = (c', s)"
    by (cases T c rule: take_item_cases; subst run_conn.simps) (use assms in auto)
  show "take_item T c = Running c' \<Longrightarrow> run_conn E T reg c s = (c', s) \<or> run_conn E T reg c s = run_conn E T reg c' s"
    by (cases T c rule: take_item_cases; subst (1 2) run_conn.simps) (use assms in auto)
qed

lemma serve_request_id: "conn_id (fst (serve_request E T reg args c s)) = conn_id c"
  by (auto simp: serve_request_def send_def Let_def split: option.splits)

subsection \<open>Connection identifiers\<close>

fun task_conn :: "task \<Rightarrow> conn option" where
  "task_conn Spawned = None"
| "task_conn (Running c) = Some c"
| "task_conn (Polling c) = Some c"
| "task_conn (Handling args c) = Some c"
| "task_conn (Sending c) = Some c"
| "task_conn (Finished c) = Some c"

lemma take_item_id: "map_option conn_id (task_conn (take_item T c)) = Some (conn_id c)"
  by (cases T c rule: take_item_cases) (simp_all add: send_def)

definition conn_of :: "'e node \<Rightarrow> nat \<Rightarrow> conn option" where
  "conn_of n i = Option.bind (task_at n i) task_conn"

text \<open>Tasks hold the numbers they drew, in some order.\<close>

definition ids_inv :: "'e node \<Rightarrow> bool" where
  "ids_inv n \<longleftrightarrow>
     next_conn_id n = 1 + of_nat (card (dom (conn_of n)))
     \<and> (\<exists>f. inj_on f (dom (conn_of n)) \<and> f ` dom (conn_of n) \<subseteq> {..<card (dom (conn_of n))}
          \<and> (\<forall>i c. conn_of n i = Some c \<longrightarrow> conn_id c = sint (1 + of_nat (f i) :: u64)))"

lemma task_at_set:
  "task_at n i = Some t \<Longrightarrow> task_at (set_task i u n) j = (if j = i then Some u else task_at n j)"
  by (auto simp: task_at_def set_task_def split: if_splits)

lemma task_at_fields [simp]:
  "task_at (n\<lparr>next_conn_id := x\<rparr>) = task_at n" "task_at (n\<lparr>node_store := s\<rparr>) = task_at n"
  "task_at (n\<lparr>accepting := b\<rparr>) = task_at n" "task_at (n\<lparr>signalled := b\<rparr>) = task_at n"
  "task_at (n\<lparr>conn_active := g\<rparr>) = task_at n"
  by (simp_all add: task_at_def fun_eq_iff)

lemma set_task_fields [simp]:
  "next_conn_id (set_task i t n) = next_conn_id n" "node_store (set_task i t n) = node_store n"
  "accepting (set_task i t n) = accepting n" "signalled (set_task i t n) = signalled n"
  "length (tasks (set_task i t n)) = length (tasks n)" "conn_active (set_task i t n) = conn_active n"
  by (simp_all add: set_task_def)

lemma conn_of_fields [simp]:
  "conn_of (n\<lparr>next_conn_id := x\<rparr>) = conn_of n" "conn_of (n\<lparr>node_store := s\<rparr>) = conn_of n"
  "conn_of (n\<lparr>accepting := b\<rparr>) = conn_of n" "conn_of (n\<lparr>signalled := b\<rparr>) = conn_of n"
  "conn_of (n\<lparr>conn_active := g\<rparr>) = conn_of n"
  by (simp_all add: conn_of_def fun_eq_iff)

lemma conn_of_set:
  "task_at n i = Some t \<Longrightarrow> conn_of (set_task i u n) = (conn_of n)(i := task_conn u)"
  by (auto simp: conn_of_def task_at_set fun_eq_iff)

lemma conn_of_spawned: "conn_of (n\<lparr>tasks := tasks n @ [Spawned]\<rparr>) = conn_of n"
  by (auto simp: conn_of_def task_at_def nth_append fun_eq_iff)

lemma conns_among: "dom (conn_of n) \<subseteq> {..<length (tasks n)}"
  by (auto simp: conn_of_def task_at_def split: if_splits)

lemma finite_conns: "finite (dom (conn_of n))"
  using conns_among finite_subset by blast

text \<open>A step that keeps everyone's identifier.\<close>

lemma ids_inv_same:
  assumes "ids_inv n" "next_conn_id n' = next_conn_id n"
    and "\<And>i. map_option conn_id (conn_of n' i) = map_option conn_id (conn_of n i)"
  shows "ids_inv n'"
proof -
  have "dom (conn_of n') = dom (conn_of n)"
    using assms(3) by (metis (no_types, lifting) domIff map_option_is_None subsetI subset_antisym)
  moreover have "\<exists>c. conn_of n i = Some c \<and> conn_id c = conn_id c'" if "conn_of n' i = Some c'" for i c'
    using assms(3) [of i] that by (cases "conn_of n i") auto
  ultimately show ?thesis using assms(1,2) unfolding ids_inv_def by metis
qed

lemma ids_inv_set:
  assumes "ids_inv n" "task_at n i = Some u" "map_option conn_id (task_conn t) = map_option conn_id (task_conn u)"
  shows "ids_inv (set_task i t n)"
  using assms by (intro ids_inv_same [OF assms(1)]) (auto simp: conn_of_set conn_of_def)

lemma ids_inv_fields [simp]:
  "ids_inv (n\<lparr>node_store := s\<rparr>) = ids_inv n" "ids_inv (n\<lparr>conn_active := g\<rparr>) = ids_inv n"
  by (simp_all add: ids_inv_def)

lemma ids_inv_finish:
  "ids_inv n \<Longrightarrow> task_at n i = Some u \<Longrightarrow> task_conn u = Some c \<Longrightarrow> ids_inv (finish_task i c n)"
  using ids_inv_set [of n i u "Finished c"] by (simp add: finish_task_def)

lemma ids_inv_start:
  assumes "ids_inv n" "task_at n i = Some Spawned"
  shows "ids_inv ((set_task i (Running (conn_new (sint (next_conn_id n)))) n)
    \<lparr>next_conn_id := next_conn_id n + 1, conn_active := g\<rparr>)"
proof -
  let ?D = "dom (conn_of n)" and ?n' = "(set_task i (Running (conn_new (sint (next_conn_id n)))) n)\<lparr>next_conn_id := next_conn_id n + 1\<rparr>"
  have nxt: "next_conn_id n = 1 + of_nat (card ?D)" using assms(1) by (simp add: ids_inv_def)
  have i: "i \<notin> ?D" using assms(2) by (simp add: conn_of_def dom_def)
  obtain f where f: "inj_on f ?D" "f ` ?D \<subseteq> {..<card ?D}"
      "\<And>i c. conn_of n i = Some c \<Longrightarrow> conn_id c = sint (1 + of_nat (f i) :: u64)"
    using assms(1) unfolding ids_inv_def by auto
  have c: "conn_of ?n' = (conn_of n)(i \<mapsto> conn_new (sint (next_conn_id n)))"
    using assms(2) by (simp add: conn_of_set)
  have d: "dom (conn_of ?n') = insert i ?D" "card (insert i ?D) = Suc (card ?D)"
    using i finite_conns [of n] unfolding c by simp_all
  have "inj_on (f(i := card ?D)) (insert i ?D)" using f(1,2) i by (fastforce simp: inj_on_def image_subset_iff)
  moreover have "(f(i := card ?D)) ` insert i ?D \<subseteq> {..<Suc (card ?D)}" using f(2) i by (fastforce simp: less_Suc_eq image_subset_iff)
  moreover have "\<forall>j c. conn_of ?n' j = Some c \<longrightarrow> conn_id c = sint (1 + of_nat ((f(i := card ?D)) j) :: u64)"
    using f(3) nxt unfolding c by (auto simp: conn_new_def)
  moreover have "next_conn_id ?n' = 1 + of_nat (Suc (card ?D))" by (simp add: nxt)
  ultimately have "ids_inv ?n'" unfolding ids_inv_def d by blast
  then show ?thesis by simp
qed

lemma ids_inv_step: "node_step E T reg n n' \<Longrightarrow> ids_inv n \<Longrightarrow> ids_inv n'"
proof (induction rule: node_step.induct)
  case (execute n i args c c' s')
  have "conn_id c' = conn_id c" using serve_request_id [of E T reg args c "node_store n"] execute(2) by simp
  then show ?case using execute ids_inv_set [of n i "Handling args c" "Sending c'"] by simp
next
  case (item n i c)
  then show ?case using ids_inv_set [of n i "Polling c" "take_item T c"] take_item_id [of T c] by simp
next
  case (sent n i c)
  then show ?case using ids_inv_set [of n i "Sending c" "Running c"] by (simp add: after_turn_def ids_inv_finish)
qed (auto intro: ids_inv_start ids_inv_set ids_inv_finish ids_inv_same simp: conn_of_spawned send_def)

lemma ids_inv_reachable: "(node_step E T reg)\<^sup>*\<^sup>* (node_new s) n \<Longrightarrow> ids_inv n"
proof (induction rule: rtranclp_induct)
  case base
  have "conn_of (node_new s) = Map.empty" by (simp add: conn_of_def task_at_def node_new_def fun_eq_iff)
  then show ?case by (simp add: ids_inv_def node_new_def)
qed (rule ids_inv_step)

lemma conns_bounded: "card (dom (conn_of n)) \<le> length (tasks n)"
  using card_mono [OF _ conns_among [of n]] by simp

subsection \<open>Shutdown\<close>

text \<open>The most steps a task has left once shutdown is signalled, the arrival of bytes apart.\<close>

fun task_rank :: "task \<Rightarrow> nat" where
  "task_rank Spawned = 2"
| "task_rank (Polling c) = 4"
| "task_rank (Handling args c) = 3"
| "task_rank (Sending c) = 2"
| "task_rank (Running c) = 1"
| "task_rank (Finished c) = 0"

lemma take_item_rank: "task_rank (take_item T c) < 4" "take_item T c \<noteq> Polling c'"
  by (cases T c rule: take_item_cases; simp)+

definition remaining_work :: "'e node \<Rightarrow> nat" where
  "remaining_work n = sum_list (map task_rank (tasks n))"

lemma weights_set:
  fixes w :: "task \<Rightarrow> nat"
  assumes "task_at n i = Some t"
  shows "sum_list (map w (tasks (set_task i u n))) + w t = sum_list (map w (tasks n)) + w u"
  using assms sum_list_update [of i "map w (tasks n)" "w u"] member_le_sum_list [of "w t" "map w (tasks n)"]
  by (auto simp: set_task_def task_at_def map_update split: if_splits)

lemma remaining_set:
  assumes "task_at n i = Some t"
  shows "remaining_work (set_task i u n) + task_rank t = remaining_work n + task_rank u"
  unfolding remaining_work_def by (rule weights_set [OF assms])

lemma remaining_fields [simp]:
  "remaining_work (n\<lparr>next_conn_id := x\<rparr>) = remaining_work n"
  "remaining_work (n\<lparr>node_store := s\<rparr>) = remaining_work n"
  "remaining_work (n\<lparr>accepting := b\<rparr>) = remaining_work n"
  "remaining_work (n\<lparr>signalled := b\<rparr>) = remaining_work n"
  "remaining_work (n\<lparr>conn_active := g\<rparr>) = remaining_work n"
  by (simp_all add: remaining_work_def)

text \<open>The gauge of open connections counts the tasks that have started and not ended.\<close>

definition task_open :: "task \<Rightarrow> nat" where
  "task_open t = (case t of Spawned \<Rightarrow> 0 | Finished _ \<Rightarrow> 0 | _ \<Rightarrow> 1)"

lemma task_open_simps [simp]:
  "task_open Spawned = 0" "task_open (Running c) = 1" "task_open (Polling c) = 1" "task_open (Handling args c) = 1"
  "task_open (Sending c) = 1" "task_open (Finished c) = 0" "task_open (take_item T c) = 1"
  by (cases T c rule: take_item_cases; simp add: task_open_def)+

definition open_tasks :: "'e node \<Rightarrow> nat" where
  "open_tasks n = sum_list (map task_open (tasks n))"

lemma open_set: "task_at n i = Some t \<Longrightarrow> open_tasks (set_task i u n) + task_open t = open_tasks n + task_open u"
  unfolding open_tasks_def by (rule weights_set)

lemma open_fields [simp]:
  "open_tasks (n\<lparr>next_conn_id := x\<rparr>) = open_tasks n" "open_tasks (n\<lparr>node_store := s\<rparr>) = open_tasks n"
  "open_tasks (n\<lparr>accepting := b\<rparr>) = open_tasks n" "open_tasks (n\<lparr>signalled := b\<rparr>) = open_tasks n"
  "open_tasks (n\<lparr>conn_active := g\<rparr>) = open_tasks n" "open_tasks (n\<lparr>tasks := tasks n @ [Spawned]\<rparr>) = open_tasks n"
  by (simp_all add: open_tasks_def)

lemma open_moves:
  "task_at n i = Some (Running c) \<Longrightarrow> open_tasks (set_task i (Polling c') n) = open_tasks n"
  "task_at n i = Some (Polling c) \<Longrightarrow> open_tasks (set_task i (Polling c') n) = open_tasks n"
  "task_at n i = Some (Polling c) \<Longrightarrow> open_tasks (set_task i (Sending c') n) = open_tasks n"
  "task_at n i = Some (Polling c) \<Longrightarrow> open_tasks (set_task i (take_item T c) n) = open_tasks n"
  "task_at n i = Some (Handling args c) \<Longrightarrow> open_tasks (set_task i (Sending c') n) = open_tasks n"
  "task_at n i = Some (Sending c) \<Longrightarrow> open_tasks (set_task i (Running c') n) = open_tasks n"
  using open_set [of n i "Running c" "Polling c'"] open_set [of n i "Polling c" "Polling c'"]
    open_set [of n i "Polling c" "Sending c'"] open_set [of n i "Polling c" "take_item T c"]
    open_set [of n i "Handling args c" "Sending c'"] open_set [of n i "Sending c" "Running c'"] by simp_all

lemma gauge_finish:
  "task_at n i = Some t \<Longrightarrow> task_open t = 1 \<Longrightarrow> conn_active n = int (open_tasks n) \<Longrightarrow>
    conn_active (finish_task i c n) = int (open_tasks (finish_task i c n))"
  using open_set [of n i t "Finished c"] by (simp add: finish_task_def)

lemma gauge_step:
  "node_step E T reg n n' \<Longrightarrow> conn_active n = int (open_tasks n) \<Longrightarrow> conn_active n' = int (open_tasks n')"
proof (induction rule: node_step.induct)
  case (start n i)
  then show ?case using open_set [of n i Spawned "Running (conn_new (sint (next_conn_id n)))"] by simp
qed (simp_all add: after_turn_def open_moves gauge_finish)

lemma gauge_reachable: "(node_step E T reg)\<^sup>*\<^sup>* (node_new s) n \<Longrightarrow> conn_active n = int (open_tasks n)"
  by (induction rule: rtranclp_induct) (simp add: node_new_def open_tasks_def, rule gauge_step)

lemma open_drained: "drained n \<Longrightarrow> open_tasks n = 0"
proof -
  have "task_open t = 0" if "is_finished t" for t using that by (cases t) (simp_all add: is_finished_def)
  then show "drained n \<Longrightarrow> open_tasks n = 0" by (auto simp: open_tasks_def drained_def list_all_iff)
qed

text \<open>The listener stops before the signal is sent.\<close>

lemma stopped_inv:
  "(node_step E T reg)\<^sup>*\<^sup>* (node_new s) n \<Longrightarrow> signalled n \<Longrightarrow> \<not> accepting n"
  by (induction rule: rtranclp_induct) (auto simp: node_new_def finish_task_def after_turn_def split: if_splits elim!: node_step.cases)

lemma work_finish:
  "task_at n i = Some t \<Longrightarrow> remaining_work (finish_task i c n) + task_rank t = remaining_work n"
  using remaining_set [of n i t "Finished c"] by (simp add: finish_task_def)

lemma drain_step:
  assumes "node_step E T reg n n'" "signalled n" "\<not> accepting n"
  shows "signalled n' \<and> \<not> accepting n' \<and> length (tasks n') = length (tasks n) \<and> remaining_work n' \<le> remaining_work n"
  using assms(1)
proof (cases rule: node_step_cases)
  case (start i)
  then show ?thesis using assms(2,3) remaining_set [OF start(2), of "Running (conn_new (sint (next_conn_id n)))"] by simp
next
  case (deliver i c chunk)
  then show ?thesis using assms(2,3) remaining_set [OF deliver(2), of "Polling (c\<lparr>inbuf := inbuf c @ chunk\<rparr>)"] by simp
next
  case (item i c)
  then show ?thesis using assms(2,3) remaining_set [OF item(2), of "take_item T c"] take_item_rank(1) [of T c] by simp
next
  case (io_error i c m)
  then show ?thesis using assms(2,3) remaining_set [OF io_error(2),
      of "Sending ((send T (Error (lit ''ERR Protocol error: '' @ codec_error_text (Io m))) c)\<lparr>closed := True\<rparr>)"] by simp
next
  case (execute i args c c' s')
  then show ?thesis using assms(2,3) remaining_set [OF execute(2), of "Sending c'"] by simp
next
  case (sent i c)
  then show ?thesis using assms(2,3) remaining_set [OF sent(2), of "Running c"] work_finish [OF sent(2), of c]
    by (simp add: after_turn_def finish_task_def)
next
  case (stop i c)
  then show ?thesis using assms(2,3) work_finish [OF stop(2), of c] by (simp add: finish_task_def)
next
  case (client_closed i c)
  then show ?thesis using assms(2,3) work_finish [OF client_closed(2), of c] by (simp add: finish_task_def)
next
  case (send_failed i c)
  then show ?thesis using assms(2,3) work_finish [OF send_failed(2), of c] by (simp add: finish_task_def)
qed (use assms(2,3) in auto)

text \<open>Every task that has not ended has a step of its own towards its end.\<close>

lemma task_goes_on:
  assumes "signalled n" "task_at n i = Some t" "\<not> is_finished t"
  shows "\<exists>n'. node_step E T reg n n' \<and> remaining_work n' < remaining_work n \<and> (\<forall>j. j \<noteq> i \<longrightarrow> task_at n' j = task_at n j)"
proof (cases t)
  case Spawned
  then show ?thesis using assms(2) node_step.start [of n i E T reg] remaining_set [OF assms(2), of "Running (conn_new (sint (next_conn_id n)))"]
    by (intro exI conjI) (auto simp: task_at_set)
next
  case (Running c)
  then show ?thesis using assms(1,2) node_step.stop [of n i c E T reg] work_finish [OF assms(2), of c]
    by (intro exI conjI) (auto simp: finish_task_def task_at_set)
next
  case (Polling c)
  then show ?thesis using assms(2) node_step.item [of n i c E T reg] remaining_set [OF assms(2), of "take_item T c"] take_item_rank(1) [of T c]
    by (intro exI conjI) (auto simp: task_at_set)
next
  case (Handling args c)
  obtain c' s' where sv: "serve_request E T reg args c (node_store n) = (c', s')" by fastforce
  show ?thesis using Handling assms(2) node_step.execute [OF _ sv, of i] remaining_set [OF assms(2), of "Sending c'"]
    by (intro exI conjI) (auto simp: task_at_set)
next
  case (Sending c)
  then show ?thesis using assms(2) node_step.send_failed [of n i c E T reg] work_finish [OF assms(2), of c]
    by (intro exI conjI) (auto simp: finish_task_def task_at_set)
qed (use assms(3) in \<open>simp add: is_finished_def\<close>)

lemma drain_progress:
  assumes "signalled n" "\<not> drained n"
  shows "\<exists>n'. node_step E T reg n n' \<and> remaining_work n' < remaining_work n"
proof -
  obtain i where "task_at n i = Some (tasks n ! i)" "\<not> is_finished (tasks n ! i)"
    using assms by (auto simp: drained_def list_all_length task_at_def)
  from task_goes_on [OF assms(1) this] show ?thesis by blast
qed

lemma drains:
  assumes "signalled n" "\<not> accepting n"
  shows "\<exists>n'. (node_step E T reg)\<^sup>*\<^sup>* n n' \<and> drained n'"
  using assms
proof (induction "remaining_work n" arbitrary: n rule: less_induct)
  case less
  show ?case
  proof (cases "drained n")
    case False
    then obtain n1 where n1: "node_step E T reg n n1" "remaining_work n1 < remaining_work n"
      using drain_progress less.prems by blast
    then show ?thesis using less.hyps [OF n1(2)] drain_step [OF n1(1) less.prems] by (meson converse_rtranclp_into_rtranclp)
  qed auto
qed

subsection \<open>The requests in flight\<close>

definition serve_in_order ::
  "'e engine_ops \<Rightarrow> float_text \<Rightarrow> 'e registry \<Rightarrow> (nat \<times> bytes list \<times> conn) list \<Rightarrow> 'e store \<Rightarrow> 'e store" where
  "serve_in_order E T reg = fold (\<lambda>(i, args, c) s. snd (serve_request E T reg args c s))"

text \<open>The task had taken a request when shutdown was signalled, or may still have been taking one.\<close>

definition in_flight :: "'e node \<Rightarrow> nat \<times> bytes list \<times> conn \<Rightarrow> bool" where
  "in_flight n x \<longleftrightarrow>
     (case x of (i, args, c) \<Rightarrow> task_at n i = Some (Handling args c) \<or> (\<exists>c0. task_at n i = Some (Polling c0)))"

definition settled :: "task option \<Rightarrow> bool" where
  "settled t \<longleftrightarrow> (case t of Some (Running _) \<Rightarrow> True | Some (Sending _) \<Rightarrow> True | Some (Finished _) \<Rightarrow> True | _ \<Rightarrow> False)"

lemma settled_simps [simp]:
  "settled (Some (Running c))" "settled (Some (Sending c))" "settled (Some (Finished c))"
  "\<not> settled (Some (Polling c))" "\<not> settled (Some (Handling args c))" "\<not> settled (Some Spawned)"
  by (simp_all add: settled_def)

text \<open>What has happened between the signal, at \<open>n\<close>, and \<open>n'\<close>: the requests of \<open>order\<close> have been executed.\<close>

definition aftermath ::
  "'e engine_ops \<Rightarrow> float_text \<Rightarrow> 'e registry \<Rightarrow> 'e node \<Rightarrow> (nat \<times> bytes list \<times> conn) list \<Rightarrow> 'e node \<Rightarrow> bool" where
  "aftermath E T reg n order n' \<longleftrightarrow>
     signalled n' \<and> \<not> accepting n' \<and> node_store n' = serve_in_order E T reg order (node_store n)
     \<and> distinct (map fst order) \<and> (\<forall>x \<in> set order. in_flight n x \<and> settled (task_at n' (fst x)))
     \<and> (\<forall>i args c. task_at n' i = Some (Handling args c) \<longrightarrow> in_flight n (i, args, c))
     \<and> (\<forall>i c. task_at n' i = Some (Polling c) \<longrightarrow> (\<exists>c0. task_at n i = Some (Polling c0)))
     \<and> (\<forall>i args c. task_at n i = Some (Handling args c) \<longrightarrow> (i, args, c) \<in> set order \<or> task_at n' i = Some (Handling args c))"

text \<open>A step of one task that is neither the execution of a request nor a way back to taking one.\<close>

lemma aftermath_set:
  assumes "aftermath E T reg n order n'" "task_at n' i = Some t" "task_at n'' = (task_at n')(i \<mapsto> u)"
    and "node_store n'' = node_store n'" "signalled n''" "\<not> accepting n''"
    and "settled (Some t) \<Longrightarrow> settled (Some u)" "\<And>args c. t \<noteq> Handling args c"
    and "\<And>args c. u = Handling args c \<Longrightarrow> \<exists>c0. t = Polling c0" "\<And>c. u = Polling c \<Longrightarrow> \<exists>c0. t = Polling c0"
  shows "aftermath E T reg n order n''"
proof -
  have old: "\<And>x. x \<in> set order \<Longrightarrow> in_flight n x \<and> settled (task_at n' (fst x))"
      "\<And>j args c. task_at n' j = Some (Handling args c) \<Longrightarrow> in_flight n (j, args, c)"
      "\<And>j c. task_at n' j = Some (Polling c) \<Longrightarrow> \<exists>c0. task_at n j = Some (Polling c0)"
      "\<And>j args c. task_at n j = Some (Handling args c) \<Longrightarrow> (j, args, c) \<in> set order \<or> task_at n' j = Some (Handling args c)"
    using assms(1) unfolding aftermath_def by blast+
  have "in_flight n x \<and> settled (task_at n'' (fst x))" if "x \<in> set order" for x
    using old(1) [OF that] assms(2,3,7) by (cases "fst x = i") auto
  moreover have "in_flight n (j, args, c)" if h: "task_at n'' j = Some (Handling args c)" for j args c
  proof (cases "j = i")
    case True
    then obtain c0 where "t = Polling c0" using h assms(3,9) by auto
    then show ?thesis using old(3) [of i c0] assms(2) True by (auto simp: in_flight_def)
  qed (use old(2) h assms(3) in auto)
  moreover have "\<exists>c0. task_at n j = Some (Polling c0)" if "task_at n'' j = Some (Polling c)" for j c
    using old(3) that assms(2,3,10) by (cases "j = i") auto
  moreover have "(j, args, c) \<in> set order \<or> task_at n'' j = Some (Handling args c)"
    if "task_at n j = Some (Handling args c)" for j args c
    using old(4) [OF that] assms(2,3,8) by (cases "j = i") auto
  ultimately show ?thesis using assms(1,4-6) unfolding aftermath_def by simp
qed

lemma aftermath_execute:
  assumes "aftermath E T reg n order n'" "task_at n' i = Some (Handling args c)" "task_at n'' = (task_at n')(i \<mapsto> Sending c')"
    and "node_store n'' = snd (serve_request E T reg args c (node_store n'))" "signalled n''" "\<not> accepting n''"
  shows "aftermath E T reg n (order @ [(i, args, c)]) n''"
proof -
  have i: "i \<notin> fst ` set order" using assms(1,2) by (auto simp: aftermath_def)
  have "a = args \<and> d = c" if "task_at n i = Some (Handling a d)" for a d
  proof -
    have "(i, a, d) \<notin> set order" using i by force
    then have "task_at n' i = Some (Handling a d)" using assms(1) that unfolding aftermath_def by blast
    then show ?thesis using assms(2) by simp
  qed
  then show ?thesis using i assms unfolding aftermath_def serve_in_order_def by (auto split: if_splits)
qed

lemma aftermath_step:
  assumes "aftermath E T reg n order n'" "node_step E T reg n' n''"
  shows "\<exists>order'. aftermath E T reg n order' n''"
proof -
  have sg: "signalled n'" "\<not> accepting n'" using assms(1) by (simp_all add: aftermath_def)
  have put: "task_at (set_task i u n') = (task_at n')(i \<mapsto> u)" if "task_at n' i = Some t" for i t u
    using that by (auto simp: task_at_set fun_eq_iff)
  note set = aftermath_set [OF assms(1)]
  from assms(2) show ?thesis
  proof (cases rule: node_step_cases)
    case (execute i args c c' s')
    then show ?thesis using aftermath_execute [OF assms(1) execute(2), of n'' c'] sg by (auto simp: put)
  next
    case (item i c)
    then show ?thesis using set [OF item(2), of n'' "take_item T c"] sg take_item_rank(2) [of T c] by (auto simp: put)
  next
    case (start i)
    then show ?thesis using set [OF start(2), of n'' "Running (conn_new (sint (next_conn_id n')))"] sg by (auto simp: put)
  next
    case (stop i c)
    then show ?thesis using set [OF stop(2), of n'' "Finished c"] sg by (auto simp: put finish_task_def)
  next
    case (deliver i c chunk)
    then show ?thesis using set [OF deliver(2), of n'' "Polling (c\<lparr>inbuf := inbuf c @ chunk\<rparr>)"] sg by (auto simp: put)
  next
    case (client_closed i c)
    then show ?thesis using set [OF client_closed(2), of n'' "Finished c"] sg by (auto simp: put finish_task_def)
  next
    case (io_error i c m)
    then show ?thesis using set [OF io_error(2), of n''
        "Sending ((send T (Error (lit ''ERR Protocol error: '' @ codec_error_text (Io m))) c)\<lparr>closed := True\<rparr>)"] sg
      by (auto simp: put)
  next
    case (sent i c)
    then show ?thesis using set [OF sent(2), of n'' "Finished c"] set [OF sent(2), of n'' "Running c"] sg
      by (cases "closed c") (auto simp: put finish_task_def after_turn_def)
  next
    case (send_failed i c)
    then show ?thesis using set [OF send_failed(2), of n'' "Finished c"] sg by (auto simp: put finish_task_def)
  qed (use sg in auto)
qed

lemma aftermath_run:
  assumes "(node_step E T reg)\<^sup>*\<^sup>* n n'" "signalled n" "\<not> accepting n"
  shows "\<exists>order. aftermath E T reg n order n'"
  using assms(1)
proof (induction rule: rtranclp_induct)
  case base
  then show ?case using assms(2,3) by (intro exI [of _ "[]"]) (auto simp: aftermath_def in_flight_def serve_in_order_def)
qed (blast dest: aftermath_step)

lemma waits_for_client:
  assumes "node_step E T reg n n'" "task_at n i = Some (Sending c)"
  shows "task_at n' i = Some (Sending c) \<or> n' = after_turn i c n \<or> n' = finish_task i c n"
proof -
  have "task_at n' i = Some (Sending c)" if "n' \<noteq> after_turn i c n" "n' \<noteq> finish_task i c n"
    using assms(1)
  proof (cases rule: node_step_cases)
    case accept
    then show ?thesis using assms(2) by (simp add: task_at_def nth_append split: if_splits)
  next
    case (sent j d)
    then show ?thesis using assms(2) that
      by (cases "j = i") (auto simp: after_turn_def finish_task_def task_at_set split: if_splits)
  next
    case (send_failed j d)
    then show ?thesis using assms(2) that by (cases "j = i") (auto simp: finish_task_def task_at_set)
  qed (use assms(2) in \<open>auto simp: finish_task_def task_at_set\<close>)
  then show ?thesis by blast
qed

lemma two_connections:
  "(node_step (rocks mem_db) bits_text reg)\<^sup>*\<^sup>* (node_new empty_store)
     \<lparr>node_store = empty_store, next_conn_id = 3, tasks = [Running (conn_new 2), Running (conn_new 1)],
      accepting = False, signalled = True, conn_active = 2\<rparr>"
proof -
  let ?n = "\<lambda>i ts a sg g. \<lparr>node_store = empty_store, next_conn_id = i, tasks = ts, accepting = a, signalled = sg,
    conn_active = g\<rparr>"
  let ?step = "node_step (rocks mem_db) bits_text reg"
  have "?step (node_new empty_store) (?n 1 [Spawned] True False 0)"
    using node_step.accept [of "node_new empty_store" "rocks mem_db" bits_text reg] by (simp add: node_new_def)
  moreover have "?step (?n 1 [Spawned] True False 0) (?n 1 [Spawned, Spawned] True False 0)"
    using node_step.accept [of "?n 1 [Spawned] True False 0" "rocks mem_db" bits_text reg] by simp
  moreover have "?step (?n 1 [Spawned, Spawned] True False 0) (?n 2 [Spawned, Running (conn_new 1)] True False 1)"
    using node_step.start [of "?n 1 [Spawned, Spawned] True False 0" 1 "rocks mem_db" bits_text reg]
    by (simp add: task_at_def set_task_def)
  moreover have "?step (?n 2 [Spawned, Running (conn_new 1)] True False 1)
      (?n 3 [Running (conn_new 2), Running (conn_new 1)] True False 2)"
    using node_step.start [of "?n 2 [Spawned, Running (conn_new 1)] True False 1" 0 "rocks mem_db" bits_text reg]
    by (simp add: task_at_def set_task_def)
  moreover have "?step (?n 3 [Running (conn_new 2), Running (conn_new 1)] True False 2)
      (?n 3 [Running (conn_new 2), Running (conn_new 1)] False False 2)"
    using node_step.shutdown [of "?n 3 [Running (conn_new 2), Running (conn_new 1)] True False 2" "rocks mem_db" bits_text reg]
    by simp
  moreover have "?step (?n 3 [Running (conn_new 2), Running (conn_new 1)] False False 2)
      (?n 3 [Running (conn_new 2), Running (conn_new 1)] False True 2)"
    using node_step.signal [of "?n 3 [Running (conn_new 2), Running (conn_new 1)] False False 2" "rocks mem_db" bits_text reg]
    by simp
  ultimately show ?thesis by (meson converse_rtranclp_into_rtranclp r_into_rtranclp)
qed

subsection \<open>Properties\<close>

text \<open>C23: Connection identifiers are unique: in every state the node can reach, with any interleaving of
  its tasks, no two connections, open or finished, have been given the same identifier, up to
  \<open>2^64\<close> connections.\<close>

theorem connection_ids_unique:
  assumes "(node_step E T reg)\<^sup>*\<^sup>* (node_new s) n" "length (tasks n) < 2 ^ 64"
    and "conn_of n i = Some c" "conn_of n j = Some c'" "i \<noteq> j"
  shows "conn_id c \<noteq> conn_id c'"
proof
  assume same: "conn_id c = conn_id c'"
  obtain f where f: "inj_on f (dom (conn_of n))" "f ` dom (conn_of n) \<subseteq> {..<card (dom (conn_of n))}"
      "\<And>i c. conn_of n i = Some c \<Longrightarrow> conn_id c = sint (1 + of_nat (f i) :: u64)"
    using ids_inv_reachable [OF assms(1)] unfolding ids_inv_def by auto
  have ij: "i \<in> dom (conn_of n)" "j \<in> dom (conn_of n)" using assms(3,4) by auto
  then have "f i < 2 ^ 64" "f j < 2 ^ 64" using f(2) conns_bounded [of n] assms(2) by force+
  moreover have "sint (1 + of_nat (f i) :: u64) = sint (1 + of_nat (f j) :: u64)"
    using f(3) assms(3,4) same by metis
  then have "(of_nat (f i) :: u64) = of_nat (f j)" using signed_word_eqI by fastforce
  ultimately have "f i = f j" by (metis unat_of_nat_u64)
  then show False using f(1) ij assms(5) by (simp add: inj_on_def)
qed

theorem connection_ids_unique_witness: "conn_id (conn_new 2) \<noteq> conn_id (conn_new 1)"
  using connection_ids_unique [OF two_connections, of 0 "conn_new 2" 1 "conn_new 1"]
  by (simp add: conn_of_def task_at_def)

text \<open>C8: Graceful shutdown.  Once the signal is sent no connection is accepted and the work left never grows.  A
  request that a connection had taken is executed, exactly once; a connection that was past its look at the
  flag may take one more; nothing else is executed: at any later state the store is the outcome of such
  requests in some order, at most one for each connection.  Every task that is left has a step of its own
  towards its end; a task that is sending a reply has no other than the completion or failure of the send,
  so shutdown waits for its client.  When the sends end the node drains.  The gauge of open connections is exact, and zero when
  the node has drained.\<close>

theorem shutdown_drains:
  assumes "(node_step E T reg)\<^sup>*\<^sup>* (node_new s) n" "signalled n"
  shows "conn_active n = int (open_tasks n)
    \<and> (\<forall>n'. node_step E T reg n n' \<longrightarrow>
        signalled n' \<and> length (tasks n') = length (tasks n) \<and> remaining_work n' \<le> remaining_work n
        \<and> (\<forall>i c. task_at n i = Some (Sending c) \<longrightarrow>
             task_at n' i = Some (Sending c) \<or> n' = after_turn i c n \<or> n' = finish_task i c n))
    \<and> (\<forall>i t. task_at n i = Some t \<and> \<not> is_finished t \<longrightarrow>
        (\<exists>n'. node_step E T reg n n' \<and> remaining_work n' < remaining_work n \<and> (\<forall>j. j \<noteq> i \<longrightarrow> task_at n' j = task_at n j)))
    \<and> (\<forall>n'. (node_step E T reg)\<^sup>*\<^sup>* n n' \<longrightarrow>
        (\<exists>order. distinct (map fst order) \<and> (\<forall>x \<in> set order. in_flight n x)
           \<and> node_store n' = serve_in_order E T reg order (node_store n)
           \<and> (drained n' \<longrightarrow> (\<forall>i args c. task_at n i = Some (Handling args c) \<longrightarrow> (i, args, c) \<in> set order))))
    \<and> (\<exists>n'. (node_step E T reg)\<^sup>*\<^sup>* n n' \<and> drained n' \<and> conn_active n' = 0)"
proof (intro conjI allI impI)
  have acc: "\<not> accepting n" using stopped_inv [OF assms] .
  show "conn_active n = int (open_tasks n)" by (rule gauge_reachable [OF assms(1)])
  show "signalled n'" "length (tasks n') = length (tasks n)" "remaining_work n' \<le> remaining_work n"
    if "node_step E T reg n n'" for n' using drain_step [OF that assms(2) acc] by simp_all
  show "task_at n' i = Some (Sending c) \<or> n' = after_turn i c n \<or> n' = finish_task i c n"
    if "node_step E T reg n n'" "task_at n i = Some (Sending c)" for n' i c by (rule waits_for_client [OF that])
  show "\<exists>n'. node_step E T reg n n' \<and> remaining_work n' < remaining_work n \<and> (\<forall>j. j \<noteq> i \<longrightarrow> task_at n' j = task_at n j)"
    if "task_at n i = Some t \<and> \<not> is_finished t" for i t using task_goes_on [OF assms(2)] that by blast
  show "\<exists>order. distinct (map fst order) \<and> (\<forall>x \<in> set order. in_flight n x)
      \<and> node_store n' = serve_in_order E T reg order (node_store n)
      \<and> (drained n' \<longrightarrow> (\<forall>i args c. task_at n i = Some (Handling args c) \<longrightarrow> (i, args, c) \<in> set order))"
    if run: "(node_step E T reg)\<^sup>*\<^sup>* n n'" for n'
  proof -
    have "task_at n' i \<noteq> Some (Handling args c)" if "drained n'" for i args c
      using that by (auto simp: drained_def task_at_def list_all_length is_finished_def split: if_splits task.splits)
    moreover obtain order where "aftermath E T reg n order n'" using aftermath_run [OF run assms(2) acc] by blast
    ultimately show ?thesis unfolding aftermath_def by (intro exI [of _ order]) blast
  qed
  obtain n' where n': "(node_step E T reg)\<^sup>*\<^sup>* n n'" "drained n'" using drains [of n E T reg] acc assms(2) by blast
  then have "conn_active n' = 0" using gauge_reachable [OF rtranclp_trans [OF assms(1) n'(1)]] open_drained by simp
  then show "\<exists>n'. (node_step E T reg)\<^sup>*\<^sup>* n n' \<and> drained n' \<and> conn_active n' = 0" using n' by blast
qed

text \<open>A \<open>SET\<close> taken before the signal and executed after it.\<close>

lemma one_in_flight:
  "(node_step (rocks mem_db) bits_text reg)\<^sup>*\<^sup>* (node_new empty_store)
     \<lparr>node_store = empty_store, next_conn_id = 2, tasks = [Handling [lit ''SET'', [107], [120]] (conn_new 1)],
      accepting = False, signalled = True, conn_active = 1\<rparr>"
proof -
  let ?n = "\<lambda>i ts a sg g. \<lparr>node_store = empty_store, next_conn_id = i, tasks = ts, accepting = a, signalled = sg,
    conn_active = g\<rparr>"
  let ?step = "node_step (rocks mem_db) bits_text reg"
  let ?r = "[lit ''SET'', [107], [120]]"
  let ?c = "(conn_new 1)\<lparr>inbuf := request_bytes bits_text ?r\<rparr>"
  have "request_fits default_limits ?r" by (simp add: request_fits_def default_limits_def lit_def)
  then have "command_codec_decode (codec ?c) (inbuf ?c) = (Inr (Some ?r), [])"
    using decode_request [of default_limits ?r bits_text "[]"] default_limits_fit
    by (simp add: conn_new_def command_codec_new_def command_codec_decode_def lift_protocol_def del: encode.simps)
  then have take: "take_item bits_text ?c = Handling ?r (conn_new 1)" by (simp add: take_item_def conn_new_def del: encode.simps)
  have "?step (node_new empty_store) (?n 1 [Spawned] True False 0)"
    using node_step.accept [of "node_new empty_store" "rocks mem_db" bits_text reg] by (simp add: node_new_def)
  moreover have "?step (?n 1 [Spawned] True False 0) (?n 2 [Running (conn_new 1)] True False 1)"
    using node_step.start [of "?n 1 [Spawned] True False 0" 0 "rocks mem_db" bits_text reg]
    by (simp add: task_at_def set_task_def)
  moreover have "?step (?n 2 [Running (conn_new 1)] True False 1) (?n 2 [Polling (conn_new 1)] True False 1)"
    using node_step.poll [of "?n 2 [Running (conn_new 1)] True False 1" 0 "conn_new 1" "rocks mem_db" bits_text reg]
    by (simp add: task_at_def set_task_def)
  moreover have "?step (?n 2 [Polling (conn_new 1)] True False 1) (?n 2 [Polling ?c] True False 1)"
    using node_step.deliver [of "?n 2 [Polling (conn_new 1)] True False 1" 0 "conn_new 1" "rocks mem_db" bits_text reg
        "request_bytes bits_text ?r"]
    by (simp add: task_at_def set_task_def conn_new_def del: encode.simps)
  moreover have "?step (?n 2 [Polling ?c] True False 1) (?n 2 [Handling ?r (conn_new 1)] True False 1)"
    using node_step.item [of "?n 2 [Polling ?c] True False 1" 0 ?c "rocks mem_db" bits_text reg] take
    by (simp add: task_at_def set_task_def del: encode.simps)
  moreover have "?step (?n 2 [Handling ?r (conn_new 1)] True False 1) (?n 2 [Handling ?r (conn_new 1)] False False 1)"
    using node_step.shutdown [of "?n 2 [Handling ?r (conn_new 1)] True False 1" "rocks mem_db" bits_text reg] by simp
  moreover have "?step (?n 2 [Handling ?r (conn_new 1)] False False 1) (?n 2 [Handling ?r (conn_new 1)] False True 1)"
    using node_step.signal [of "?n 2 [Handling ?r (conn_new 1)] False False 1" "rocks mem_db" bits_text reg] by simp
  ultimately show ?thesis by (meson converse_rtranclp_into_rtranclp r_into_rtranclp)
qed

theorem shutdown_drains_witness:
  "\<exists>n. (node_step (rocks mem_db) bits_text (registry_standard (rocks mem_db) bits_text))\<^sup>*\<^sup>* (node_new empty_store) n
     \<and> drained n \<and> conn_active n = 0
     \<and> node_store n = snd (serve_request (rocks mem_db) bits_text (registry_standard (rocks mem_db) bits_text)
         [lit ''SET'', [107], [120]] (conn_new 1) empty_store)"
proof -
  let ?reg = "registry_standard (rocks mem_db) bits_text" and ?r = "[lit ''SET'', [107], [120]]"
  let ?n = "\<lparr>node_store = empty_store, next_conn_id = 2, tasks = [Handling ?r (conn_new 1)],
      accepting = False, signalled = True, conn_active = 1\<rparr>"
  have sg: "signalled ?n" by simp
  note sd = shutdown_drains [OF one_in_flight [of ?reg] sg]
  obtain n where n: "(node_step (rocks mem_db) bits_text ?reg)\<^sup>*\<^sup>* ?n n" "drained n" "conn_active n = 0"
    using sd [THEN conjunct2, THEN conjunct2, THEN conjunct2, THEN conjunct2] by blast
  obtain order where o: "distinct (map fst order)" "\<forall>x \<in> set order. in_flight ?n x"
      "node_store n = serve_in_order (rocks mem_db) bits_text ?reg order (node_store ?n)"
      "drained n \<longrightarrow> (\<forall>i args c. task_at ?n i = Some (Handling args c) \<longrightarrow> (i, args, c) \<in> set order)"
    using sd [THEN conjunct2, THEN conjunct2, THEN conjunct2, THEN conjunct1, rule_format, OF n(1)] by (elim exE conjE)
  have "x = (0, ?r, conn_new 1)" if "x \<in> set order" for x
    using bspec [OF o(2) that] by (cases x) (simp add: in_flight_def task_at_def split: if_splits)
  moreover have "(0, ?r, conn_new 1) \<in> set order" using o(4) n(2) by (simp add: task_at_def)
  ultimately have "set order = {(0, ?r, conn_new 1)}" by blast
  moreover from this have "length order = 1" using distinct_card [of order] o(1) by (simp add: distinct_map)
  moreover have "order = [y]" if "set order = {y}" "length order = 1" for y using that by (cases order) auto
  ultimately have "order = [(0, ?r, conn_new 1)]" by blast
  then have "node_store n = snd (serve_request (rocks mem_db) bits_text ?reg ?r (conn_new 1) empty_store)"
    using o(3) by (simp add: serve_in_order_def)
  then show ?thesis using rtranclp_trans [OF one_in_flight n(1)] n(2,3) by blast
qed

end
