(* ===== verification/Startup.thy ===== *)
theory Startup
  imports Node_Config Metrics_Endpoint Node
begin

text \<open>
  Starting a DataNode: \<open>main\<close> of \<open>crates/gamestore-datanode/src/main.rs\<close>, the set-up of logging and
  metrics (\<open>crates/gamestore-common/src/telemetry.rs\<close>, \<open>metrics.rs\<close>), and the conversions between the error
  types of the crates.  What the process finds outside (arguments, environment, files, the logging and
  metrics crates, the network) is the record \<open>host\<close>; \<open>main\<close> is a function of it to the list of what it does and
  how it ends.
\<close>

subsection \<open>Error conversions\<close>

definition common_of_protocol :: "protocol_error \<Rightarrow> common_error" where
  "common_of_protocol e = ProtocolFailure (protocol_error_text e)"

definition common_of_codec :: "codec_error \<Rightarrow> common_error" where
  "common_of_codec e = (case e of Protocol p \<Rightarrow> common_of_protocol p | Io m \<Rightarrow> IoError m)"

definition common_of_engine :: "engine_error \<Rightarrow> common_error" where
  "common_of_engine e = EngineFailure (engine_error_text e)"

definition engine_backend :: "string \<Rightarrow> engine_error" where
  "engine_backend msg = Backend msg"

definition engine_corruption :: "string \<Rightarrow> engine_error" where
  "engine_corruption msg = Corruption msg"

definition engine_of_rocksdb :: "string \<Rightarrow> engine_error" where
  "engine_of_rocksdb e = Backend e"

definition common_config :: "bytes \<Rightarrow> common_error" where
  "common_config msg = ConfigError msg"

definition common_other :: "bytes \<Rightarrow> common_error" where
  "common_other msg = OtherError msg"

text \<open>\<open>Display\<close>.\<close>

fun common_error_text :: "common_error \<Rightarrow> bytes" where
  "common_error_text (ConfigError m) = lit ''configuration error: '' @ m"
| "common_error_text (IoError m) = lit ''i/o error: '' @ m"
| "common_error_text (ProtocolFailure m) = lit ''protocol error: '' @ m"
| "common_error_text (EngineFailure m) = lit ''engine error: '' @ m"
| "common_error_text (ObservabilityError m) = lit ''observability error: '' @ m"
| "common_error_text (OtherError m) = m"

subsection \<open>Logging and metrics\<close>

record 'f logging_lib =
  default_env_filter :: "bytes + 'f"
  new_filter :: "bytes \<Rightarrow> bytes + 'f"
  try_init :: "'f \<Rightarrow> bytes + unit"

definition telemetry_init :: "'f logging_lib \<Rightarrow> bytes \<Rightarrow> common_error + unit" where
  "telemetry_init L default_directive =
     (case (case default_env_filter L of Inr f \<Rightarrow> Inr f | Inl _ \<Rightarrow> new_filter L default_directive) of
        Inl e \<Rightarrow> Inl (ObservabilityError (lit ''invalid log filter: '' @ e))
      | Inr f \<Rightarrow>
          (case try_init L f of
             Inl e \<Rightarrow> Inl (ObservabilityError (lit ''installing tracing subscriber: '' @ e))
           | Inr _ \<Rightarrow> Inr ()))"

definition metrics_init :: "bytes + exporter \<Rightarrow> common_error + exporter" where
  "metrics_init install_recorder =
     (case install_recorder of
        Inl e \<Rightarrow> Inl (ObservabilityError (lit ''installing prometheus recorder: '' @ e))
      | Inr h \<Rightarrow> Inr h)"

subsection \<open>The server's options\<close>

text \<open>In nanoseconds.\<close>

record serve_options =
  slow_log_threshold :: nat

definition serve_options_default :: serve_options where
  "serve_options_default = \<lparr>slow_log_threshold = 10 * 1000000\<rparr>"

definition serve_options_of :: "config \<Rightarrow> serve_options" where
  "serve_options_of cfg = \<lparr>slow_log_threshold = unat (slow_log_threshold_ms (cfg_logging cfg)) * 1000000\<rparr>"

subsection \<open>The entry point\<close>

record ('d, 'f) host =
  host_argv :: "bytes list"
  host_env :: "bytes \<rightharpoonup> bytes"
  host_read :: "bytes \<Rightarrow> bytes + bytes"
  host_toml :: "bytes \<Rightarrow> bytes + config"
  host_logging :: "'f logging_lib"
  host_recorder :: "bytes + exporter"
  host_make_dir :: "bytes \<Rightarrow> bytes + unit"
  host_db :: "'d rocksdb"
  host_clock :: "nat \<Rightarrow> nat"
  host_bind :: "bytes \<Rightarrow> bytes + unit"
  host_served :: "bytes + unit"

text \<open>What \<open>main\<close> does that can be seen, and its end: help, an error with its context, or success.\<close>

datatype 'd startup_event =
    Warned bytes
  | RecorderInstalled metrics
  | DataDirMade bytes
  | StoreOpened "'d rocks_engine store"
  | MetricsListening bytes
  | Listening bytes serve_options
  | Stopped

datatype ending = HelpShown | Failed bytes bytes | Done

definition path_string :: "bytes \<Rightarrow> string" where
  "path_string p = map (\<lambda>b. char_of (unat b)) p"

text \<open>From the bound listener on.\<close>

definition main_serve :: "('d, 'f) host \<Rightarrow> config \<Rightarrow> 'd startup_event list \<times> ending" where
  "main_serve h cfg =
     (let addr = server_addr (cfg_server cfg)
      in case host_bind h addr of
           Inl e \<Rightarrow> ([], Failed (lit ''binding RESP listener on '' @ addr) e)
         | Inr _ \<Rightarrow>
             (case host_served h of
                Inl e \<Rightarrow> ([Listening addr (serve_options_of cfg)], Failed (lit ''serving connections'') e)
              | Inr _ \<Rightarrow> ([Listening addr (serve_options_of cfg), Stopped], Done)))"

definition main_metrics :: "('d, 'f) host \<Rightarrow> config \<Rightarrow> exporter option \<Rightarrow> 'd startup_event list \<times> ending" where
  "main_metrics h cfg handle =
     (case handle of
        None \<Rightarrow> main_serve h cfg
      | Some _ \<Rightarrow>
          (let addr = metrics_addr (cfg_metrics cfg)
           in case host_bind h addr of
                Inl e \<Rightarrow> ([], Failed (lit ''binding /metrics listener on '' @ addr) e)
              | Inr _ \<Rightarrow> (case main_serve h cfg of (evs, end') \<Rightarrow> (MetricsListening addr # evs, end'))))"

definition main_store :: "('d, 'f) host \<Rightarrow> config \<Rightarrow> exporter option \<Rightarrow> 'd startup_event list \<times> ending" where
  "main_store h cfg handle =
     (let dir = data_dir (cfg_storage cfg)
      in case host_make_dir h dir of
           Inl e \<Rightarrow> ([], Failed (lit ''creating data directory '' @ dir) e)
         | Inr _ \<Rightarrow>
             (case store_open (host_db h) (path_string dir) engine_config_default 0 (host_clock h) of
                Inl e \<Rightarrow> ([DataDirMade dir], Failed (lit ''opening store at '' @ dir) (engine_error_text e))
              | Inr s \<Rightarrow> (case main_metrics h cfg handle of (evs, end') \<Rightarrow> (DataDirMade dir # StoreOpened s # evs, end'))))"

definition main_observability :: "('d, 'f) host \<Rightarrow> config \<Rightarrow> 'd startup_event list \<times> exporter option" where
  "main_observability h cfg =
     (let logged = (case telemetry_init (host_logging h) (log_level (cfg_logging cfg)) of
             Inl e \<Rightarrow> [Warned (lit ''warning: '' @ common_error_text e)] | Inr _ \<Rightarrow> [])
      in if met_enabled (cfg_metrics cfg) then
           (case metrics_init (host_recorder h) of
              Inl e \<Rightarrow> (logged @ [Warned (lit ''failed to install metrics recorder'')], None)
            | Inr x \<Rightarrow> (logged @ [RecorderInstalled (describe_metrics metrics_new)], Some x))
         else (logged, None))"

definition main :: "('d, 'f) host \<Rightarrow> 'd startup_event list \<times> ending" where
  "main h =
     (case parse_args (drop 1 (host_argv h)) args_none of
        Inl ShowHelp \<Rightarrow> ([], HelpShown)
      | Inl (ArgumentError e) \<Rightarrow> ([], Failed e [])
      | Inr a \<Rightarrow>
          (case config_load (host_read h) (host_toml h) (host_env h) (arg_config a) of
             Inl e \<Rightarrow> ([], Failed (lit ''loading configuration'') (common_error_text e))
           | Inr cfg \<Rightarrow>
               (let cfg' = apply_args a cfg; (evs, handle) = main_observability h cfg'
                in case main_store h cfg' handle of (evs', end') \<Rightarrow> (evs @ evs', end'))))"

text \<open>\<open>shutdown_signal\<close> resolves when Ctrl-C arrives; if the handler cannot be installed it never does.\<close>

definition shutdown_signal :: "bytes + unit \<Rightarrow> bool" where
  "shutdown_signal ctrl_c = (case ctrl_c of Inr _ \<Rightarrow> True | Inl _ \<Rightarrow> False)"

subsection \<open>When a node serves\<close>

text \<open>
  A node listens exactly when its arguments and configuration are good, its data directory can be made, its
  store opens, and its listeners bind, the metrics listener only if metrics are enabled and the recorder was
  installed; failures of logging or of the recorder only warn.  It listens at the configured address, flags
  first, on the store it opened.
\<close>

lemma main_serve_listens:
  "(\<exists>o'. Listening addr o' \<in> set (fst (main_serve h cfg)))
     \<longleftrightarrow> addr = server_addr (cfg_server cfg) \<and> host_bind h addr = Inr ()"
  by (auto simp: main_serve_def Let_def split: sum.splits)

lemma main_metrics_listens:
  "(\<exists>o'. Listening addr o' \<in> set (fst (main_metrics h cfg handle)))
     \<longleftrightarrow> (handle \<noteq> None \<longrightarrow> host_bind h (metrics_addr (cfg_metrics cfg)) = Inr ())
       \<and> addr = server_addr (cfg_server cfg) \<and> host_bind h addr = Inr ()"
  using main_serve_listens [of addr h cfg]
  by (auto simp: main_metrics_def Let_def split: option.splits sum.splits prod.splits)

lemma main_observability_handle:
  "snd (main_observability h cfg) \<noteq> None \<longleftrightarrow> met_enabled (cfg_metrics cfg) \<and> (\<exists>x. host_recorder h = Inr x)"
  "Listening addr o' \<notin> set (fst (main_observability h cfg))"
  "StoreOpened s \<notin> set (fst (main_observability h cfg))"
  by (auto simp: main_observability_def metrics_init_def Let_def split: sum.splits)

lemma main_store_listens:
  "(\<exists>o'. Listening addr o' \<in> set (fst (main_store h cfg handle)))
     \<longleftrightarrow> host_make_dir h (data_dir (cfg_storage cfg)) = Inr ()
       \<and> (\<exists>s. store_open (host_db h) (path_string (data_dir (cfg_storage cfg))) engine_config_default 0 (host_clock h) = Inr s)
       \<and> (\<exists>o'. Listening addr o' \<in> set (fst (main_metrics h cfg handle)))"
  by (auto simp: main_store_def Let_def split: sum.splits prod.splits)

theorem main_listens_iff:
  "(\<exists>o'. Listening addr o' \<in> set (fst (main h))) \<longleftrightarrow>
     (\<exists>a cfg0 cfg s. parse_args (drop 1 (host_argv h)) args_none = Inr a
       \<and> config_load (host_read h) (host_toml h) (host_env h) (arg_config a) = Inr cfg0 \<and> cfg = apply_args a cfg0
       \<and> host_make_dir h (data_dir (cfg_storage cfg)) = Inr ()
       \<and> store_open (host_db h) (path_string (data_dir (cfg_storage cfg))) engine_config_default 0 (host_clock h) = Inr s
       \<and> (met_enabled (cfg_metrics cfg) \<and> (\<exists>x. host_recorder h = Inr x)
            \<longrightarrow> host_bind h (metrics_addr (cfg_metrics cfg)) = Inr ())
       \<and> addr = server_addr (cfg_server cfg) \<and> host_bind h addr = Inr ())"
proof -
  have "(\<exists>o'. Listening addr o' \<in> set (fst (main h))) \<longleftrightarrow>
      (\<exists>a cfg0. parse_args (drop 1 (host_argv h)) args_none = Inr a
        \<and> config_load (host_read h) (host_toml h) (host_env h) (arg_config a) = Inr cfg0
        \<and> (\<exists>o'. Listening addr o' \<in> set (fst (main_store h (apply_args a cfg0)
            (snd (main_observability h (apply_args a cfg0)))))))"
    using main_observability_handle(2) [of addr _ h]
    by (auto simp: main_def Let_def split: sum.splits stop.splits prod.splits) (metis fst_conv)+
  then show ?thesis
    unfolding main_store_listens main_metrics_listens main_observability_handle(1) by auto
qed

end
