(* ===== verification/Spike_Store.thy ===== *)
theory Spike_Store
  imports Store
begin

text \<open>
  The storage layer of the phase-one prototype (\<open>spike/rust/src/encoding.rs\<close>, \<open>gc.rs\<close>,
  \<open>storage.rs\<close>), which writes straight to RocksDB.  Its state is that of the engine's store, with
  the database in place of the engine: the clocks, the version map and their operations are the same
  code.  The definitions carry the prefix \<open>sp\<close>.

  The prototype has no error results.  A read that fails looks like a missing record (\<open>.ok()\<close>), a
  failed metadata delete is ignored, and a failed write panics (\<open>.expect\<close>): an operation that can
  panic returns \<open>None\<close> then, together with the state the other connections go on with.
\<close>

subsection \<open>What the prototype calls in RocksDB\<close>

text \<open>Beyond the calls of the engine: \<open>put\<close>, \<open>delete\<close>, and an iterator over the whole database.\<close>

record 'd spike_rocksdb = "'d rocksdb" +
  db_put :: "'d \<Rightarrow> bytes \<Rightarrow> bytes \<Rightarrow> (string + unit) \<times> 'd"
  db_delete :: "'d \<Rightarrow> bytes \<Rightarrow> (string + unit) \<times> 'd"
  db_iterator_start :: "'d \<Rightarrow> (string + bytes \<times> bytes) list"

type_synonym ('d, 'a) spop = "'d store \<Rightarrow> 'a option \<times> 'd store"

definition sp_ret :: "'a \<Rightarrow> ('d, 'a) spop" where
  "sp_ret x p = (Some x, p)"

definition sp_then :: "('d, 'a) spop \<Rightarrow> ('a \<Rightarrow> ('d, 'b) spop) \<Rightarrow> ('d, 'b) spop" where
  "sp_then m f p = (case m p of (None, p') \<Rightarrow> (None, p') | (Some x, p') \<Rightarrow> f x p')"

subsection \<open>Encoding\<close>

definition sp_meta_key :: "bytes \<Rightarrow> bytes" where
  "sp_meta_key user_key = META_PREFIX # user_key"

definition sp_subkey_prefix :: "bytes \<Rightarrow> u64 \<Rightarrow> bytes" where
  "sp_subkey_prefix user_key ver =
     [SUBKEY_PREFIX] @ be32 (of_nat (length user_key)) @ user_key @ be64 ver"

definition sp_subkey :: "bytes \<Rightarrow> u64 \<Rightarrow> bytes \<Rightarrow> bytes" where
  "sp_subkey user_key ver field = sp_subkey_prefix user_key ver @ field"

text \<open>The sums cannot leave \<open>usize\<close>: the length has 32 bits.\<close>

definition sp_parse_subkey :: "bytes \<Rightarrow> (bytes \<times> u64 \<times> bytes) option" where
  "sp_parse_subkey raw =
     (if raw = [] \<or> raw ! 0 \<noteq> SUBKEY_PREFIX \<or> length raw < 1 + 4 + 8 then None
      else
        let klen = unat (u32_from_be (slice raw 1 5)); key_start = 5;
            key_end = key_start + klen; ver_end = key_end + 8
        in if length raw < ver_end then None
           else Some (slice raw key_start key_end, u64_from_be (slice raw key_end ver_end), drop ver_end raw))"

definition sp_meta_encode :: "meta \<Rightarrow> bytes" where
  "sp_meta_encode m = [type_id m] @ be64 (version m) @ be64 (expire_ms m) @ payload m"

definition sp_meta_decode :: "bytes \<Rightarrow> meta option" where
  "sp_meta_decode raw =
     (if length raw < META_HEADER_LEN then None
      else Some \<lparr>type_id = raw ! 0, version = u64_from_be (slice raw 1 9),
                 expire_ms = u64_from_be (slice raw 9 17), payload = drop META_HEADER_LEN raw\<rparr>)"

definition sp_field_count :: "meta \<Rightarrow> u32" where
  "sp_field_count m =
     (if type_id m = TYPE_HASH \<and> 4 \<le> length (payload m) then u32_from_be (take 4 (payload m)) else 0)"

definition sp_set_field_count :: "u32 \<Rightarrow> meta \<Rightarrow> meta" where
  "sp_set_field_count n m = m\<lparr>payload := be32 n\<rparr>"

subsection \<open>The compaction filter\<close>

definition sp_should_keep :: "version_map \<Rightarrow> bytes \<Rightarrow> bool" where
  "sp_should_keep vm key =
     (case sp_parse_subkey key of
        None \<Rightarrow> True
      | Some (user_key, ver, _) \<Rightarrow>
          (case vm_get user_key vm of Some current \<Rightarrow> ver = current | None \<Rightarrow> False))"

subsection \<open>Opening\<close>

text \<open>The loop \<open>for item in iter { let (k, v) = match item { Ok(kv) => kv, Err(_) => continue }; .. }\<close>.\<close>

definition sp_rebuild_step :: "string + bytes \<times> bytes \<Rightarrow> version_map \<Rightarrow> version_map" where
  "sp_rebuild_step item vm =
     (case item of
        Inl _ \<Rightarrow> vm
      | Inr (k, v) \<Rightarrow>
          if k \<noteq> [] \<and> hd k = META_PREFIX then
            (case sp_meta_decode v of
               Some m \<Rightarrow> if type_id m = TYPE_HASH then vm_set (drop 1 k) (version m) vm else vm
             | None \<Rightarrow> vm)
          else vm)"

definition sp_rebuild_version_map :: "'d spike_rocksdb \<Rightarrow> 'd store \<Rightarrow> 'd store" where
  "sp_rebuild_version_map D p =
     p\<lparr>versions := fold sp_rebuild_step (db_iterator_start D (engine p)) (versions p)\<rparr>"

definition sp_options :: rocks_options where
  "sp_options =
     \<lparr>opt_create_if_missing = True, opt_compaction_style = Some Level, opt_write_buffer_size = None,
      opt_ratelimiter = None, opt_block_cache = None, opt_bloom_filter = None,
      opt_compaction_filter = Some ''gamestore-subkey-gc''\<rparr>"

definition sp_open :: "'d spike_rocksdb \<Rightarrow> string \<Rightarrow> u64 \<Rightarrow> (nat \<Rightarrow> nat) \<Rightarrow> string + 'd store" where
  "sp_open D path clock readings =
     (case db_open D sp_options path of
        Inl e \<Rightarrow> Inl e
      | Inr d \<Rightarrow> Inr (sp_rebuild_version_map D
          \<lparr>engine = d, versions = vm_new, version_clock = clock, time = readings\<rparr>))"

subsection \<open>Metadata access\<close>

text \<open>\<open>self.db.get(k).ok().flatten()\<close>.\<close>

definition sp_db_get :: "'d spike_rocksdb \<Rightarrow> bytes \<Rightarrow> 'd store \<Rightarrow> bytes option" where
  "sp_db_get D key p = (case db_get D (engine p) key of Inl _ \<Rightarrow> None | Inr r \<Rightarrow> r)"

definition sp_load_meta :: "'d spike_rocksdb \<Rightarrow> bytes \<Rightarrow> 'd store \<Rightarrow> meta option" where
  "sp_load_meta D user_key p = Option.bind (sp_db_get D (sp_meta_key user_key) p) sp_meta_decode"

definition sp_logical_delete :: "'d spike_rocksdb \<Rightarrow> bytes \<Rightarrow> 'd store \<Rightarrow> 'd store" where
  "sp_logical_delete D user_key p =
     p\<lparr>engine := snd (db_delete D (engine p) (sp_meta_key user_key)),
       versions := vm_remove user_key (versions p)\<rparr>"

definition sp_load_live_meta :: "'d spike_rocksdb \<Rightarrow> bytes \<Rightarrow> 'd store \<Rightarrow> meta option \<times> 'd store" where
  "sp_load_live_meta D user_key p =
     (case sp_load_meta D user_key p of
        None \<Rightarrow> (None, p)
      | Some m \<Rightarrow>
          if expire_ms m \<noteq> 0 then
            (let (now, p') = now_ms p
             in if expire_ms m \<le> now then (None, sp_logical_delete D user_key p') else (Some m, p'))
          else (Some m, p))"

text \<open>\<open>.expect\<close> on the result of a write.\<close>

definition sp_expect :: "(string + unit) \<times> 'd \<Rightarrow> ('d, unit) spop" where
  "sp_expect r p = (case r of (Inl _, d') \<Rightarrow> (None, p\<lparr>engine := d'\<rparr>) | (Inr u, d') \<Rightarrow> (Some u, p\<lparr>engine := d'\<rparr>))"

definition sp_put_meta :: "'d spike_rocksdb \<Rightarrow> bytes \<Rightarrow> meta \<Rightarrow> ('d, unit) spop" where
  "sp_put_meta D user_key m p = sp_expect (db_put D (engine p) (sp_meta_key user_key) (sp_meta_encode m)) p"

definition sp_write :: "'d spike_rocksdb \<Rightarrow> batch_entry list \<Rightarrow> ('d, unit) spop" where
  "sp_write D batch p = sp_expect (db_write D (engine p) batch) p"

subsection \<open>Strings\<close>

definition sp_set :: "'d spike_rocksdb \<Rightarrow> bytes \<Rightarrow> bytes \<Rightarrow> u64 \<Rightarrow> ('d, unit) spop" where
  "sp_set D key val exp p =
     (let p1 = p\<lparr>versions := vm_remove key (versions p)\<rparr>;
          (ver, p2) = next_version p1
      in sp_put_meta D key \<lparr>type_id = TYPE_STRING, version = ver, expire_ms = exp, payload = val\<rparr> p2)"

definition sp_get :: "'d spike_rocksdb \<Rightarrow> bytes \<Rightarrow> 'd store \<Rightarrow> bytes option \<times> 'd store" where
  "sp_get D key p =
     (case sp_load_live_meta D key p of
        (None, p') \<Rightarrow> (None, p')
      | (Some m, p') \<Rightarrow> if type_id m \<noteq> TYPE_STRING then (None, p') else (Some (payload m), p'))"

subsection \<open>Keys\<close>

definition sp_exists :: "'d spike_rocksdb \<Rightarrow> bytes \<Rightarrow> 'd store \<Rightarrow> bool \<times> 'd store" where
  "sp_exists D key p = (case sp_load_live_meta D key p of (r, p') \<Rightarrow> (r \<noteq> None, p'))"

definition sp_type_of :: "'d spike_rocksdb \<Rightarrow> bytes \<Rightarrow> 'd store \<Rightarrow> string \<times> 'd store" where
  "sp_type_of D key p =
     (case sp_load_live_meta D key p of
        (Some m, p') \<Rightarrow>
          (if type_id m = TYPE_STRING then ''string'' else if type_id m = TYPE_HASH then ''hash'' else ''none'', p')
      | (None, p') \<Rightarrow> (''none'', p'))"

definition sp_del :: "'d spike_rocksdb \<Rightarrow> bytes \<Rightarrow> 'd store \<Rightarrow> bool \<times> 'd store" where
  "sp_del D key p =
     (case sp_load_live_meta D key p of
        (Some _, p') \<Rightarrow> (True, sp_logical_delete D key p')
      | (None, p') \<Rightarrow> (False, p'))"

definition sp_expire_ms :: "'d spike_rocksdb \<Rightarrow> bytes \<Rightarrow> u64 \<Rightarrow> ('d, int) spop" where
  "sp_expire_ms D key expire_at_ms p =
     (case sp_load_live_meta D key p of
        (Some m, p') \<Rightarrow> sp_then (sp_put_meta D key (m\<lparr>expire_ms := expire_at_ms\<rparr>)) (\<lambda>_. sp_ret 1) p'
      | (None, p') \<Rightarrow> sp_ret 0 p')"

definition sp_pttl :: "'d spike_rocksdb \<Rightarrow> bytes \<Rightarrow> 'd store \<Rightarrow> int \<times> 'd store" where
  "sp_pttl D key p =
     (case sp_load_live_meta D key p of
        (None, p') \<Rightarrow> (- 2, p')
      | (Some m, p') \<Rightarrow>
          if expire_ms m = 0 then (- 1, p')
          else (case now_ms p' of (now, p'') \<Rightarrow>
                  (sint (if now \<le> expire_ms m then expire_ms m - now else 0), p'')))"

subsection \<open>Hashes\<close>

text \<open>The pattern \<open>Some(m) if m.type_id == TYPE_HASH\<close> on the live metadata.\<close>

definition sp_load_hash :: "'d spike_rocksdb \<Rightarrow> bytes \<Rightarrow> 'd store \<Rightarrow> meta option \<times> 'd store" where
  "sp_load_hash D key p =
     (case sp_load_live_meta D key p of
        (Some m, p') \<Rightarrow> (if type_id m = TYPE_HASH then Some m else None, p')
      | (None, p') \<Rightarrow> (None, p'))"

text \<open>The live metadata of a hash, or fresh metadata: also in place of a value of another type.\<close>

definition sp_hash_meta :: "'d spike_rocksdb \<Rightarrow> bytes \<Rightarrow> 'd store \<Rightarrow> meta \<times> 'd store" where
  "sp_hash_meta D key p =
     (case sp_load_hash D key p of
        (Some m, p') \<Rightarrow> (m, p')
      | (None, p') \<Rightarrow>
          (case next_version p' of (ver, p2) \<Rightarrow>
             (sp_set_field_count 0 \<lparr>type_id = TYPE_HASH, version = ver, expire_ms = 0, payload = []\<rparr>,
              p2\<lparr>versions := vm_set key ver (versions p2)\<rparr>)))"

primrec sp_hset_loop ::
  "'d spike_rocksdb \<Rightarrow> 'd store \<Rightarrow> bytes \<Rightarrow> u64 \<Rightarrow> (bytes \<times> bytes) list \<Rightarrow> u32 \<Rightarrow> int \<Rightarrow> batch_entry list
     \<Rightarrow> u32 \<times> int \<times> batch_entry list" where
  "sp_hset_loop D p key ver [] fc created batch = (fc, created, batch)"
| "sp_hset_loop D p key ver (fv # fvs) fc created batch =
     (let sk = sp_subkey key ver (fst fv); existed = (sp_db_get D sk p \<noteq> None)
      in sp_hset_loop D p key ver fvs (if existed then fc else fc + 1) (if existed then created else created + 1)
           (batch @ [BatchPut sk (snd fv)]))"

definition sp_hset :: "'d spike_rocksdb \<Rightarrow> bytes \<Rightarrow> (bytes \<times> bytes) list \<Rightarrow> ('d, int) spop" where
  "sp_hset D key pairs p =
     (case sp_hash_meta D key p of (m, p') \<Rightarrow>
        (case sp_hset_loop D p' key (version m) pairs (sp_field_count m) 0 [] of (fc, created, batch) \<Rightarrow>
           sp_then (sp_write D (batch @ [BatchPut (sp_meta_key key) (sp_meta_encode (sp_set_field_count fc m))]))
             (\<lambda>_. sp_ret created) p'))"

definition sp_hget :: "'d spike_rocksdb \<Rightarrow> bytes \<Rightarrow> bytes \<Rightarrow> 'd store \<Rightarrow> bytes option \<times> 'd store" where
  "sp_hget D key field p =
     (case sp_load_live_meta D key p of
        (None, p') \<Rightarrow> (None, p')
      | (Some m, p') \<Rightarrow>
          if type_id m \<noteq> TYPE_HASH then (None, p')
          else (sp_db_get D (sp_subkey key (version m) field) p', p'))"

text \<open>The scan loop of \<open>hgetall\<close>: it stops at an iterator error and at the first key past the prefix.\<close>

fun sp_scan_fields :: "bytes \<Rightarrow> (string + bytes \<times> bytes) list \<Rightarrow> (bytes \<times> bytes) list" where
  "sp_scan_fields pre [] = []"
| "sp_scan_fields pre (Inl _ # _) = []"
| "sp_scan_fields pre (Inr (k, v) # rest) =
     (if \<not> prefix pre k then [] else (drop (length pre) k, v) # sp_scan_fields pre rest)"

definition sp_hgetall :: "'d spike_rocksdb \<Rightarrow> bytes \<Rightarrow> 'd store \<Rightarrow> (bytes \<times> bytes) list \<times> 'd store" where
  "sp_hgetall D key p =
     (case sp_load_hash D key p of
        (None, p') \<Rightarrow> ([], p')
      | (Some m, p') \<Rightarrow>
          (let pre = sp_subkey_prefix key (version m)
           in (sp_scan_fields pre (db_iterator D (engine p') pre), p')))"

primrec sp_hdel_loop ::
  "'d spike_rocksdb \<Rightarrow> 'd store \<Rightarrow> bytes \<Rightarrow> u64 \<Rightarrow> bytes list \<Rightarrow> u32 \<Rightarrow> int \<Rightarrow> batch_entry list
     \<Rightarrow> u32 \<times> int \<times> batch_entry list" where
  "sp_hdel_loop D p key ver [] fc removed batch = (fc, removed, batch)"
| "sp_hdel_loop D p key ver (f # fs) fc removed batch =
     (let sk = sp_subkey key ver f
      in if sp_db_get D sk p \<noteq> None
         then sp_hdel_loop D p key ver fs (sat_dec fc) (removed + 1) (batch @ [BatchDelete sk])
         else sp_hdel_loop D p key ver fs fc removed batch)"

definition sp_hdel :: "'d spike_rocksdb \<Rightarrow> bytes \<Rightarrow> bytes list \<Rightarrow> ('d, int) spop" where
  "sp_hdel D key fs p =
     (case sp_load_hash D key p of
        (None, p') \<Rightarrow> sp_ret 0 p'
      | (Some m, p') \<Rightarrow>
          (case sp_hdel_loop D p' key (version m) fs (sp_field_count m) 0 [] of (fc, removed, batch) \<Rightarrow>
             if removed > 0 then
               if fc = 0 then sp_then (sp_write D batch) (\<lambda>_. sp_ret removed) (sp_logical_delete D key p')
               else sp_then (sp_write D
                      (batch @ [BatchPut (sp_meta_key key) (sp_meta_encode (sp_set_field_count fc m))]))
                    (\<lambda>_. sp_ret removed) p'
             else sp_ret removed p'))"

definition sp_hlen :: "'d spike_rocksdb \<Rightarrow> bytes \<Rightarrow> 'd store \<Rightarrow> int \<times> 'd store" where
  "sp_hlen D key p =
     (case sp_load_hash D key p of
        (Some m, p') \<Rightarrow> (uint (sp_field_count m), p')
      | (None, p') \<Rightarrow> (0, p'))"

definition sp_hexists :: "'d spike_rocksdb \<Rightarrow> bytes \<Rightarrow> bytes \<Rightarrow> 'd store \<Rightarrow> bool \<times> 'd store" where
  "sp_hexists D key field p = (case sp_hget D key field p of (r, p') \<Rightarrow> (r \<noteq> None, p'))"

subsection \<open>Administration\<close>

text \<open>\<open>filter_map(|item| item.ok())\<close>: records the iterator could not read are passed over.\<close>

definition sp_records :: "'d spike_rocksdb \<Rightarrow> 'd store \<Rightarrow> (bytes \<times> bytes) list" where
  "sp_records D p =
     List.map_filter (\<lambda>item. case item of Inl _ \<Rightarrow> None | Inr kv \<Rightarrow> Some kv) (db_iterator_start D (engine p))"

definition sp_versions_clear :: "'d spike_rocksdb \<Rightarrow> 'd store \<Rightarrow> 'd store" where
  "sp_versions_clear D p =
     p\<lparr>versions := fold (\<lambda>k vm. if k \<noteq> [] \<and> hd k = META_PREFIX then vm_remove (drop 1 k) vm else vm)
        (map fst (sp_records D p)) (versions p)\<rparr>"

definition sp_flushdb :: "'d spike_rocksdb \<Rightarrow> ('d, unit) spop" where
  "sp_flushdb D p =
     sp_then (sp_write D (map BatchDelete (map fst (sp_records D p))))
       (\<lambda>_ p'. sp_ret () (sp_versions_clear D p')) p"

definition sp_count_prefix :: "'d spike_rocksdb \<Rightarrow> byte \<Rightarrow> 'd store \<Rightarrow> int" where
  "sp_count_prefix D b p = int (length (filter (\<lambda>(k, _). k \<noteq> [] \<and> hd k = b) (sp_records D p)))"

definition sp_dbsize :: "'d spike_rocksdb \<Rightarrow> 'd store \<Rightarrow> int" where
  "sp_dbsize D p = sp_count_prefix D META_PREFIX p"

definition sp_raw_subkey_count :: "'d spike_rocksdb \<Rightarrow> 'd store \<Rightarrow> int" where
  "sp_raw_subkey_count D p = sp_count_prefix D SUBKEY_PREFIX p"

definition sp_compact :: "'d spike_rocksdb \<Rightarrow> 'd store \<Rightarrow> 'd store" where
  "sp_compact D p =
     (let d = snd (db_flush D (engine p))
      in p\<lparr>engine := db_compact_range_opt D (\<lambda>key _. sp_should_keep (versions p) key) d None None\<rparr>)"

end
