(* ===== verification/Spike_Equiv.thy ===== *)
theory Spike_Equiv
  imports Spike_Store Admin_Refine
begin

text \<open>
  The prototype's storage layer against the production store.  The two share one on-disk format;
  opened on the same records and driven by the same operations they stay in lock step, record for
  record, except where the prototype has no notion of a value of the wrong type.  \<open>spike_rocks\<close> adds
  to \<open>rocksdb_reliable\<close> what RocksDB documents of the calls only the prototype makes.  \<open>FLUSHDB\<close> is not
  part of the comparison: the prototype leaves its version map as it was.
\<close>

subsection \<open>One on-disk format\<close>

lemma sp_keys [simp]:
  "sp_meta_key = meta_key" "sp_subkey_prefix = subkey_prefix" "sp_subkey = subkey"
  "sp_meta_encode = meta_encode" "sp_meta_decode = meta_decode" "sp_set_field_count = set_field_count"
  by (simp_all add: fun_eq_iff sp_meta_key_def meta_key_def sp_subkey_prefix_def subkey_prefix_def sp_subkey_def
      subkey_def sp_meta_encode_def meta_encode_def sp_meta_decode_def meta_decode_def sp_set_field_count_def
      set_field_count_def)

lemma sp_parse_subkey_eq [simp]: "sp_parse_subkey = parse_subkey"
proof
  fix raw
  have "unat (u32_from_be (slice raw 1 5)) < 2 ^ 32" using unat_u32_bound by simp
  then show "sp_parse_subkey raw = parse_subkey raw"
    by (simp add: sp_parse_subkey_def parse_subkey_def parse_versioned_def checked_add_usize_def Let_def)
qed

lemma sp_field_count_eq: "type_id m \<in> {TYPE_STRING, TYPE_HASH} \<Longrightarrow> sp_field_count m = field_count m"
  by (auto simp: sp_field_count_def field_count_def type_defs)

lemma oks_of_oks: "List.map_filter (\<lambda>item. case item of Inl _ \<Rightarrow> None | Inr kv \<Rightarrow> Some kv) (map Inr zs) = zs"
  by (induction zs) (simp_all add: List.map_filter_def)

lemma oks_only: "map Inr zs = map Inr ys @ Inl x # rest \<Longrightarrow> False"
  by (metis Inl_Inr_False image_iff in_set_conv_decomp list.set_map)

lemma scans_first_byte:
  assumes "lists_from m [] zs"
  shows "scans m [b] (filter (\<lambda>(k, _). k \<noteq> [] \<and> hd k = b) zs)"
proof -
  have "prefix [b] k \<longleftrightarrow> k \<noteq> [] \<and> hd k = b" for k by (cases k) auto
  moreover have "sorted_wrt (<) (map fst (filter P zs))" for P
    using assms by (simp add: lists_from_def sorted_wrt_map sorted_wrt_filter)
  ultimately show ?thesis using assms by (auto simp: lists_from_def scans_def)
qed

lemma compacts_all_unique:
  assumes "compacts keep range_default m m1" "compacts keep' range_default m m2"
    "\<And>k v. m k = Some v \<Longrightarrow> keep k v \<longleftrightarrow> keep' k v"
  shows "m1 = m2"
proof
  fix k
  have "m1 \<subseteq>\<^sub>m m" "m2 \<subseteq>\<^sub>m m" using assms by (simp_all add: compacts_def)
  then have "m k = None \<Longrightarrow> m1 k = None \<and> m2 k = None" unfolding map_le_def by (metis domIff)
  moreover have "m1 k = m2 k" if "m k = Some v" for v
    using that assms by (cases "keep' k v") (simp_all add: compacts_def)
  ultimately show "m1 k = m2 k" by (cases "m k") auto
qed

subsection \<open>What RocksDB documents of the further calls\<close>

locale spike_rocks = rocksdb_reliable "rocksdb.truncate D" contents
  for D :: "'d spike_rocksdb" and contents :: "'d \<Rightarrow> kv" +
  assumes db_put_ok: "\<exists>d'. db_put D d k v = (Inr (), d') \<and> contents d' = (contents d)(k \<mapsto> v)"
    and db_delete_ok: "\<exists>d'. db_delete D d k = (Inr (), d') \<and> contents d' = (contents d)(k := None)"
    and db_start_ok: "\<exists>zs. db_iterator_start D d = map Inr zs \<and> lists_from (contents d) [] zs"
begin

lemma truncated [simp]:
  "db_get (rocksdb.truncate D) = db_get D" "db_write (rocksdb.truncate D) = db_write D"
  "db_iterator (rocksdb.truncate D) = db_iterator D" "db_flush (rocksdb.truncate D) = db_flush D"
  "db_compact_range_opt (rocksdb.truncate D) = db_compact_range_opt D"
  by (simp_all add: rocksdb.truncate_def)

lemma sp_db_get_eq [simp]: "sp_db_get D k p = contents (engine p) k"
  using db_get_total [of "engine p" k] db_get_sound [of "engine p" k] by (auto simp: sp_db_get_def)

text \<open>Opening tracks hashes only, so a compaction afterwards takes the elements of every other type for garbage.\<close>

lemma other_types_untracked:
  assumes "sp_open D path clock readings = Inr p" "contents (engine p) (meta_key k) = Some (meta_encode mt)"
    "type_id mt \<noteq> TYPE_HASH"
  shows "vm_get k (versions p) = None"
proof -
  obtain d where d: "db_open D sp_options path = Inr d" "engine p = d"
      "versions p = fold sp_rebuild_step (db_iterator_start D d) vm_new"
    using assms(1) by (auto simp: sp_open_def sp_rebuild_version_map_def split: sum.splits)
  obtain zs where zs: "db_iterator_start D d = map Inr zs" "lists_from (contents d) [] zs"
    using db_start_ok [of d] by blast
  have "vm_get k (fold sp_rebuild_step (map Inr xs) vm) = vm_get k vm" if "set xs \<subseteq> set zs" for xs vm
    using that
  proof (induction xs arbitrary: vm)
    case (Cons x xs)
    obtain a y where x: "x = (a, y)" by (cases x)
    have "contents d a = Some y" using Cons.prems zs(2) by (auto simp: lists_from_def x)
    then have "vm_get k (sp_rebuild_step (Inr x) vm) = vm_get k vm"
      using assms(2,3) d(2) unfolding x sp_rebuild_step_def
      by (cases a) (auto simp: vm_simps meta_key_def codec_simps split: option.splits)
    then show ?case using Cons by simp
  qed simp
  then show ?thesis using d(3) zs(1) by (simp add: vm_new_def vm_get_def)
qed

lemma compact_drops:
  assumes "valid_key k" "vm_get k (versions p) = None"
  shows "contents (engine (sp_compact D p)) (meta_key k) = contents (engine p) (meta_key k)"
    "contents (engine (sp_compact D p)) (subkey k v f) = None"
proof -
  have "contents (snd (db_flush D (engine p))) = contents (engine p)" using db_flush_contents [of "engine p"] by simp
  then have d: "compacts (\<lambda>key _. sp_should_keep (versions p) key) range_default (contents (engine p))
      (contents (engine (sp_compact D p)))"
    using db_compact_filter [of "\<lambda>key _. sp_should_keep (versions p) key" None None "snd (db_flush D (engine p))"]
    by (simp add: sp_compact_def range_default_def)
  have keep: "sp_should_keep (versions p) (meta_key k)" "\<not> sp_should_keep (versions p) (subkey k v f)"
    using assms by (simp_all add: sp_should_keep_def codec_simps)
  have sub: "contents (engine (sp_compact D p)) raw = None \<or> contents (engine (sp_compact D p)) raw = contents (engine p) raw" for raw
    using d unfolding compacts_def map_le_def by (metis domIff)
  show "contents (engine (sp_compact D p)) (meta_key k) = contents (engine p) (meta_key k)"
    using d keep(1) sub [of "meta_key k"] unfolding compacts_def by (metis not_None_eq)
  show "contents (engine (sp_compact D p)) (subkey k v f) = None"
    using d keep(2) sub [of "subkey k v f"] in_range_default unfolding compacts_def by (metis not_None_eq)
qed

lemma sp_write_eq:
  obtains d' where "sp_write D (map to_batch_entry os) p = (Some (), p\<lparr>engine := d'\<rparr>)"
    "contents d' = apply_ops os (contents (engine p))"
proof -
  obtain d' where d: "db_write D (engine p) (map to_batch_entry os) = (Inr (), d')"
    using db_write_total [of "engine p" "map to_batch_entry os"] by auto
  moreover have "contents d' = apply_ops os (contents (engine p))"
    using db_write_ok [of "engine p" "map to_batch_entry os" "()" d'] d by (simp add: fold_apply_entry)
  ultimately show thesis using that by (simp add: sp_write_def sp_expect_def)
qed

lemma sp_put_meta_eq:
  obtains d' where "sp_put_meta D k m p = (Some (), p\<lparr>engine := d'\<rparr>)"
    "contents d' = (contents (engine p))(meta_key k \<mapsto> meta_encode m)"
  using db_put_ok [of "engine p" "meta_key k" "meta_encode m"] by (auto simp: sp_put_meta_def sp_expect_def)

lemma sp_logical_delete_eq:
  obtains d' where "sp_logical_delete D k p = p\<lparr>engine := d', versions := vm_remove k (versions p)\<rparr>"
    "contents d' = (contents (engine p))(meta_key k := None)"
  using db_delete_ok [of "engine p" "meta_key k"] by (auto simp: sp_logical_delete_def)

lemma sp_records_lists: "lists_from (contents (engine p)) [] (sp_records D p)"
  using db_start_ok [of "engine p"] by (auto simp: sp_records_def oks_of_oks)

lemma flush_effect:
  "\<exists>p'. sp_flushdb D p = (Some (), p') \<and> contents (engine p') = Map.empty \<and> versions p' = versions p"
proof -
  let ?ks = "map fst (sp_records D p)" and ?m = "contents (engine p)"
  obtain d' where d: "sp_write D (map to_batch_entry (map Delete ?ks)) p = (Some (), p\<lparr>engine := d'\<rparr>)"
    "contents d' = apply_ops (map Delete ?ks) ?m" by (rule sp_write_eq)
  have "apply_ops (map Delete ks) m k = (if k \<in> set ks then None else m k)" for ks m k
    by (induction ks arbitrary: m) auto
  moreover have "k \<in> set ?ks" if "?m k = Some x" for k x
    using that sp_records_lists [of p] by (force simp: lists_from_def)
  ultimately have "apply_ops (map Delete ?ks) ?m k = None" for k
    by (cases "?m k") (auto simp del: map_map)
  then have e: "contents d' = Map.empty" using d(2) by auto
  then have "sp_records D (p\<lparr>engine := d'\<rparr>) = []"
    using sp_records_lists [of "p\<lparr>engine := d'\<rparr>"] by (simp add: lists_from_def)
  then show ?thesis using d(1) e by (simp add: sp_flushdb_def sp_then_def sp_ret_def sp_versions_clear_def comp_def)
qed

lemma sp_scan_fields_ok:
  "sp_scan_fields pre (map Inr zs) = map (\<lambda>(k, v). (drop (length pre) k, v)) (takeWhile (\<lambda>(k, v). prefix pre k) zs)"
  by (induction zs) auto

lemma sp_scan_scans:
  "\<exists>xs. sp_scan_fields pre (db_iterator D d pre) = map (\<lambda>(k, v). (drop (length pre) k, v)) xs \<and> scans (contents d) pre xs"
proof -
  obtain zs where zs: "db_iterator D d pre = map Inr zs" using db_iterator_total [of d pre] by auto
  have "lists_from (contents d) pre zs"
    using db_iterator_sorted [of d pre] by (auto simp: zs inj_map_eq_map dest: oks_only)
  from scans_takeWhile [OF this] show ?thesis by (auto simp: zs sp_scan_fields_ok)
qed

end

subsection \<open>Databases both programs can use\<close>

definition spike_type :: "byte \<Rightarrow> bool" where
  "spike_type ty \<longleftrightarrow> ty = TYPE_STRING \<or> ty = TYPE_HASH"

definition string_hash_kv :: "kv \<Rightarrow> bool" where
  "string_hash_kv m \<longleftrightarrow>
     (\<forall>raw x. m raw = Some x \<longrightarrow>
        (\<exists>k mt. raw = meta_key k \<and> x = meta_encode mt \<and> spike_type (type_id mt))
        \<or> (\<exists>k v f. valid_key k \<and> raw = subkey k v f))"

definition spike_op_ok :: "write_op \<Rightarrow> bool" where
  "spike_op_ok x \<longleftrightarrow>
     (case x of
        Delete _ \<Rightarrow> True
      | Put raw y \<Rightarrow> (\<exists>k mt. raw = meta_key k \<and> y = meta_encode mt \<and> spike_type (type_id mt))
          \<or> (\<exists>k v f. valid_key k \<and> raw = subkey k v f))"

lemma string_hash_kv_apply_ops:
  "string_hash_kv m \<Longrightarrow> \<forall>x \<in> set os. spike_op_ok x \<Longrightarrow> string_hash_kv (apply_ops os m)"
proof (induction os arbitrary: m)
  case (Cons x os)
  have "string_hash_kv (apply_op x m)"
    using Cons.prems by (cases x) (auto simp: string_hash_kv_def spike_op_ok_def split: if_splits)
  then show ?case using Cons by simp
qed simp

lemma spike_op_ok_simps [simp]:
  "spike_op_ok (Delete raw)" "valid_key k \<Longrightarrow> spike_op_ok (Put (subkey k v f) x)"
  "spike_type (type_id mt) \<Longrightarrow> spike_op_ok (Put (meta_key k) (meta_encode mt))"
  by (auto simp: spike_op_ok_def)

lemma string_hash_kv_meta:
  "string_hash_kv m \<Longrightarrow> m (meta_key k) = Some x \<Longrightarrow> \<exists>mt. x = meta_encode mt \<and> spike_type (type_id mt)"
  unfolding string_hash_kv_def by (metis key_families_disjoint(1))

lemma string_hash_kv_sub: "string_hash_kv m \<Longrightarrow> m' \<subseteq>\<^sub>m m \<Longrightarrow> string_hash_kv m'"
  unfolding string_hash_kv_def map_le_def by (metis domI)

definition twins :: "('e \<Rightarrow> kv) \<Rightarrow> ('d \<Rightarrow> kv) \<Rightarrow> 'e store \<Rightarrow> 'd store \<Rightarrow> bool" where
  "twins view contents s p \<longleftrightarrow>
     view (engine s) = contents (engine p) \<and> versions s = versions p
     \<and> version_clock s = version_clock p \<and> time s = time p \<and> string_hash_kv (contents (engine p))"

subsection \<open>The operations the two programs share\<close>

datatype spike_op =
    OpSet bytes bytes u64 | OpGet bytes | OpExists bytes | OpType bytes | OpDel bytes | OpExpire bytes u64 | OpPttl bytes
  | OpHset bytes "(bytes \<times> bytes) list" | OpHget bytes bytes | OpHgetall bytes | OpHdel bytes "bytes list"
  | OpHlen bytes | OpHexists bytes bytes | OpDbsize | OpRawcount | OpCompact

datatype spike_val =
  ValUnit | ValBool bool | ValInt int | ValBulk "bytes option" | ValText string | ValPairs "(bytes \<times> bytes) list"

fun op_valid :: "spike_op \<Rightarrow> bool" where
  "op_valid (OpHset k _) \<longleftrightarrow> valid_key k"
| "op_valid _ \<longleftrightarrow> True"

fun eng_exec :: "'e engine_ops \<Rightarrow> spike_op \<Rightarrow> ('e, spike_val) sop" where
  "eng_exec E (OpSet k x e) = try_then (store_set E k x e) (\<lambda>_. ok ValUnit)"
| "eng_exec E (OpGet k) = try_then (store_get E k) (\<lambda>r. ok (ValBulk r))"
| "eng_exec E (OpExists k) = try_then (store_exists E k) (\<lambda>b. ok (ValBool b))"
| "eng_exec E (OpType k) = try_then (type_of E k) (\<lambda>t. ok (ValText t))"
| "eng_exec E (OpDel k) = try_then (store_del E k) (\<lambda>b. ok (ValBool b))"
| "eng_exec E (OpExpire k e) = try_then (expire_at E k e) (\<lambda>b. ok (ValInt (if b then 1 else 0)))"
| "eng_exec E (OpPttl k) = try_then (pttl E k) (\<lambda>n. ok (ValInt n))"
| "eng_exec E (OpHset k ps) = try_then (hset E k ps) (\<lambda>n. ok (ValInt n))"
| "eng_exec E (OpHget k f) = try_then (hget E k f) (\<lambda>r. ok (ValBulk r))"
| "eng_exec E (OpHgetall k) = try_then (hgetall E k) (\<lambda>xs. ok (ValPairs xs))"
| "eng_exec E (OpHdel k fs) = try_then (hdel E k fs) (\<lambda>n. ok (ValInt n))"
| "eng_exec E (OpHlen k) = try_then (hlen E k) (\<lambda>n. ok (ValInt n))"
| "eng_exec E (OpHexists k f) = try_then (hexists E k f) (\<lambda>b. ok (ValBool b))"
| "eng_exec E OpDbsize = try_then (dbsize E) (\<lambda>n. ok (ValInt n))"
| "eng_exec E OpRawcount = try_then (raw_subkey_count E) (\<lambda>n. ok (ValInt n))"
| "eng_exec E OpCompact = try_then (store_compact E) (\<lambda>_. ok ValUnit)"

definition sp_total :: "('d store \<Rightarrow> 'a \<times> 'd store) \<Rightarrow> ('a \<Rightarrow> 'b) \<Rightarrow> ('d, 'b) spop" where
  "sp_total f g p = (case f p of (x, p') \<Rightarrow> (Some (g x), p'))"

fun sp_exec :: "'d spike_rocksdb \<Rightarrow> spike_op \<Rightarrow> ('d, spike_val) spop" where
  "sp_exec D (OpSet k x e) = sp_then (sp_set D k x e) (\<lambda>_. sp_ret ValUnit)"
| "sp_exec D (OpGet k) = sp_total (sp_get D k) ValBulk"
| "sp_exec D (OpExists k) = sp_total (sp_exists D k) ValBool"
| "sp_exec D (OpType k) = sp_total (sp_type_of D k) ValText"
| "sp_exec D (OpDel k) = sp_total (sp_del D k) ValBool"
| "sp_exec D (OpExpire k e) = sp_then (sp_expire_ms D k e) (\<lambda>n. sp_ret (ValInt n))"
| "sp_exec D (OpPttl k) = sp_total (sp_pttl D k) ValInt"
| "sp_exec D (OpHset k ps) = sp_then (sp_hset D k ps) (\<lambda>n. sp_ret (ValInt n))"
| "sp_exec D (OpHget k f) = sp_total (sp_hget D k f) ValBulk"
| "sp_exec D (OpHgetall k) = sp_total (sp_hgetall D k) ValPairs"
| "sp_exec D (OpHdel k fs) = sp_then (sp_hdel D k fs) (\<lambda>n. sp_ret (ValInt n))"
| "sp_exec D (OpHlen k) = sp_total (sp_hlen D k) ValInt"
| "sp_exec D (OpHexists k f) = sp_total (sp_hexists D k f) ValBool"
| "sp_exec D OpDbsize = (\<lambda>p. sp_ret (ValInt (sp_dbsize D p)) p)"
| "sp_exec D OpRawcount = (\<lambda>p. sp_ret (ValInt (sp_raw_subkey_count D p)) p)"
| "sp_exec D OpCompact = (\<lambda>p. sp_ret ValUnit (sp_compact D p))"

primrec eng_run :: "'e engine_ops \<Rightarrow> spike_op list \<Rightarrow> ('e, spike_val list) sop" where
  "eng_run E [] = ok []"
| "eng_run E (x # xs) = try_then (eng_exec E x) (\<lambda>v. try_then (eng_run E xs) (\<lambda>vs. ok (v # vs)))"

primrec sp_run :: "'d spike_rocksdb \<Rightarrow> spike_op list \<Rightarrow> ('d, spike_val list) spop" where
  "sp_run D [] = sp_ret []"
| "sp_run D (x # xs) = sp_then (sp_exec D x) (\<lambda>v. sp_then (sp_run D xs) (\<lambda>vs. sp_ret (v # vs)))"

subsection \<open>Lock step\<close>

locale spike_pair = eng: reliable_engine E view gc_on + spk: spike_rocks D contents
  for E :: "'e engine_ops" and view gc_on and D :: "'d spike_rocksdb" and contents
begin

abbreviation twin :: "'e store \<Rightarrow> 'd store \<Rightarrow> bool" where
  "twin s p \<equiv> twins view contents s p \<and> gc_on (engine s)"

lemma twin_clock:
  assumes "twin s p"
  shows "fst (now_ms s) = fst (now_ms p)" "twin (snd (now_ms s)) (snd (now_ms p))"
    "fst (next_version s) = fst (next_version p)" "twin (snd (next_version s)) (snd (next_version p))"
  using assms by (simp_all add: twins_def now_ms_def next_version_eq)

text \<open>Both programs apply the same operations to their database.\<close>

lemma twin_write:
  assumes "twin s p" "contents d' = apply_ops (ops b) (contents (engine p))" "\<forall>x \<in> set (ops b). spike_op_ok x"
  shows "twin (s\<lparr>engine := snd (eng_write E (engine s) b), versions := vm\<rparr>) (p\<lparr>engine := d', versions := vm\<rparr>)"
    "twin (s\<lparr>engine := snd (eng_write E (engine s) b)\<rparr>) (p\<lparr>engine := d'\<rparr>)"
  using assms string_hash_kv_apply_ops [of "contents (engine p)" "ops b"] by (simp_all add: twins_def eng.write_gc)

lemma twin_logical_delete:
  assumes "twin s p"
  shows "twin (snd (logical_delete E k s)) (sp_logical_delete D k p)"
proof -
  obtain d' where d: "sp_logical_delete D k p = p\<lparr>engine := d', versions := vm_remove k (versions p)\<rparr>"
    "contents d' = (contents (engine p))(meta_key k := None)" by (rule spk.sp_logical_delete_eq)
  moreover have "versions s = versions p" using assms by (simp add: twins_def)
  ultimately show ?thesis
    using twin_write(1) [OF assms, of d' "batch_delete (meta_key k) batch_new" "vm_remove k (versions p)"] by simp
qed

lemma load_live_twin:
  assumes "twin s p"
  obtains r s' p' where "load_live_meta E k s = (Inr r, s')" "sp_load_live_meta D k p = (r, p')" "twin s' p'"
    "\<And>m. r = Some m \<Longrightarrow> spike_type (type_id m)"
proof -
  have v: "view (engine s) = contents (engine p)" "string_hash_kv (contents (engine p))" using assms by (simp_all add: twins_def)
  show thesis
  proof (cases "contents (engine p) (meta_key k)")
    case None
    then show thesis using that [of None s p] assms v
      by (simp add: load_live_meta_def load_meta_def sp_load_live_meta_def sp_load_meta_def try_then_def)
  next
    case (Some x)
    then obtain mt where mt: "x = meta_encode mt" "spike_type (type_id mt)" using string_hash_kv_meta [OF v(2)] by blast
    have lm: "load_meta E k s = (Inr (Some mt), s)" "sp_load_meta D k p = Some mt"
      using Some mt v by (simp_all add: load_meta_def sp_load_meta_def)
    obtain n s1 p1 where n: "now_ms s = (n, s1)" "now_ms p = (n, p1)" "twin s1 p1"
      using twin_clock(1,2) [OF assms] by (metis prod.collapse)
    have del: "twin (snd (logical_delete E k s1)) (sp_logical_delete D k p1)" by (rule twin_logical_delete [OF n(3)])
    show thesis
    proof (cases "expire_ms mt \<noteq> 0"; cases "expire_ms mt \<le> n")
      assume "expire_ms mt \<noteq> 0" "expire_ms mt \<le> n"
      then show thesis using that [of None, OF _ _ del] lm n
        by (simp add: load_live_meta_def sp_load_live_meta_def try_then_def)
    qed (use that [of "Some mt"] lm n assms mt in
      \<open>simp_all add: load_live_meta_def sp_load_live_meta_def try_then_def\<close>)
  qed
qed

abbreviation answer :: "(engine_error + 'a) \<times> 'e store \<Rightarrow> 'a option \<times> 'd store \<Rightarrow> bool" where
  "answer out out' \<equiv> fst out = Inl WrongType
     \<or> (\<exists>x s' p'. out = (Inr x, s') \<and> out' = (Some x, p') \<and> twin s' p')"

lemmas exec_simps = try_then_def ok_def fail_def sp_total_def sp_ret_def sp_then_def load_typed_def load_count_def
  sp_load_hash_def

lemma reads_answer:
  assumes "twin s p"
  shows "answer (eng_exec E (OpGet k) s) (sp_exec D (OpGet k) p)"
    "answer (eng_exec E (OpExists k) s) (sp_exec D (OpExists k) p)"
    "answer (eng_exec E (OpType k) s) (sp_exec D (OpType k) p)"
    "answer (eng_exec E (OpHlen k) s) (sp_exec D (OpHlen k) p)"
  by (rule load_live_twin [OF assms, of k];
      auto simp: exec_simps store_get_def sp_get_def store_exists_def sp_exists_def type_of_def sp_type_of_def
        hlen_def sp_hlen_def sp_field_count_eq spike_type_def split: option.splits)+

lemma pttl_answer:
  assumes "twin s p"
  shows "answer (eng_exec E (OpPttl k) s) (sp_exec D (OpPttl k) p)"
proof (rule load_live_twin [OF assms, of k])
  fix r s' p' assume "load_live_meta E k s = (Inr r, s')" "sp_load_live_meta D k p = (r, p')" "twin s' p'"
  then show ?thesis using twin_clock(1,2) [of s' p']
    by (auto simp: exec_simps pttl_def sp_pttl_def Let_def split: option.splits prod.splits)
qed

lemma hget_answer:
  assumes "twin s p"
  shows "answer (eng_exec E (OpHget k f) s) (sp_exec D (OpHget k f) p)"
    "answer (eng_exec E (OpHexists k f) s) (sp_exec D (OpHexists k f) p)"
  by (rule load_live_twin [OF assms, of k];
      auto simp: exec_simps hget_def sp_hget_def hexists_def sp_hexists_def twins_def spike_type_def split: option.splits)+

lemma hgetall_answer:
  assumes "twin s p"
  shows "answer (eng_exec E (OpHgetall k) s) (sp_exec D (OpHgetall k) p)"
proof (rule load_live_twin [OF assms, of k])
  fix r s' p' assume l: "load_live_meta E k s = (Inr r, s')" "sp_load_live_meta D k p = (r, p')" "twin s' p'"
  define pre where "pre = (\<lambda>m :: meta. subkey_prefix k (version m))"
  have eq: "engine_for E (pre m) (\<lambda>k v out. out @ [(drop (length (pre m)) k, v)]) [] s'
      = (Inr (sp_scan_fields (pre m) (db_iterator D (engine p') (pre m))), s')" for m
  proof -
    obtain xs where xs: "scans (view (engine s')) (pre m) xs"
      "engine_for E (pre m) (\<lambda>k v out. out @ [(drop (length (pre m)) k, v)]) [] s'
        = (Inr (fold (\<lambda>(key, v) out. out @ [(drop (length (pre m)) key, v)]) xs []), s')"
      by (rule eng.engine_for_eq)
    moreover obtain ys where "sp_scan_fields (pre m) (db_iterator D (engine p') (pre m))
        = map (\<lambda>(k, v). (drop (length (pre m)) k, v)) ys" "scans (contents (engine p')) (pre m) ys"
      using spk.sp_scan_scans by blast
    moreover have "view (engine s') = contents (engine p')" using l(3) by (simp add: twins_def)
    ultimately show ?thesis using scans_unique [of "contents (engine p')" "pre m" xs ys] by (simp add: fold_snoc_map)
  qed
  show ?thesis
  proof (cases r)
    case (Some m)
    then show ?thesis using l eq [of m]
      by (cases "type_id m = TYPE_HASH") (simp_all add: exec_simps hgetall_def sp_hgetall_def pre_def Let_def)
  qed (use l in \<open>simp add: exec_simps hgetall_def sp_hgetall_def\<close>)
qed

lemma deletes_answer:
  assumes "twin s p"
  shows "answer (eng_exec E (OpDel k) s) (sp_exec D (OpDel k) p)"
proof (rule load_live_twin [OF assms, of k])
  fix r s' p' assume l: "load_live_meta E k s = (Inr r, s')" "sp_load_live_meta D k p = (r, p')" "twin s' p'"
  then show ?thesis using twin_logical_delete [OF l(3), of k]
    by (auto simp: exec_simps store_del_def sp_del_def split: option.splits)
qed

lemma put_meta_answer:
  assumes "twin s p" "spike_type (type_id m)"
  shows "\<exists>s' p'. put_meta E k m s = (Inr (), s') \<and> sp_put_meta D k m p = (Some (), p') \<and> twin s' p'"
proof -
  obtain d' where "sp_put_meta D k m p = (Some (), p\<lparr>engine := d'\<rparr>)"
    "contents d' = (contents (engine p))(meta_key k \<mapsto> meta_encode m)" by (rule spk.sp_put_meta_eq)
  then show ?thesis
    using twin_write(2) [OF assms(1), of d' "batch_put (meta_key k) (meta_encode m) batch_new"] assms(2)
    by (simp add: put_meta_def)
qed

lemma expire_answer:
  assumes "twin s p"
  shows "answer (eng_exec E (OpExpire k e) s) (sp_exec D (OpExpire k e) p)"
proof (rule load_live_twin [OF assms, of k])
  fix r s' p' assume l: "load_live_meta E k s = (Inr r, s')" "sp_load_live_meta D k p = (r, p')" "twin s' p'"
    "\<And>m. r = Some m \<Longrightarrow> spike_type (type_id m)"
  show ?thesis
  proof (cases r)
    case None
    then show ?thesis using l by (simp add: exec_simps expire_at_def sp_expire_ms_def)
  next
    case (Some m)
    then show ?thesis using l put_meta_answer [OF l(3), of "m\<lparr>expire_ms := e\<rparr>" k]
      by (auto simp: exec_simps expire_at_def sp_expire_ms_def)
  qed
qed

lemma set_answer:
  assumes "twin s p"
  shows "answer (eng_exec E (OpSet k x e) s) (sp_exec D (OpSet k x e) p)"
proof -
  let ?rm = "\<lambda>q. q\<lparr>versions := vm_remove k (versions q)\<rparr>"
  have t: "twin (?rm s) (?rm p)" using assms by (simp add: twins_def)
  obtain v s1 p1 where n: "next_version (?rm s) = (v, s1)" "next_version (?rm p) = (v, p1)" "twin s1 p1"
    using twin_clock(3,4) [OF t] by (metis prod.collapse)
  show ?thesis
    using put_meta_answer [OF n(3), of "\<lparr>type_id = TYPE_STRING, version = v, expire_ms = e, payload = x\<rparr>" k]
    by (auto simp: exec_simps store_set_def sp_set_def n(1,2) spike_type_def)
qed

lemma hset_loop_twin:
  assumes "twin s p" "valid_key k"
  shows "\<forall>x \<in> set (ops b). spike_op_ok x \<Longrightarrow>
    \<exists>fc' c' b'. hset_loop E k v ps fc c b s = (Inr (fc', c', b'), s)
      \<and> sp_hset_loop D p k v ps fc c (map to_batch_entry (ops b)) = (fc', c', map to_batch_entry (ops b'))
      \<and> (\<forall>x \<in> set (ops b'). spike_op_ok x)"
proof (induction ps arbitrary: fc c b)
  case Nil
  then show ?case by (auto simp: ok_def)
next
  case (Cons fv ps)
  let ?b = "batch_put (subkey k v (fst fv)) (snd fv) b"
  have "\<forall>x \<in> set (ops ?b). spike_op_ok x" using Cons.prems assms(2) by auto
  moreover have "view (engine s) = contents (engine p)" using assms(1) by (simp add: twins_def)
  ultimately show ?case using Cons.IH [of ?b fc c] Cons.IH [of ?b "fc + 1" "c + 1"] by (auto simp: Let_def)
qed

lemma hash_meta_twin:
  assumes "twin s p"
  obtains "fst (load_or_new_counted E k TYPE_HASH s) = Inl WrongType"
  | m s' p' where "load_or_new_counted E k TYPE_HASH s = (Inr m, s')" "sp_hash_meta D k p = (m, p')" "twin s' p'"
      "type_id m = TYPE_HASH"
proof (rule load_live_twin [OF assms, of k])
  fix r s1 p1 assume l: "load_live_meta E k s = (Inr r, s1)" "sp_load_live_meta D k p = (r, p1)" "twin s1 p1"
    "\<And>m. r = Some m \<Longrightarrow> spike_type (type_id m)"
  obtain v s2 p2 where n: "next_version s1 = (v, s2)" "next_version p1 = (v, p2)" "twin s2 p2"
    using twin_clock(3,4) [OF l(3)] by (metis prod.collapse)
  show thesis
  proof (cases r)
    case None
    have "twin (s2\<lparr>versions := vm_set k v (versions s2)\<rparr>) (p2\<lparr>versions := vm_set k v (versions p2)\<rparr>)"
      using n(3) by (simp add: twins_def)
    then show thesis using that(2) l n None
      by (simp add: load_or_new_counted_def exec_simps infallible_def new_composite_meta_def sp_hash_meta_def)
  next
    case (Some m)
    then show thesis using that l
      by (cases "type_id m = TYPE_HASH") (simp_all add: load_or_new_counted_def exec_simps sp_hash_meta_def)
  qed
qed

lemma hset_answer:
  assumes "twin s p" "valid_key k"
  shows "answer (eng_exec E (OpHset k ps) s) (sp_exec D (OpHset k ps) p)"
proof (rule hash_meta_twin [OF assms(1), of k])
  assume "fst (load_or_new_counted E k TYPE_HASH s) = Inl WrongType"
  then show ?thesis by (auto simp: hset_def try_then_def split: prod.splits sum.splits)
next
  fix m s1 p1
  assume l: "load_or_new_counted E k TYPE_HASH s = (Inr m, s1)" "sp_hash_meta D k p = (m, p1)" "twin s1 p1"
    "type_id m = TYPE_HASH"
  obtain fc c b where b: "hset_loop E k (version m) ps (field_count m) 0 batch_new s1 = (Inr (fc, c, b), s1)"
    "sp_hset_loop D p1 k (version m) ps (field_count m) 0 [] = (fc, c, map to_batch_entry (ops b))"
    "\<forall>x \<in> set (ops b). spike_op_ok x"
    using hset_loop_twin [OF l(3) assms(2), of batch_new "version m" ps "field_count m" 0] by auto
  let ?b = "batch_put (meta_key k) (meta_encode (set_field_count fc m)) b"
  obtain d' where "sp_write D (map to_batch_entry (ops ?b)) p1 = (Some (), p1\<lparr>engine := d'\<rparr>)"
    "contents d' = apply_ops (ops ?b) (contents (engine p1))" by (rule spk.sp_write_eq)
  moreover from this have "twin (s1\<lparr>engine := snd (eng_write E (engine s1) ?b)\<rparr>) (p1\<lparr>engine := d'\<rparr>)"
    using b(3) l(4) by (intro twin_write(2) [OF l(3)]) (auto simp: spike_type_def)
  ultimately show ?thesis
    using l b by (simp add: hset_def sp_hset_def exec_simps sp_field_count_eq)
qed

lemma hdel_loop_twin:
  assumes "twin s p"
  shows "\<forall>x \<in> set (ops b). \<exists>f. x = Delete (subkey k v f) \<Longrightarrow>
    \<exists>fc' c' b'. hdel_loop E k v fs fc c b s = (Inr (fc', c', b'), s)
      \<and> sp_hdel_loop D p k v fs fc c (map to_batch_entry (ops b)) = (fc', c', map to_batch_entry (ops b'))
      \<and> (\<forall>x \<in> set (ops b'). \<exists>f. x = Delete (subkey k v f))"
proof (induction fs arbitrary: fc c b)
  case Nil
  then show ?case by (auto simp: ok_def)
next
  case (Cons f fs)
  let ?b = "batch_delete (subkey k v f) b"
  have "\<forall>x \<in> set (ops ?b). \<exists>f. x = Delete (subkey k v f)" using Cons.prems by auto
  moreover have "view (engine s) = contents (engine p)" using assms(1) by (simp add: twins_def)
  ultimately show ?case using Cons.IH [of ?b] Cons.IH [of b] Cons.prems by (auto simp: Let_def)
qed

text \<open>
  Removing the last field: the engine deletes the fields and then the metadata, the prototype the
  metadata first.  The two orders end in the same database.
\<close>

lemma deletes_commute:
  assumes "\<forall>x \<in> set os. \<exists>f. x = Delete (subkey k v f)"
  shows "(apply_ops os m)(meta_key k := None) = apply_ops os (m(meta_key k := None))"
  using assms
proof (induction os arbitrary: m)
  case (Cons x os)
  then obtain f where "x = Delete (subkey k v f)" by auto
  then have "apply_op x (m(meta_key k := None)) = (apply_op x m)(meta_key k := None)" by auto
  moreover have "(apply_ops os (apply_op x m))(meta_key k := None) = apply_ops os ((apply_op x m)(meta_key k := None))"
    by (rule Cons.IH) (use Cons.prems in simp)
  ultimately show ?case by (simp only: apply_ops_simps)
qed simp

lemma last_fields_twin:
  assumes "twin s p" "\<forall>x \<in> set (ops b). \<exists>f. x = Delete (subkey k v f)"
  shows "\<exists>p'. sp_write D (map to_batch_entry (ops b)) (sp_logical_delete D k p) = (Some (), p')
    \<and> twin (snd (logical_delete E k (s\<lparr>engine := snd (eng_write E (engine s) b)\<rparr>))) p'"
proof -
  obtain d1 where d1: "sp_logical_delete D k p = p\<lparr>engine := d1, versions := vm_remove k (versions p)\<rparr>"
    "contents d1 = (contents (engine p))(meta_key k := None)" by (rule spk.sp_logical_delete_eq)
  let ?p1 = "p\<lparr>engine := d1, versions := vm_remove k (versions p)\<rparr>"
  obtain d2 where d2: "sp_write D (map to_batch_entry (ops b)) ?p1 = (Some (), ?p1\<lparr>engine := d2\<rparr>)"
    "contents d2 = apply_ops (ops b) (contents (engine ?p1))" by (rule spk.sp_write_eq)
  let ?s1 = "s\<lparr>engine := snd (eng_write E (engine s) b)\<rparr>"
  let ?b = "batch_delete (meta_key k) batch_new"
  have s: "view (engine s) = contents (engine p)" "string_hash_kv (contents (engine p))" "versions s = versions p"
    using assms(1) by (simp_all add: twins_def)
  have "contents d2 = apply_ops (ops b @ ops ?b) (contents (engine p))"
    using d1 d2 deletes_commute [OF assms(2)] by simp
  moreover have "\<forall>x \<in> set (ops b @ ops ?b). spike_op_ok x" using assms(2) by auto
  ultimately have "contents d2 = view (snd (eng_write E (engine ?s1) ?b))" "string_hash_kv (contents d2)"
    using s string_hash_kv_apply_ops [OF s(2), of "ops b @ ops ?b"] by simp_all
  then show ?thesis using assms(1) d1 d2 s by (simp add: twins_def eng.write_gc)
qed

lemma hdel_answer:
  assumes "twin s p"
  shows "answer (eng_exec E (OpHdel k fs) s) (sp_exec D (OpHdel k fs) p)"
proof (rule load_live_twin [OF assms, of k])
  fix r s1 p1 assume l: "load_live_meta E k s = (Inr r, s1)" "sp_load_live_meta D k p = (r, p1)" "twin s1 p1"
  show ?thesis
  proof (cases r)
    case (Some m)
    obtain fc c b where b: "hdel_loop E k (version m) fs (field_count m) 0 batch_new s1 = (Inr (fc, c, b), s1)"
      "sp_hdel_loop D p1 k (version m) fs (field_count m) 0 [] = (fc, c, map to_batch_entry (ops b))"
      "\<forall>x \<in> set (ops b). \<exists>f. x = Delete (subkey k (version m) f)"
      using hdel_loop_twin [OF l(3), of batch_new k "version m" fs "field_count m" 0] by auto
    let ?b = "batch_put (meta_key k) (meta_encode (set_field_count fc m)) b"
    obtain d' where d: "sp_write D (map to_batch_entry (ops ?b)) p1 = (Some (), p1\<lparr>engine := d'\<rparr>)"
      "contents d' = apply_ops (ops ?b) (contents (engine p1))" by (rule spk.sp_write_eq)
    have t: "twin (s1\<lparr>engine := snd (eng_write E (engine s1) ?b)\<rparr>) (p1\<lparr>engine := d'\<rparr>)" if "type_id m = TYPE_HASH"
      using b(3) d(2) that by (intro twin_write(2) [OF l(3)]) (auto simp: spike_type_def)
    consider "type_id m \<noteq> TYPE_HASH" | "type_id m = TYPE_HASH" "c > 0" "fc = 0" | "type_id m = TYPE_HASH" "c > 0" "fc \<noteq> 0"
      | "type_id m = TYPE_HASH" "\<not> c > 0" by blast
    then show ?thesis
    proof cases
      case 2
      then show ?thesis using Some l b last_fields_twin [OF l(3) b(3)]
        by (auto simp: exec_simps hdel_def sp_hdel_def finish_removal_def sp_field_count_eq)
    qed (use Some l b d t in \<open>simp_all add: exec_simps hdel_def sp_hdel_def finish_removal_def sp_field_count_eq\<close>)
  qed (use l in \<open>simp add: exec_simps hdel_def sp_hdel_def\<close>)
qed

lemma sp_count_eq:
  assumes "scans (contents (engine p)) [b] xs"
  shows "sp_count_prefix D b p = int (length xs)"
  using scans_unique [OF assms scans_first_byte [OF spk.sp_records_lists]] by (simp add: sp_count_prefix_def)

lemma counts_answer:
  assumes "twin s p"
  shows "answer (eng_exec E OpDbsize s) (sp_exec D OpDbsize p)"
    "answer (eng_exec E OpRawcount s) (sp_exec D OpRawcount p)"
proof -
  have v: "view (engine s) = contents (engine p)" "string_hash_kv (contents (engine p))"
    using assms by (simp_all add: twins_def)
  have count: "engine_for E [b] (\<lambda>_ _ n. n + 1) a s = (Inr (a + sp_count_prefix D b p), s)" for a b
  proof -
    obtain xs where "scans (view (engine s)) [b] xs"
      "engine_for E [b] (\<lambda>_ _ n. n + 1) a s = (Inr (fold (\<lambda>(k, v) n. n + 1) xs a), s)"
      by (rule eng.engine_for_eq)
    then show ?thesis using v sp_count_eq [of p b xs] by (simp add: fold_count)
  qed
  have "scans (contents (engine p)) [ZSCORE_PREFIX] []"
    using v(2) unfolding scans_def string_hash_kv_def
    by (fastforce simp: meta_key_def subkey_def subkey_prefix_def prefix_defs)
  then have "sp_count_prefix D ZSCORE_PREFIX p = 0" using sp_count_eq by fastforce
  then show "answer (eng_exec E OpDbsize s) (sp_exec D OpDbsize p)"
    "answer (eng_exec E OpRawcount s) (sp_exec D OpRawcount p)"
    using assms by (simp_all add: exec_simps dbsize_def sp_dbsize_def raw_subkey_count_def sp_raw_subkey_count_def count)
qed

lemma same_filter:
  assumes "string_hash_kv m" "m raw = Some x"
  shows "should_keep vm raw = sp_should_keep vm raw"
proof -
  from assms consider k where "raw = meta_key k" | k v f where "valid_key k" "raw = subkey k v f"
    unfolding string_hash_kv_def by blast
  then show ?thesis
    by cases (auto simp: should_keep_subkey sp_should_keep_def codec_simps split: option.splits)
qed

lemma compact_answer:
  assumes "twin s p"
  shows "answer (eng_exec E OpCompact s) (sp_exec D OpCompact p)"
proof -
  let ?keep = "gc_should_keep (versions s)"
  let ?e' = "snd (eng_compact_range E ?keep (engine s) (Some range_default))"
  have v: "view (engine s) = contents (engine p)" "string_hash_kv (contents (engine p))" "versions s = versions p"
    "gc_on (engine s)" using assms by (simp_all add: twins_def)
  have e: "compacts ?keep range_default (contents (engine p)) (view ?e')"
    using eng.compact_view [of "engine s" ?keep "Some range_default"] v by (simp add: range_or_all_def)
  have "contents (snd (db_flush D (engine p))) = contents (engine p)"
    using spk.db_flush_contents [of "engine p"] by simp
  then have d: "compacts (\<lambda>key _. sp_should_keep (versions p) key) range_default (contents (engine p))
      (contents (engine (sp_compact D p)))"
    using spk.db_compact_filter [of "\<lambda>key _. sp_should_keep (versions p) key" None None "snd (db_flush D (engine p))"]
    by (simp add: sp_compact_def range_default_def)
  have "view ?e' = contents (engine (sp_compact D p))"
    using compacts_all_unique [OF e d] same_filter [OF v(2)] v(3) by (simp add: gc_should_keep_def)
  moreover have "string_hash_kv (view ?e')" using string_hash_kv_sub [OF v(2)] e by (simp add: compacts_def)
  moreover have "gc_on ?e'" using v(4) by (simp add: eng.compact_gc)
  ultimately have "twin (s\<lparr>engine := ?e'\<rparr>) (sp_compact D p)"
    using assms by (simp add: twins_def sp_compact_def)
  moreover have "store_compact E s = (Inr (), s\<lparr>engine := ?e'\<rparr>)"
    by (simp add: store_compact_def case_prod_beta eng.compact_total)
  ultimately show ?thesis by (simp add: exec_simps)
qed

text \<open>Opening rebuilds the same version map, although the prototype looks for hashes only.\<close>

lemma spike_rebuild_fold:
  assumes "\<And>k v. (k, v) \<in> set zs \<Longrightarrow> k \<noteq> [] \<Longrightarrow> hd k = META_PREFIX
    \<Longrightarrow> \<exists>mt. v = meta_encode mt \<and> spike_type (type_id mt)"
  shows "fold sp_rebuild_step (map Inr zs) vm
    = fold (\<lambda>(k, v). rebuild_step k v) (filter (\<lambda>(k, _). k \<noteq> [] \<and> hd k = META_PREFIX) zs) vm"
  using assms
proof (induction zs arbitrary: vm)
  case (Cons z zs)
  obtain k v where z: "z = (k, v)" by (cases z)
  have "sp_rebuild_step (Inr z) vm = (if k \<noteq> [] \<and> hd k = META_PREFIX then rebuild_step k v vm else vm)"
    using Cons.prems [of k v]
    by (auto simp: z sp_rebuild_step_def rebuild_step_def spike_type_def hd_conv_nth)
  moreover have "fold sp_rebuild_step (map Inr zs) vm'
      = fold (\<lambda>(k, v). rebuild_step k v) (filter (\<lambda>(k, _). k \<noteq> [] \<and> hd k = META_PREFIX) zs) vm'" for vm'
    by (rule Cons.IH) (use Cons.prems in auto)
  ultimately show ?case by (simp add: z)
qed simp

lemma open_twin:
  assumes "view e = contents d" "string_hash_kv (contents d)" "db_open D sp_options path = Inr d"
  obtains s p where "with_engine E e clock readings = Inr s" "sp_open D path clock readings = Inr p" "twin s p"
proof -
  let ?e = "eng_install_gc E e"
  have v: "view ?e = contents d" using assms(1) by (simp add: eng.install_view)
  obtain zs where zs: "db_iterator_start D d = map Inr zs" "lists_from (contents d) [] zs"
    using spk.db_start_ok [of d] by blast
  let ?xs = "filter (\<lambda>(k, _). k \<noteq> [] \<and> hd k = META_PREFIX) zs"
  obtain xs where "eng_scan_prefix E ?e [META_PREFIX] = map Inr xs" "scans (contents d) [META_PREFIX] xs"
    using eng.scan_eq [of ?e "[META_PREFIX]"] v by auto
  with scans_first_byte [OF zs(2), of META_PREFIX] have scan: "eng_scan_prefix E ?e [META_PREFIX] = map Inr ?xs"
    using scans_unique by blast
  have "\<exists>mt. y = meta_encode mt \<and> spike_type (type_id mt)" if "(k, y) \<in> set zs" "k \<noteq> []" "hd k = META_PREFIX" for k y
  proof -
    have "contents d k = Some y" using that zs(2) by (simp add: lists_from_def)
    moreover have "k = meta_key (tl k)" using that by (cases k) (simp_all add: meta_key_def)
    ultimately show ?thesis using string_hash_kv_meta [OF assms(2), of "tl k"] by simp
  qed
  then have "fold sp_rebuild_step (map Inr zs) vm_new = fold (\<lambda>(k, v). rebuild_step k v) ?xs vm_new"
    by (rule spike_rebuild_fold)
  then show thesis using that assms zs scan v
    by (simp add: with_engine_def rebuild_version_map_def for_items_ok vm_clear_def vm_new_def sp_open_def
        sp_rebuild_version_map_def twins_def eng.install_gc)
qed

lemma exec_answer: "twin s p \<Longrightarrow> op_valid x \<Longrightarrow> answer (eng_exec E x s) (sp_exec D x p)"
  by (cases x; simp only: op_valid.simps; rule reads_answer pttl_answer hget_answer hgetall_answer deletes_answer
      expire_answer set_answer hset_answer hdel_answer counts_answer compact_answer; assumption)

lemma run_answer:
  "twin s p \<Longrightarrow> \<forall>x \<in> set xs. op_valid x \<Longrightarrow> answer (eng_run E xs s) (sp_run D xs p)"
proof (induction xs arbitrary: s p)
  case (Cons x xs)
  from exec_answer [OF Cons.prems(1)] Cons.prems(2) have "answer (eng_exec E x s) (sp_exec D x p)" by simp
  then show ?case
  proof (elim disjE exE conjE)
    fix v s' p' assume a: "eng_exec E x s = (Inr v, s')" "sp_exec D x p = (Some v, p')" "twins view contents s' p'"
      "gc_on (engine s')"
    have "answer (eng_run E xs s') (sp_run D xs p')" using Cons a(3,4) by simp
    then show ?thesis using a by (auto simp: exec_simps split: prod.splits sum.splits)
  qed (auto simp: exec_simps split: prod.splits sum.splits)
qed (simp add: exec_simps)

end

subsection \<open>An in-memory database\<close>

definition spike_mem :: "mem spike_rocksdb" where
  "spike_mem = rocksdb.extend mem_db
     \<lparr>db_put = (\<lambda>d k v. (Inr (), AList.update k v d)),
      db_delete = (\<lambda>d k. (Inr (), AList.delete k d)),
      db_iterator_start = (\<lambda>d. map Inr (mem_list_from d []))\<rparr>"

lemma spike_mem_truncate: "rocksdb.truncate spike_mem = mem_db"
  by (simp add: spike_mem_def rocksdb.truncate_def rocksdb.extend_def)

interpretation smem: spike_rocks spike_mem map_of
proof -
  have "rocksdb_reliable (rocksdb.truncate spike_mem) map_of"
    unfolding spike_mem_truncate by (rule mem.rocksdb_reliable_axioms)
  then show "spike_rocks spike_mem map_of"
    by (rule spike_rocks.intro, unfold_locales)
      (auto simp: spike_mem_def rocksdb.extend_def AList.update_conv' AList.delete_conv' lists_from_mem)
qed

interpretation pair_mem: spike_pair "rocks mem_db" "\<lambda>e. map_of (db e)" "\<lambda>e. gc e \<noteq> None" spike_mem map_of
  by unfold_locales

subsection \<open>Properties\<close>

text \<open>C18: The prototype and the production store are interchangeable on strings and hashes.  Opened on
  databases with the same records, all of them strings and hashes, at the same clock, and given the same operations in the same order at the
  same times, they answer the same and leave the same records, as long as no operation is applied to a value of
  the wrong type (there the store reports an error and the prototype goes on).\<close>

theorem spike_matches_engine:
  assumes "reliable_engine E view gc_on" "spike_rocks D contents" "view e = contents d" "string_hash_kv (contents d)"
    and "db_open D sp_options path = Inr d" "\<forall>x \<in> set xs. op_valid x"
  shows "\<exists>s p. with_engine E e clock readings = Inr s \<and> sp_open D path clock readings = Inr p
    \<and> (fst (eng_run E xs s) = Inl WrongType
       \<or> (\<exists>vs s' p'. eng_run E xs s = (Inr vs, s') \<and> sp_run D xs p = (Some vs, p')
            \<and> view (engine s') = contents (engine p')))"
proof -
  have pr: "spike_pair E view gc_on D contents" using assms(1,2) by (rule spike_pair.intro)
  obtain s p where o: "with_engine E e clock readings = Inr s" "sp_open D path clock readings = Inr p"
    "twins view contents s p \<and> gc_on (engine s)"
    by (rule spike_pair.open_twin [OF pr assms(3-5)])
  from spike_pair.run_answer [OF pr o(3) assms(6)] o(1,2) show ?thesis by (auto simp: twins_def)
qed

theorem spike_matches_engine_witness:
  "\<exists>s p. with_engine (rocks mem_db) \<lparr>db = [], gc = None\<rparr> 0 (\<lambda>n. n) = Inr s \<and> sp_open spike_mem ''d'' 0 (\<lambda>n. n) = Inr p
    \<and> (fst (eng_run (rocks mem_db) [OpHset [107] [([97], [1])], OpHget [107] [97]] s) = Inl WrongType
       \<or> (\<exists>vs s' p'. eng_run (rocks mem_db) [OpHset [107] [([97], [1])], OpHget [107] [97]] s = (Inr vs, s')
            \<and> sp_run spike_mem [OpHset [107] [([97], [1])], OpHget [107] [97]] p = (Some vs, p')
            \<and> map_of (db (engine s')) = map_of (engine p')))"
  by (rule spike_matches_engine [OF mem.engine_contract smem.spike_rocks_axioms])
    (simp_all add: string_hash_kv_def spike_mem_def rocksdb.extend_def mem_db_def valid_key_def)

text \<open>The restriction to strings and hashes matters: of a set, sorted set or list the prototype, opened on its
  records, keeps the metadata and drops every element with the first compaction, whereas the
  production store keeps it (\<open>restart_rebuilds\<close>, \<open>compaction_transparent\<close>).\<close>

theorem spike_drops_other_types:
  assumes "spike_rocks D contents" "sp_open D path clock readings = Inr p" "valid_key k"
    and "contents (engine p) (meta_key k) = Some (meta_encode mt)" "type_id mt \<in> {TYPE_SET, TYPE_ZSET, TYPE_LIST}"
  shows "contents (engine (sp_compact D p)) (meta_key k) = Some (meta_encode mt)
    \<and> contents (engine (sp_compact D p)) (subkey k v f) = None"
proof -
  have "type_id mt \<noteq> TYPE_HASH" using assms(5) type_distinct by auto
  note u = spike_rocks.other_types_untracked [OF assms(1,2,4) this]
  show ?thesis using spike_rocks.compact_drops [OF assms(1,3) u] assms(4) by simp
qed

text \<open>The encoders, decoders and compaction filters of the two programs agree on every input, so either can
  read what the other wrote; the one difference is that the prototype's filter keeps every record of the
  sorted-set score index, a family it does not know.\<close>

theorem spike_format_matches:
  "sp_meta_key k = meta_key k \<and> sp_subkey k ver f = subkey k ver f \<and> sp_parse_subkey raw = parse_subkey raw
    \<and> sp_meta_encode m = meta_encode m \<and> sp_meta_decode raw = meta_decode raw
    \<and> sp_should_keep vm raw = (should_keep vm raw \<or> (raw \<noteq> [] \<and> hd raw = ZSCORE_PREFIX))"
proof -
  have "sp_should_keep vm raw = (should_keep vm raw \<or> (raw \<noteq> [] \<and> hd raw = ZSCORE_PREFIX))"
  proof (cases raw)
    case (Cons b rest)
    then show ?thesis
      by (auto simp: sp_should_keep_def should_keep_def parse_owner_version_def parse_subkey_def parse_versioned_def
          prefix_defs split: option.splits)
  qed (simp add: sp_should_keep_def should_keep_def parse_owner_version_def parse_subkey_def parse_versioned_def)
  then show ?thesis by simp
qed

end
