(* ===== verification/Spike_Resp.thy ===== *)
theory Spike_Resp
  imports Rust_Text Resp_Frame
begin

text \<open>
  The wire protocol of the prototype (\<open>spike/rust/src/resp.rs\<close>): replies and their serialization, and
  the request reader.  The reader is blocking: its input is everything the connection delivers until
  the client closes it.  A length that no \<open>Vec\<close> can have makes the allocation panic (\<open>SpPanics\<close>); that
  memory may run out below that bound is not modelled.
\<close>

datatype sp_reply = SpSimple bytes | SpError bytes | SpInt int | SpBulk "bytes option" | SpArray "sp_reply list"

definition sp_ok :: sp_reply where
  "sp_ok = SpSimple (lit ''OK'')"

fun sp_write_to :: "sp_reply \<Rightarrow> bytes" where
  "sp_write_to (SpSimple s) = lit ''+'' @ s @ CRLF"
| "sp_write_to (SpError s) = lit ''-'' @ s @ CRLF"
| "sp_write_to (SpInt n) = lit '':'' @ show_int n @ CRLF"
| "sp_write_to (SpBulk None) = lit ''$-1'' @ CRLF"
| "sp_write_to (SpBulk (Some b)) = lit ''$'' @ show_nat (length b) @ CRLF @ b @ CRLF"
| "sp_write_to (SpArray rs) = lit ''*'' @ show_nat (length rs) @ CRLF @ concat (map sp_write_to rs)"

subsection \<open>Reading a request\<close>

datatype sp_io_error = ExpectedBulk | InvalidInteger | UnexpectedEof

datatype 'a sp_io = SpOk 'a | SpIoErr sp_io_error | SpPanics

text \<open>\<open>read_until(b'\n')\<close>: the bytes up to and including the first line feed, or all there are.\<close>

fun sp_read_until :: "bytes \<Rightarrow> bytes \<times> bytes" where
  "sp_read_until [] = ([], [])"
| "sp_read_until (b # rest) =
     (if b = LF then ([b], rest) else (case sp_read_until rest of (raw, rest') \<Rightarrow> (b # raw, rest')))"

text \<open>The loop that pops every trailing CR and LF.\<close>

definition sp_strip :: "bytes \<Rightarrow> bytes" where
  "sp_strip raw = rev (dropWhile (\<lambda>b. b = LF \<or> b = CR) (rev raw))"

definition sp_read_line :: "bytes \<Rightarrow> nat \<times> bytes \<times> bytes" where
  "sp_read_line stream =
     (case sp_read_until stream of (raw, rest) \<Rightarrow> (length raw, sp_strip raw, rest))"

definition sp_parse_int :: "bytes \<Rightarrow> int option" where
  "sp_parse_int b = (if utf8_valid b then i64_from_str (trim b) else None)"

text \<open>The bulk strings of a request, \<open>n\<close> of them to come.\<close>

primrec sp_read_args :: "nat \<Rightarrow> bytes list \<Rightarrow> bytes \<Rightarrow> (bytes list option \<times> bytes) sp_io" where
  "sp_read_args 0 args stream = SpOk (Some args, stream)"
| "sp_read_args (Suc n) args stream =
     (case sp_read_line stream of (got, hdr, rest) \<Rightarrow>
        if got = 0 then SpOk (None, rest)
        else case hdr of
          [] \<Rightarrow> SpIoErr ExpectedBulk
        | b # len_text \<Rightarrow>
            if b \<noteq> 36 then SpIoErr ExpectedBulk
            else (case sp_parse_int len_text of
                    None \<Rightarrow> SpIoErr InvalidInteger
                  | Some len \<Rightarrow>
                      if len < 0 then sp_read_args n (args @ [[]]) rest
                      else if len + 2 \<ge> 2 ^ 63 then SpPanics
                      else if length rest < nat len + 2 then SpIoErr UnexpectedEof
                      else sp_read_args n (args @ [take (nat len) rest]) (drop (nat len + 2) rest)))"

text \<open>\<open>split(|b| *b == b' ' || *b == b'\t')\<close> without the empty pieces.\<close>

fun sp_split :: "bytes \<Rightarrow> bytes \<Rightarrow> bytes list" where
  "sp_split [] cur = (if cur = [] then [] else [cur])"
| "sp_split (b # rest) cur =
     (if b = 32 \<or> b = 9 then (if cur = [] then sp_split rest [] else cur # sp_split rest [])
      else sp_split rest (cur @ [b]))"

text \<open>A \<open>Vec<Vec<u8>>\<close> takes 24 bytes an element; a capacity of more than \<open>isize::MAX\<close> bytes panics.\<close>

definition sp_read_command :: "bytes \<Rightarrow> (bytes list option \<times> bytes) sp_io" where
  "sp_read_command stream =
     (case sp_read_line stream of (got, line, rest) \<Rightarrow>
        if got = 0 then SpOk (None, rest)
        else case line of
          [] \<Rightarrow> SpOk (Some [], rest)
        | b # count_text \<Rightarrow>
            if b = 42 then
              (case sp_parse_int count_text of
                 None \<Rightarrow> SpIoErr InvalidInteger
               | Some count \<Rightarrow>
                   if count \<le> 0 then SpOk (Some [], rest)
                   else if count * 24 \<ge> 2 ^ 63 then SpPanics
                   else sp_read_args (nat count) [] rest)
            else SpOk (Some (sp_split line []), rest))"

subsection \<open>The reader makes progress\<close>

lemma sp_read_until_length: "sp_read_until s = (raw, rest) \<Longrightarrow> length raw + length rest = length s"
  by (induction s arbitrary: raw rest) (auto split: if_splits prod.splits)

lemma sp_read_line_length: "sp_read_line s = (got, line, rest) \<Longrightarrow> got + length rest = length s"
  using sp_read_until_length by (auto simp: sp_read_line_def split: prod.splits)

lemma sp_read_args_length: "sp_read_args n args s = SpOk (r, rest) \<Longrightarrow> length rest \<le> length s"
proof (induction n arbitrary: args s)
  case (Suc n)
  obtain got hdr st where l: "sp_read_line s = (got, hdr, st)" by (metis prod_cases3)
  have st: "length st \<le> length s" using sp_read_line_length [OF l] by simp
  have "length rest \<le> length st"
    using Suc.prems l Suc.IH [of _ st] Suc.IH [of _ "drop k st" for k]
    by (fastforce split: if_splits list.splits option.splits)
  then show ?case using st by simp
qed simp

lemma sp_read_command_progress:
  "sp_read_command s = SpOk (Some args, rest) \<Longrightarrow> length rest < length s"
proof -
  assume a: "sp_read_command s = SpOk (Some args, rest)"
  obtain got line st where l: "sp_read_line s = (got, line, st)" by (metis prod_cases3)
  have "length rest \<le> length st" "0 < got"
    using a l sp_read_args_length by (auto simp: sp_read_command_def split: if_splits list.splits option.splits)
  then show ?thesis using sp_read_line_length [OF l] by simp
qed

end
