(* ===== verification/Spike_Commands.thy ===== *)
theory Spike_Commands
  imports Spike_Resp Spike_Store Node_Config
begin

text \<open>
  The commands, the connection loop and the command line of the prototype
  (\<open>spike/rust/src/commands.rs\<close>, \<open>main.rs\<close>).  Dispatch returns the reply and whether to close the
  connection, or \<open>None\<close> where a write failed and the connection's thread panics.  Sums and products of
  deadlines wrap, as they do in a release build.
\<close>

definition sp_upper :: "bytes \<Rightarrow> bytes" where
  "sp_upper b = to_ascii_uppercase (from_utf8_lossy b)"

definition sp_wrong_args :: "string \<Rightarrow> sp_reply" where
  "sp_wrong_args cmd =
     SpError (lit ''ERR wrong number of arguments for '' @ [39] @ to_ascii_lowercase (lit cmd) @ [39] @ lit '' command'')"

definition sp_parse_u64 :: "bytes \<Rightarrow> u64 option" where
  "sp_parse_u64 b = (if utf8_valid b then u64_from_str (trim b) else None)"

definition sp_syntax_error :: sp_reply where
  "sp_syntax_error = SpError (lit ''ERR syntax error'')"

definition sp_not_an_integer :: sp_reply where
  "sp_not_an_integer = SpError (lit ''ERR value is not an integer or out of range'')"

subsection \<open>SET, EXPIRE, TTL, HSET\<close>

text \<open>The option loop: each \<open>EX\<close> or \<open>PX\<close> replaces the deadline before it.\<close>

fun sp_set_options :: "bytes list \<Rightarrow> u64 \<Rightarrow> 'd store \<Rightarrow> (sp_reply + u64) \<times> 'd store" where
  "sp_set_options [] exp p = (Inr exp, p)"
| "sp_set_options (opt # rest) exp p =
     (if sp_upper opt = lit ''EX'' \<or> sp_upper opt = lit ''PX'' then
        (case rest of
           [] \<Rightarrow> (Inl sp_syntax_error, p)
         | raw # rest2 \<Rightarrow>
             (case sp_parse_u64 raw of
                None \<Rightarrow> (Inl sp_not_an_integer, p)
              | Some n \<Rightarrow>
                  (case now_ms p of (now, p') \<Rightarrow>
                     sp_set_options rest2 (now + (if sp_upper opt = lit ''EX'' then n * 1000 else n)) p')))
      else (Inl sp_syntax_error, p))"

definition sp_cmd_set :: "'d spike_rocksdb \<Rightarrow> bytes list \<Rightarrow> ('d, sp_reply) spop" where
  "sp_cmd_set D a p =
     (case a of
        key # val # opts \<Rightarrow>
          (case sp_set_options opts 0 p of
             (Inl e, p') \<Rightarrow> sp_ret e p'
           | (Inr exp, p') \<Rightarrow> sp_then (sp_set D key val exp) (\<lambda>_. sp_ret sp_ok) p')
      | _ \<Rightarrow> sp_ret (sp_wrong_args ''set'') p)"

definition sp_cmd_expire :: "'d spike_rocksdb \<Rightarrow> bytes list \<Rightarrow> u64 \<Rightarrow> ('d, sp_reply) spop" where
  "sp_cmd_expire D a unit_ms p =
     (case a of
        [key, raw] \<Rightarrow>
          (case sp_parse_u64 raw of
             Some n \<Rightarrow>
               (case now_ms p of (now, p') \<Rightarrow>
                  sp_then (sp_expire_ms D key (now + n * unit_ms)) (\<lambda>r. sp_ret (SpInt r)) p')
           | None \<Rightarrow> sp_ret sp_not_an_integer p)
      | _ \<Rightarrow> sp_ret (sp_wrong_args ''expire'') p)"

definition sp_cmd_ttl :: "'d spike_rocksdb \<Rightarrow> bytes list \<Rightarrow> bool \<Rightarrow> ('d, sp_reply) spop" where
  "sp_cmd_ttl D a seconds p =
     (case a of
        [key] \<Rightarrow>
          (case sp_pttl D key p of (ms, p') \<Rightarrow>
             sp_ret (SpInt (if ms < 0 then ms
                            else if seconds then div_trunc (wrap_i64 (ms + 999)) 1000 else ms)) p')
      | _ \<Rightarrow> sp_ret (sp_wrong_args ''ttl'') p)"

fun sp_pairs :: "bytes list \<Rightarrow> (bytes \<times> bytes) list" where
  "sp_pairs (f # v # rest) = (f, v) # sp_pairs rest"
| "sp_pairs _ = []"

definition sp_cmd_hset :: "'d spike_rocksdb \<Rightarrow> bytes list \<Rightarrow> bytes \<Rightarrow> ('d, sp_reply) spop" where
  "sp_cmd_hset D a cmd p =
     (if length a < 3 \<or> (length a - 1) mod 2 \<noteq> 0 then sp_ret (sp_wrong_args ''hset'') p
      else sp_then (sp_hset D (hd a) (sp_pairs (tl a)))
             (\<lambda>created. sp_ret (if cmd = lit ''HMSET'' then sp_ok else SpInt created)) p)"

subsection \<open>Dispatch\<close>

text \<open>\<open>a.iter().filter(|k| op(k)).count()\<close>.\<close>

primrec sp_count_keys :: "(bytes \<Rightarrow> 'd store \<Rightarrow> bool \<times> 'd store) \<Rightarrow> bytes list \<Rightarrow> 'd store \<Rightarrow> int \<times> 'd store" where
  "sp_count_keys f [] p = (0, p)"
| "sp_count_keys f (k # ks) p =
     (case f k p of (b, p') \<Rightarrow>
        (case sp_count_keys f ks p' of (n, p'') \<Rightarrow> ((if b then 1 else 0) + n, p'')))"

primrec sp_hget_all :: "'d spike_rocksdb \<Rightarrow> bytes \<Rightarrow> bytes list \<Rightarrow> 'd store \<Rightarrow> sp_reply list \<times> 'd store" where
  "sp_hget_all D key [] p = ([], p)"
| "sp_hget_all D key (f # fs) p =
     (case sp_hget D key f p of (r, p') \<Rightarrow>
        (case sp_hget_all D key fs p' of (rs, p'') \<Rightarrow> (SpBulk r # rs, p'')))"

definition sp_plain :: "('d store \<Rightarrow> 'a \<times> 'd store) \<Rightarrow> ('a \<Rightarrow> sp_reply) \<Rightarrow> ('d, sp_reply) spop" where
  "sp_plain f render p = (case f p of (x, p') \<Rightarrow> sp_ret (render x) p')"

text \<open>The commands that leave the connection open, by the upper-case name.\<close>

definition sp_command :: "'d spike_rocksdb \<Rightarrow> bytes \<Rightarrow> bytes list \<Rightarrow> ('d, sp_reply) spop" where
  "sp_command D cmd a =
     (if cmd = lit ''PING'' then
        (case a of [] \<Rightarrow> sp_ret (SpSimple (lit ''PONG'')) | m # _ \<Rightarrow> sp_ret (SpBulk (Some m)))
      else if cmd = lit ''ECHO'' then
        (case a of [m] \<Rightarrow> sp_ret (SpBulk (Some m)) | _ \<Rightarrow> sp_ret (sp_wrong_args ''echo''))
      else if cmd = lit ''CLIENT'' \<or> cmd = lit ''SELECT'' \<or> cmd = lit ''HELLO'' then sp_ret sp_ok
      else if cmd = lit ''COMMAND'' then sp_ret (SpArray [])
      else if cmd = lit ''SET'' then sp_cmd_set D a
      else if cmd = lit ''GET'' then
        (case a of [k] \<Rightarrow> sp_plain (sp_get D k) SpBulk | _ \<Rightarrow> sp_ret (sp_wrong_args ''get''))
      else if cmd = lit ''DEL'' then
        (if a = [] then sp_ret (sp_wrong_args ''del'') else sp_plain (sp_count_keys (sp_del D) a) SpInt)
      else if cmd = lit ''EXISTS'' then
        (if a = [] then sp_ret (sp_wrong_args ''exists'') else sp_plain (sp_count_keys (sp_exists D) a) SpInt)
      else if cmd = lit ''TYPE'' then
        (case a of [k] \<Rightarrow> sp_plain (sp_type_of D k) (\<lambda>t. SpSimple (lit t)) | _ \<Rightarrow> sp_ret (sp_wrong_args ''type''))
      else if cmd = lit ''EXPIRE'' then sp_cmd_expire D a 1000
      else if cmd = lit ''PEXPIRE'' then sp_cmd_expire D a 1
      else if cmd = lit ''TTL'' then sp_cmd_ttl D a True
      else if cmd = lit ''PTTL'' then sp_cmd_ttl D a False
      else if cmd = lit ''HSET'' \<or> cmd = lit ''HMSET'' then sp_cmd_hset D a cmd
      else if cmd = lit ''HGET'' then
        (case a of [k, f] \<Rightarrow> sp_plain (sp_hget D k f) SpBulk | _ \<Rightarrow> sp_ret (sp_wrong_args ''hget''))
      else if cmd = lit ''HMGET'' then
        (case a of k # f # fs \<Rightarrow> sp_plain (sp_hget_all D k (f # fs)) SpArray | _ \<Rightarrow> sp_ret (sp_wrong_args ''hmget''))
      else if cmd = lit ''HGETALL'' then
        (case a of
           [k] \<Rightarrow> sp_plain (sp_hgetall D k)
                    (\<lambda>xs. SpArray (concat (map (\<lambda>(f, v). [SpBulk (Some f), SpBulk (Some v)]) xs)))
         | _ \<Rightarrow> sp_ret (sp_wrong_args ''hgetall''))
      else if cmd = lit ''HDEL'' then
        (case a of k # f # fs \<Rightarrow> sp_then (sp_hdel D k (f # fs)) (\<lambda>n. sp_ret (SpInt n)) | _ \<Rightarrow> sp_ret (sp_wrong_args ''hdel''))
      else if cmd = lit ''HLEN'' then
        (case a of [k] \<Rightarrow> sp_plain (sp_hlen D k) SpInt | _ \<Rightarrow> sp_ret (sp_wrong_args ''hlen''))
      else if cmd = lit ''HEXISTS'' then
        (case a of
           [k, f] \<Rightarrow> sp_plain (sp_hexists D k f) (\<lambda>b. SpInt (if b then 1 else 0))
         | _ \<Rightarrow> sp_ret (sp_wrong_args ''hexists''))
      else if cmd = lit ''FLUSHDB'' \<or> cmd = lit ''FLUSHALL'' then sp_then (sp_flushdb D) (\<lambda>_. sp_ret sp_ok)
      else if cmd = lit ''DBSIZE'' then (\<lambda>p. sp_ret (SpInt (sp_dbsize D p)) p)
      else if cmd = lit ''COMPACT'' then (\<lambda>p. sp_ret sp_ok (sp_compact D p))
      else if cmd = lit ''RAWCOUNT'' then (\<lambda>p. sp_ret (SpInt (sp_raw_subkey_count D p)) p)
      else sp_ret (SpError (lit ''ERR unknown command '' @ [39] @ to_ascii_lowercase cmd @ [39])))"

definition sp_dispatch :: "'d spike_rocksdb \<Rightarrow> bytes list \<Rightarrow> ('d, sp_reply \<times> bool) spop" where
  "sp_dispatch D args =
     (case args of
        [] \<Rightarrow> sp_ret (SpError (lit ''ERR empty command''), False)
      | nm # a \<Rightarrow>
          if sp_upper nm = lit ''QUIT'' then sp_ret (sp_ok, True)
          else sp_then (sp_command D (sp_upper nm) a) (\<lambda>r. sp_ret (r, False)))"

subsection \<open>A connection\<close>

datatype sp_end = EndEof | EndQuit | EndError sp_io_error | EndPanic

text \<open>\<open>handle_conn\<close>: what it writes, how it ends, and the store it leaves.\<close>

function sp_handle_conn :: "'d spike_rocksdb \<Rightarrow> bytes \<Rightarrow> 'd store \<Rightarrow> bytes \<times> sp_end \<times> 'd store" where
  "sp_handle_conn D stream p =
     (case sp_read_command stream of
        SpPanics \<Rightarrow> ([], EndPanic, p)
      | SpIoErr e \<Rightarrow> ([], EndError e, p)
      | SpOk (None, _) \<Rightarrow> ([], EndEof, p)
      | SpOk (Some args, rest) \<Rightarrow>
          if args = [] then sp_handle_conn D rest p
          else (case sp_dispatch D args p of
                  (None, p') \<Rightarrow> ([], EndPanic, p')
                | (Some (reply, close), p') \<Rightarrow>
                    if close then (sp_write_to reply, EndQuit, p')
                    else (case sp_handle_conn D rest p' of (out, fin, p'') \<Rightarrow> (sp_write_to reply @ out, fin, p''))))"
  by pat_completeness auto
termination
  by (relation "measure (\<lambda>(D, stream, p). length stream)") (auto dest: sp_read_command_progress)

declare sp_handle_conn.simps [simp del]

subsection \<open>The command line\<close>

text \<open>The argument loop of \<open>main\<close> after the program name; an invalid port panics.\<close>

fun sp_main_args :: "bytes list \<Rightarrow> u16 \<Rightarrow> bytes \<Rightarrow> (u16 \<times> bytes) option" where
  "sp_main_args [] port db_path = Some (port, db_path)"
| "sp_main_args [_] port db_path = Some (port, db_path)"
| "sp_main_args (flag # v # rest) port db_path =
     (if flag = lit ''--port'' then
        (case u16_from_str v of None \<Rightarrow> None | Some n \<Rightarrow> sp_main_args rest n db_path)
      else if flag = lit ''--db'' then sp_main_args rest port v
      else sp_main_args (v # rest) port db_path)"

definition sp_main_config :: "bytes list \<Rightarrow> (u16 \<times> bytes) option" where
  "sp_main_config argv = sp_main_args (drop 1 argv) 6380 (lit ''/tmp/gamestore-spike-rust'')"

end
