(* ===== verification/Spike_Correct.thy ===== *)
theory Spike_Correct
  imports Spike_Equiv Spike_Commands Commands_Correct
begin

text \<open>
  The prototype as a server: its replies are RESP2 frames, it reads requests back exactly, it answers a
  pipeline completely, and command by command its replies are those of the production registry.  The
  places where it falls short of the production server (deadlines that wrap, lengths that panic) are
  stated as properties too.
\<close>

subsection \<open>Replies\<close>

fun sp_frame :: "sp_reply \<Rightarrow> frame" where
  "sp_frame (SpSimple s) = Simple s"
| "sp_frame (SpError s) = Error s"
| "sp_frame (SpInt n) = Integer n"
| "sp_frame (SpBulk None) = Null"
| "sp_frame (SpBulk (Some b)) = Bulk b"
| "sp_frame (SpArray rs) = Array (map sp_frame rs)"

lemma sp_write_to_encode: "sp_write_to r = encode T V2 (sp_frame r)"
proof (induction r rule: sp_write_to.induct)
  case (6 rs)
  then have "concat (map sp_write_to rs) = concat (map (encode T V2 \<circ> sp_frame) rs)"
    by (intro arg_cong [where f = concat]) simp
  then show ?case by (simp add: put_int_def show_int_def)
qed (simp_all add: put_int_def show_int_def)

subsection \<open>Requests\<close>

definition sp_request_fits :: "bytes list \<Rightarrow> bool" where
  "sp_request_fits args \<longleftrightarrow> args \<noteq> [] \<and> 24 * length args < 2 ^ 63 \<and> (\<forall>a \<in> set args. length a + 2 < 2 ^ 63)"

lemma sp_read_until_line: "LF \<notin> set a \<Longrightarrow> sp_read_until (a @ LF # rest) = (a @ [LF], rest)"
  by (induction a) auto

lemma sp_strip_line:
  assumes "LF \<notin> set a" "CR \<notin> set a"
  shows "sp_strip (a @ CRLF) = a"
proof -
  have "dropWhile (\<lambda>b. b = LF \<or> b = CR) (rev a) = rev a"
    using assms by (cases "a = []") (force simp: dropWhile_eq_self_iff hd_rev dest: last_in_set)+
  then show ?thesis by (simp add: sp_strip_def CRLF_def)
qed

lemma sp_read_line_header:
  assumes "LF \<notin> set a" "CR \<notin> set a"
  shows "sp_read_line (a @ CRLF @ rest) = (length a + 2, a, rest)"
  using sp_read_until_line [of "a @ [CR]" rest] sp_strip_line [OF assms] assms
  by (simp add: sp_read_line_def CRLF_def CR_def LF_def)

lemma digit_not_space:
  "digit b \<Longrightarrow> \<not> (9 \<le> b \<and> b \<le> 13) \<and> b \<noteq> 32 \<and> b \<noteq> 0xC2 \<and> b \<noteq> 0xE1 \<and> b \<noteq> 0xE2 \<and> b \<noteq> 0xE3"
  by (auto simp: digit_def word_le_nat_alt)

lemma ws_len_digits: "\<forall>b \<in> set s. digit b \<Longrightarrow> ws_len s = 0"
  by (cases s) (use digit_not_space in \<open>auto simp del: not_less\<close>)

lemma trim_digits:
  assumes "\<forall>b \<in> set s. digit b"
  shows "trim s = s"
proof -
  have "ws_len (drop n s) = 0" for n using assms by (intro ws_len_digits) (meson in_set_dropD)
  then have "ws_len s = 0" "ws_suffix s = 0" using ws_len_digits [OF assms] by (simp_all add: ws_suffix_def)
  then show ?thesis by (simp add: trim_def trim_start.simps trim_end.simps)
qed

lemma sp_parse_count: "n < 2 ^ 63 \<Longrightarrow> sp_parse_int (show_int (int n)) = Some (int n)"
  using i64_from_str_show_int [of "int n"] trim_digits [OF show_nat_digits, of n] show_int_utf8 [of "int n"]
  by (simp add: sp_parse_int_def in_i64_def show_int_def)

lemma header_read:
  assumes "b \<noteq> CR" "b \<noteq> LF"
  shows "sp_read_line (b # show_int n @ CRLF @ rest) = (length (show_int n) + 3, b # show_int n, rest)"
proof -
  have "LF \<notin> set (b # show_int n)" "CR \<notin> set (b # show_int n)" using assms show_int_ascii by auto
  from sp_read_line_header [OF this, of rest] show ?thesis by simp
qed

lemma sp_read_args_bulks:
  "\<forall>a \<in> set args. length a + 2 < 2 ^ 63 \<Longrightarrow>
    sp_read_args (length args) acc (concat (map (encode T V2) (map Bulk args)) @ rest) = SpOk (Some (acc @ args), rest)"
proof (induction args arbitrary: acc)
  case (Cons a args)
  let ?more = "concat (map (encode T V2) (map Bulk args)) @ rest"
  have "sp_read_line (36 # show_int (int (length a)) @ CRLF @ a @ CRLF @ ?more)
      = (length (show_int (int (length a))) + 3, 36 # show_int (int (length a)), a @ CRLF @ ?more)"
    by (rule header_read) (simp_all add: CR_def LF_def)
  moreover have "sp_parse_int (show_int (int (length a))) = Some (int (length a))"
    using Cons.prems by (intro sp_parse_count) simp
  ultimately show ?case using Cons by (simp add: put_int_def lit_def CRLF_def)
qed simp

lemma sp_read_request:
  assumes "sp_request_fits args"
  shows "sp_read_command (encode T V2 (Array (map Bulk args)) @ rest) = SpOk (Some args, rest)"
proof -
  let ?n = "int (length args)" and ?more = "concat (map (encode T V2) (map Bulk args)) @ rest"
  have "sp_read_line (42 # show_int ?n @ CRLF @ ?more) = (length (show_int ?n) + 3, 42 # show_int ?n, ?more)"
    by (rule header_read) (simp_all add: CR_def LF_def)
  moreover have "sp_parse_int (show_int ?n) = Some ?n"
    using assms by (intro sp_parse_count) (simp add: sp_request_fits_def)
  moreover have "sp_read_args (length args) [] ?more = SpOk (Some args, rest)"
    using sp_read_args_bulks [of args "[]" T rest] assms by (simp add: sp_request_fits_def)
  ultimately show ?thesis
    using assms by (simp add: sp_read_command_def put_int_def lit_def sp_request_fits_def)
qed

subsection \<open>Serving\<close>

primrec sp_serve :: "'d spike_rocksdb \<Rightarrow> bytes list list \<Rightarrow> 'd store \<Rightarrow> sp_reply list \<times> 'd store" where
  "sp_serve D [] p = ([], p)"
| "sp_serve D (r # rs) p =
     (case sp_dispatch D r p of
        (None, p') \<Rightarrow> ([], p')
      | (Some (out, _), p') \<Rightarrow> (case sp_serve D rs p' of (outs, p'') \<Rightarrow> (out # outs, p'')))"

definition no_panic :: "('d, 'a) spop \<Rightarrow> 'd store \<Rightarrow> bool" where
  "no_panic f p \<longleftrightarrow> fst (f p) \<noteq> None"

named_theorems no_panics

lemma no_panic_rules [no_panics]:
  "no_panic (sp_ret x) p" "no_panic (\<lambda>q. sp_ret (v q) (w q)) p" "no_panic (sp_plain h render) p"
  "no_panic m p \<Longrightarrow> (\<And>y p'. no_panic (n y) p') \<Longrightarrow> no_panic (sp_then m n) p"
  "no_panic f p \<Longrightarrow> no_panic g p \<Longrightarrow> no_panic (if b then f else g) p"
  "no_panic f p \<Longrightarrow> (\<And>x xs. no_panic (k x xs) p) \<Longrightarrow> no_panic (case a of [] \<Rightarrow> f | x # xs \<Rightarrow> k x xs) p"
  by (auto simp: no_panic_def sp_ret_def sp_plain_def sp_then_def split: prod.splits option.splits list.splits)

lemma no_panicI: "no_panic g p' \<Longrightarrow> f p = g p' \<Longrightarrow> no_panic f p"
  by (simp add: no_panic_def)

context spike_rocks
begin

lemma db_writes_no_panic [no_panics]: "no_panic (sp_write D es) p" "no_panic (sp_put_meta D k m) p"
  using db_write_total [of "engine p" es] db_put_ok [of "engine p" "meta_key k" "meta_encode m"]
  by (auto simp: no_panic_def sp_write_def sp_put_meta_def sp_expect_def)

lemma set_no_panic [no_panics]: "no_panic (sp_set D k x e) p"
  by (rule no_panicI [OF db_writes_no_panic(2)]) (simp add: sp_set_def Let_def case_prod_beta)

lemma expire_no_panic [no_panics]: "no_panic (sp_expire_ms D k e) p"
proof -
  have "no_panic (sp_then (sp_put_meta D k m) (\<lambda>_. sp_ret (1 :: int))) q" for m q by (intro no_panics)
  then show ?thesis
    by (auto simp: no_panic_def sp_expire_ms_def sp_ret_def split: prod.splits option.splits)
qed

lemma hset_no_panic [no_panics]: "no_panic (sp_hset D k ps) p"
  by (rule no_panicI [OF no_panics(4) [OF db_writes_no_panic(1) no_panics(1)]])
    (simp add: sp_hset_def case_prod_beta)

lemma hdel_no_panic [no_panics]: "no_panic (sp_hdel D k fs) p"
proof -
  have "no_panic (sp_then (sp_write D b) (\<lambda>_. sp_ret n)) q" for b and n :: int and q by (intro no_panics)
  then show ?thesis
    by (auto simp: no_panic_def sp_hdel_def sp_ret_def split: prod.splits option.splits)
qed

lemma flushdb_no_panic [no_panics]: "no_panic (sp_flushdb D) p"
  using flush_effect [of p] by (auto simp: no_panic_def)

lemma commands_no_panic [no_panics]:
  "no_panic (sp_cmd_set D a) p" "no_panic (sp_cmd_expire D a u) p" "no_panic (sp_cmd_ttl D a b) p"
  "no_panic (sp_cmd_hset D a cmd) p"
proof -
  have s: "no_panic (sp_then (sp_set D k x e) (\<lambda>_. sp_ret sp_ok)) q" for k x e q by (intro no_panics)
  then show "no_panic (sp_cmd_set D a) p"
    by (auto simp: no_panic_def sp_cmd_set_def sp_ret_def split: list.splits prod.splits sum.splits)
  have e: "no_panic (sp_then (sp_expire_ms D k x) (\<lambda>r. sp_ret (SpInt r))) q" for k x q by (intro no_panics)
  then show "no_panic (sp_cmd_expire D a u) p"
    by (auto simp: no_panic_def sp_cmd_expire_def sp_ret_def split: list.splits prod.splits option.splits)
  show "no_panic (sp_cmd_ttl D a b) p"
    by (auto simp: no_panic_def sp_cmd_ttl_def sp_ret_def split: list.splits prod.splits)
  have "no_panic (sp_then (sp_hset D k x) (\<lambda>r. sp_ret (f r))) q" for k x q and f :: "int \<Rightarrow> sp_reply"
    by (intro no_panics)
  then show "no_panic (sp_cmd_hset D a cmd) p"
    by (simp add: no_panic_def sp_cmd_hset_def sp_ret_def)
qed

lemma command_no_panic [no_panics]: "no_panic (sp_command D cmd a) p"
  unfolding sp_command_def by (intro no_panics)

lemma dispatch_total:
  assumes "args \<noteq> []" "sp_upper (hd args) \<noteq> lit ''QUIT''"
  obtains r p' where "sp_dispatch D args p = (Some (r, False), p')"
proof -
  obtain r p' where "sp_command D (sp_upper (hd args)) (tl args) p = (Some r, p')"
    using command_no_panic [of "sp_upper (hd args)" "tl args" p] by (auto simp: no_panic_def) (metis prod.collapse)
  then show thesis using that assms by (cases args) (simp_all add: sp_dispatch_def sp_then_def sp_ret_def)
qed

lemma serves_pipeline:
  assumes "\<forall>r \<in> set reqs. sp_request_fits r \<and> sp_upper (hd r) \<noteq> lit ''QUIT''"
  shows "sp_handle_conn D (concat (map (\<lambda>r. encode T V2 (Array (map Bulk r))) reqs)) p
      = (concat (map sp_write_to (fst (sp_serve D reqs p))), EndEof, snd (sp_serve D reqs p))
    \<and> length (fst (sp_serve D reqs p)) = length reqs"
  using assms
proof (induction reqs arbitrary: p)
  case Nil
  then show ?case by (subst sp_handle_conn.simps) (simp add: sp_read_command_def sp_read_line_def)
next
  case (Cons r reqs)
  let ?more = "concat (map (\<lambda>r. encode T V2 (Array (map Bulk r))) reqs)"
  have r: "sp_read_command (encode T V2 (Array (map Bulk r)) @ ?more) = SpOk (Some r, ?more)" "r \<noteq> []"
    using Cons.prems sp_read_request [of r T ?more] by (simp_all add: sp_request_fits_def del: encode.simps)
  obtain out p' where d: "sp_dispatch D r p = (Some (out, False), p')"
    by (rule dispatch_total [of r p]) (use r(2) Cons.prems in auto)
  show ?case
    by (subst sp_handle_conn.simps)
      (use r d Cons.IH [of p'] Cons.prems in \<open>auto simp del: encode.simps split: prod.splits\<close>)
qed

end

subsection \<open>The same commands\<close>

definition shared_commands :: "string list" where
  "shared_commands =
     [''PING'', ''ECHO'', ''SET'', ''GET'', ''DEL'', ''EXISTS'', ''TYPE'', ''TTL'', ''PTTL'', ''HSET'', ''HMSET'', ''HGET'',
      ''HMGET'', ''HGETALL'', ''HDEL'', ''HLEN'', ''HEXISTS'', ''DBSIZE'', ''RAWCOUNT'', ''COMPACT'']"

definition shared_args :: "string \<Rightarrow> bytes list \<Rightarrow> bool" where
  "shared_args c a \<longleftrightarrow>
     (c = ''SET'' \<longrightarrow> length a \<le> 2) \<and> (c = ''HSET'' \<or> c = ''HMSET'' \<longrightarrow> a \<noteq> [] \<longrightarrow> valid_key (hd a))"

lemma upper_names: "sp_upper (lit c) = lit c" if "\<forall>x \<in> set c. (of_char x :: byte) < 0x80 \<and> ascii_upper (of_char x) = of_char x"
  using that by (auto simp: sp_upper_def to_ascii_uppercase_def lit_def from_utf8_lossy_ascii intro!: map_idI)

context spike_pair
begin

abbreviation reply_match :: "float_text \<Rightarrow> bytes list \<Rightarrow> 'e store \<Rightarrow> 'd store \<Rightarrow> bool" where
  "reply_match T args s p \<equiv>
     \<exists>fr s' r p'. registry_dispatch (registry_standard E T) V2 args s = Some (fr, s')
       \<and> sp_dispatch D args p = (Some (r, False), p') \<and> ((\<exists>t. fr = Error t) \<or> fr = sp_frame r \<and> twin s' p')"

lemma total_answer:
  assumes "answer (try_then f (\<lambda>x. ok (g x)) s) (sp_total h g p)" "\<And>x y. g x = g y \<Longrightarrow> x = y"
  obtains t s' where "store_reply f render s = (Error t, s')"
  | x s' p' where "f s = (Inr x, s')" "h p = (x, p')" "twin s' p'"
  using assms that
  by (auto simp: try_then_def ok_def sp_total_def store_reply_def engine_error_frame_def split: prod.splits sum.splits)

lemma panic_answer:
  assumes "answer (try_then f (\<lambda>x. ok (g x)) s) (sp_then h (\<lambda>x. sp_ret (g x)) p)" "\<And>x y. g x = g y \<Longrightarrow> x = y"
  obtains t s' where "store_reply f render s = (Error t, s')"
  | x s' p' where "f s = (Inr x, s')" "h p = (Some x, p')" "twin s' p'"
  using assms that
  by (auto simp: try_then_def ok_def sp_then_def sp_ret_def store_reply_def engine_error_frame_def
      split: prod.splits sum.splits option.splits)

lemma error_match:
  assumes "registry_dispatch (registry_standard E T) V2 args s = Some (Error t, s')" "args \<noteq> []"
    "sp_upper (hd args) \<noteq> lit ''QUIT''"
  shows "reply_match T args s p"
  using spk.dispatch_total [OF assms(2,3), of p] assms(1) by metis

lemma match_plain:
  assumes "registry_dispatch (registry_standard E T) V2 args s = Some (store_reply f render s)"
    "sp_dispatch D args p = sp_then (sp_plain h render') (\<lambda>r. sp_ret (r, False)) p"
    "answer (try_then f (\<lambda>x. ok (g x)) s) (sp_total h g p)" "\<And>x y. g x = g y \<Longrightarrow> x = y"
    "\<And>x. render x = sp_frame (render' x)"
  shows "reply_match T args s p"
proof (rule total_answer [OF assms(3,4), of render])
  fix t s' assume "store_reply f render s = (Error t, s')"
  then show ?thesis using assms(1,2) by (auto simp: sp_then_def sp_plain_def sp_ret_def split: prod.splits)
next
  fix x s' p' assume "f s = (Inr x, s')" "h p = (x, p')" "twin s' p'"
  then show ?thesis using assms(1,2,5) by (simp add: store_reply_def sp_then_def sp_plain_def sp_ret_def)
qed

lemma match_panic:
  assumes "registry_dispatch (registry_standard E T) V2 args s = Some (store_reply f render s)"
    "sp_dispatch D args p = sp_then (sp_then h (\<lambda>x. sp_ret (render' x))) (\<lambda>r. sp_ret (r, False)) p"
    "answer (try_then f (\<lambda>x. ok (g x)) s) (sp_then h (\<lambda>x. sp_ret (g x)) p)" "\<And>x y. g x = g y \<Longrightarrow> x = y"
    "\<And>x. render x = sp_frame (render' x)" "args \<noteq> []" "sp_upper (hd args) \<noteq> lit ''QUIT''"
  shows "reply_match T args s p"
proof (rule panic_answer [OF assms(3,4), of render])
  fix t s' assume "store_reply f render s = (Error t, s')"
  then show ?thesis using error_match [OF _ assms(6,7)] assms(1) by simp
next
  fix x s' p' assume "f s = (Inr x, s')" "h p = (Some x, p')" "twin s' p'"
  then show ?thesis using assms(1,2,5) by (simp add: store_reply_def sp_then_def sp_plain_def sp_ret_def)
qed

lemma arity_match:
  assumes "sp_upper (lit c) = lit c" "c \<noteq> ''QUIT''" "registry_standard E T (lit c) = Some spec"
    "arity_matches (arity spec) (Suc (length a)) \<Longrightarrow> reply_match T (lit c # a) s p"
  shows "reply_match T (lit c # a) s p"
proof (cases "arity_matches (arity spec) (Suc (length a))")
  case False
  then have "registry_dispatch (registry_standard E T) V2 (lit c # a) s = Some (wrong_args (name_lower spec), s)"
    using assms(1,3) by (simp add: registry_dispatch_def sp_upper_def)
  then show ?thesis using error_match assms(1,2) unfolding wrong_args_def by simp
qed (rule assms(4))

lemmas upper_simps = upper_names ascii_upper_def

lemmas dispatch_simps = registry_dispatch_def sp_dispatch_def sp_upper_def [symmetric] sp_command_def handler_simps standard_defs

lemma fixed_match:
  assumes "sp_upper (lit c) = lit c" "c \<noteq> ''QUIT''" "registry_standard E T (lit c) = Some spec"
  shows "arity spec = 1 \<Longrightarrow> reply_match T [lit c] s p \<Longrightarrow> reply_match T (lit c # a) s p"
    "arity spec = 2 \<Longrightarrow> (\<And>k. reply_match T [lit c, k] s p) \<Longrightarrow> reply_match T (lit c # a) s p"
    "arity spec = 3 \<Longrightarrow> (\<And>k f. reply_match T [lit c, k, f] s p) \<Longrightarrow> reply_match T (lit c # a) s p"
  by (rule arity_match [OF assms(1-3)]; auto simp: arity_matches_def length_Suc_conv numeral_3_eq_3)+

lemma key_reads_match:
  assumes "twin s p"
  shows "reply_match T [lit ''GET'', k] s p" "reply_match T [lit ''TYPE'', k] s p"
    "reply_match T [lit ''HLEN'', k] s p" "reply_match T [lit ''HGETALL'', k] s p"
    "reply_match T [lit ''TTL'', k] s p" "reply_match T [lit ''PTTL'', k] s p"
proof -
  show "reply_match T [lit ''GET'', k] s p"
    by (rule match_plain [of _ _ _ "store_get E k" bulk_or_null _ "sp_get D k" SpBulk ValBulk])
      (use reads_answer(1) [OF assms, of k] in
        \<open>auto simp: dispatch_simps upper_simps cmd_get_def bulk_or_null_def split: option.splits\<close>)
  show "reply_match T [lit ''TYPE'', k] s p"
    by (rule match_plain [of _ _ _ "type_of E k" "\<lambda>t. Simple (lit t)" _ "sp_type_of D k" "\<lambda>t. SpSimple (lit t)" ValText])
      (use reads_answer(3) [OF assms, of k] in \<open>auto simp: dispatch_simps upper_simps cmd_type_def\<close>)
  show "reply_match T [lit ''HLEN'', k] s p"
    by (rule match_plain [of _ _ _ "hlen E k" Integer _ "sp_hlen D k" SpInt ValInt])
      (use reads_answer(4) [OF assms, of k] in \<open>auto simp: dispatch_simps upper_simps cmd_hlen_def\<close>)
  show "reply_match T [lit ''HGETALL'', k] s p"
    by (rule match_plain [of _ _ _ "hgetall E k" "hgetall_frame V2" _ "sp_hgetall D k"
          "\<lambda>xs. SpArray (concat (map (\<lambda>(f, v). [SpBulk (Some f), SpBulk (Some v)]) xs))" ValPairs])
      (use hgetall_answer [OF assms, of k] in
        \<open>auto simp: dispatch_simps upper_simps cmd_hgetall_def hgetall_frame_def map_concat comp_def case_prod_unfold\<close>)
  show "reply_match T [lit ''TTL'', k] s p"
    by (rule match_plain [of _ _ _ "pttl E k" "\<lambda>ms. Integer (ttl_seconds ms)" _ "sp_pttl D k"
          "\<lambda>ms. SpInt (if ms < 0 then ms else div_trunc (wrap_i64 (ms + 999)) 1000)" ValInt])
      (use pttl_answer [OF assms, of k] in
        \<open>auto simp: dispatch_simps upper_simps cmd_ttl_def ttl_seconds_def sp_cmd_ttl_def sp_plain_def sp_then_def
          split: prod.splits\<close>)
  show "reply_match T [lit ''PTTL'', k] s p"
    by (rule match_plain [of _ _ _ "pttl E k" Integer _ "sp_pttl D k" SpInt ValInt])
      (use pttl_answer [OF assms, of k] in
        \<open>auto simp: dispatch_simps upper_simps cmd_pttl_def sp_cmd_ttl_def sp_plain_def sp_then_def
          split: prod.splits\<close>)
qed

lemma field_reads_match:
  assumes "twin s p"
  shows "reply_match T [lit ''HGET'', k, f] s p" "reply_match T [lit ''HEXISTS'', k, f] s p"
proof -
  show "reply_match T [lit ''HGET'', k, f] s p"
    by (rule match_plain [of _ _ _ "hget E k f" bulk_or_null _ "sp_hget D k f" SpBulk ValBulk])
      (use hget_answer(1) [OF assms, of k f] in
        \<open>auto simp: dispatch_simps upper_simps cmd_hget_def bulk_or_null_def split: option.splits\<close>)
  show "reply_match T [lit ''HEXISTS'', k, f] s p"
    by (rule match_plain [of _ _ _ "hexists E k f" bool_frame _ "sp_hexists D k f" "\<lambda>b. SpInt (if b then 1 else 0)" ValBool])
      (use hget_answer(2) [OF assms, of k f] in
        \<open>auto simp: dispatch_simps upper_simps cmd_hexists_def bool_frame_def\<close>)
qed

lemma writes_match:
  assumes "twin s p"
  shows "reply_match T [lit ''SET'', k, x] s p"
    "fs \<noteq> [] \<Longrightarrow> reply_match T (lit ''HDEL'' # k # fs) s p"
    "valid_key k \<Longrightarrow> fvs \<noteq> [] \<Longrightarrow> even (length fvs) \<Longrightarrow> reply_match T (lit ''HSET'' # k # fvs) s p"
    "valid_key k \<Longrightarrow> fvs \<noteq> [] \<Longrightarrow> even (length fvs) \<Longrightarrow> reply_match T (lit ''HMSET'' # k # fvs) s p"
proof -
  show "reply_match T [lit ''SET'', k, x] s p"
    by (rule match_panic [of _ _ _ "store_set E k x 0" "\<lambda>_. frame_ok" _ "sp_set D k x 0" "\<lambda>_. sp_ok" "\<lambda>_. ValUnit"])
      (use set_answer [OF assms, of k x 0] in
        \<open>auto simp: dispatch_simps upper_simps cmd_set_def sp_cmd_set_def frame_ok_def sp_ok_def sp_then_def\<close>)
  show "reply_match T (lit ''HDEL'' # k # fs) s p" if "fs \<noteq> []"
    by (rule match_panic [of _ _ _ "hdel E k fs" Integer _ "sp_hdel D k fs" SpInt ValInt])
      (use hdel_answer [OF assms, of k fs] that in
        \<open>auto simp: dispatch_simps upper_simps cmd_hdel_def neq_Nil_conv\<close>)
  have ps: "sp_pairs xs = pairs_of xs" for xs by (induction xs rule: pairs_of.induct) simp_all
  have hm: "\<not> eq_ignore_ascii_case (lit ''HSET'') (lit ''HMSET'')" "eq_ignore_ascii_case (lit ''HMSET'') (lit ''HMSET'')"
    by (simp_all add: eq_ignore_ascii_case_def to_ascii_lowercase_def lit_def)
  assume h: "valid_key k" "fvs \<noteq> []" "even (length fvs)"
  note ans = hset_answer [OF assms h(1), of "pairs_of fvs"] and len = even_nonempty [OF h(3,2)]
  show "reply_match T (lit ''HSET'' # k # fvs) s p"
    by (rule match_panic [of _ _ _ "hset E k (pairs_of fvs)" Integer _ "sp_hset D k (pairs_of fvs)" SpInt ValInt])
      (use ans len h in \<open>auto simp: dispatch_simps upper_simps cmd_hset_def sp_cmd_hset_def ps Let_def hm
        sp_then_def even_iff_mod_2_eq_zero\<close>)
  show "reply_match T (lit ''HMSET'' # k # fvs) s p"
    by (rule match_panic [of _ _ _ "hset E k (pairs_of fvs)" "\<lambda>_. frame_ok" _ "sp_hset D k (pairs_of fvs)"
          "\<lambda>_. sp_ok" ValInt])
      (use ans len h in \<open>auto simp: dispatch_simps upper_simps cmd_hset_def sp_cmd_hset_def ps Let_def hm
        frame_ok_def sp_ok_def sp_then_def even_iff_mod_2_eq_zero\<close>)
qed

lemma step_of_answer:
  assumes "answer (try_then f (\<lambda>x. ok (g x)) s) (sp_total h g p)" "\<And>x y. g x = g y \<Longrightarrow> x = y"
  shows "(\<exists>s'. f s = (Inl WrongType, s')) \<or> (\<exists>x s' p'. f s = (Inr x, s') \<and> h p = (x, p') \<and> twin s' p')"
  using assms by (auto simp: try_then_def ok_def sp_total_def split: prod.splits sum.splits)

lemma count_keys_match:
  assumes "\<And>k s p. twin s p \<Longrightarrow>
      (\<exists>s'. f k s = (Inl WrongType, s')) \<or> (\<exists>b s' p'. f k s = (Inr b, s') \<and> h k p = (b, p') \<and> twin s' p')"
  shows "twin s p \<Longrightarrow> (\<exists>t s'. count_keys f ks n s = (Error t, s'))
    \<or> (\<exists>m s' p'. count_keys f ks n s = (Integer (n + m), s') \<and> sp_count_keys h ks p = (m, p') \<and> twin s' p')"
proof (induction ks arbitrary: n s p)
  case (Cons k ks)
  from assms [OF Cons.prems, of k] show ?case
  proof (elim disjE exE conjE)
    fix b s' p' assume b: "f k s = (Inr b, s')" "h k p = (b, p')" "twins view contents s' p'" "gc_on (engine s')"
    show ?thesis using Cons.IH [of s' p' "n + 1"] Cons.IH [of s' p' n] b by (cases b) (auto simp: add.assoc)
  qed (simp add: engine_error_frame_def)
qed simp

lemma hmget_match:
  "twin s p \<Longrightarrow> (\<exists>t s'. hmget_loop E k fs acc s = (Error t, s'))
    \<or> (\<exists>rs s' p'. hmget_loop E k fs acc s = (Array (acc @ map sp_frame rs), s') \<and> sp_hget_all D k fs p = (rs, p') \<and> twin s' p')"
proof (induction fs arbitrary: acc s p)
  case (Cons f fs)
  have "answer (try_then (hget E k f) (\<lambda>x. ok (ValBulk x)) s) (sp_total (sp_hget D k f) ValBulk p)"
    using hget_answer(1) [OF Cons.prems, of k f] by simp
  then have "(\<exists>s'. hget E k f s = (Inl WrongType, s'))
      \<or> (\<exists>x s' p'. hget E k f s = (Inr x, s') \<and> sp_hget D k f p = (x, p') \<and> twin s' p')"
    by (rule step_of_answer) simp
  then show ?case
  proof (elim disjE exE conjE)
    fix r s' p' assume b: "hget E k f s = (Inr r, s')" "sp_hget D k f p = (r, p')" "twins view contents s' p'" "gc_on (engine s')"
    have "bulk_or_null r = sp_frame (SpBulk r)" by (cases r) (simp_all add: bulk_or_null_def)
    then show ?thesis using Cons.IH [of s' p' "acc @ [bulk_or_null r]"] b by auto
  qed (simp_all add: engine_error_frame_def)
qed simp

lemma multi_key_match:
  assumes "twin s p"
  shows "ks \<noteq> [] \<Longrightarrow> reply_match T (lit ''DEL'' # ks) s p" "ks \<noteq> [] \<Longrightarrow> reply_match T (lit ''EXISTS'' # ks) s p"
    "fs \<noteq> [] \<Longrightarrow> reply_match T (lit ''HMGET'' # k # fs) s p"
proof -
  have del: "(\<exists>s'. store_del E k s = (Inl WrongType, s'))
      \<or> (\<exists>b s' p'. store_del E k s = (Inr b, s') \<and> sp_del D k p = (b, p') \<and> twin s' p')" if "twin s p" for k s p
    using deletes_answer [OF that, of k] by (intro step_of_answer [where g = ValBool]) simp_all
  have ex: "(\<exists>s'. store_exists E k s = (Inl WrongType, s'))
      \<or> (\<exists>b s' p'. store_exists E k s = (Inr b, s') \<and> sp_exists D k p = (b, p') \<and> twin s' p')" if "twin s p" for k s p
    using reads_answer(2) [OF that, of k] by (intro step_of_answer [where g = ValBool]) simp_all
  show "reply_match T (lit ''DEL'' # ks) s p" if "ks \<noteq> []"
    using count_keys_match [of "store_del E" "sp_del D" s p ks 0, OF del assms] that
    by (auto simp: dispatch_simps upper_simps cmd_del_def sp_plain_def sp_then_def sp_ret_def split: prod.splits)
  show "reply_match T (lit ''EXISTS'' # ks) s p" if "ks \<noteq> []"
    using count_keys_match [of "store_exists E" "sp_exists D" s p ks 0, OF ex assms] that
    by (auto simp: dispatch_simps upper_simps cmd_exists_def sp_plain_def sp_then_def sp_ret_def split: prod.splits)
  show "reply_match T (lit ''HMGET'' # k # fs) s p" if "fs \<noteq> []"
    using hmget_match [OF assms, of k fs "[]"] that
    by (auto simp: dispatch_simps upper_simps cmd_hmget_def sp_plain_def sp_then_def sp_ret_def split: prod.splits list.splits)
qed

lemma admin_match:
  assumes "twin s p"
  shows "reply_match T [lit ''DBSIZE''] s p" "reply_match T [lit ''RAWCOUNT''] s p" "reply_match T [lit ''COMPACT''] s p"
proof -
  show "reply_match T [lit ''DBSIZE''] s p"
    by (rule match_plain [of _ _ _ "dbsize E" Integer _ "\<lambda>p. (sp_dbsize D p, p)" SpInt ValInt])
      (use counts_answer(1) [OF assms] in \<open>auto simp: dispatch_simps upper_simps cmd_dbsize_def sp_plain_def
        sp_then_def sp_total_def sp_ret_def\<close>)
  show "reply_match T [lit ''RAWCOUNT''] s p"
    by (rule match_plain [of _ _ _ "raw_subkey_count E" Integer _ "\<lambda>p. (sp_raw_subkey_count D p, p)" SpInt ValInt])
      (use counts_answer(2) [OF assms] in \<open>auto simp: dispatch_simps upper_simps cmd_rawcount_def sp_plain_def
        sp_then_def sp_total_def sp_ret_def\<close>)
  show "reply_match T [lit ''COMPACT''] s p"
    by (rule match_plain [of _ _ _ "store_compact E" "\<lambda>_. frame_ok" _ "\<lambda>p. ((), sp_compact D p)" "\<lambda>_. sp_ok" "\<lambda>_. ValUnit"])
      (use compact_answer [OF assms] in \<open>auto simp: dispatch_simps upper_simps cmd_compact_def sp_plain_def
        sp_then_def sp_total_def sp_ret_def frame_ok_def sp_ok_def\<close>)
qed

lemma echo_match:
  assumes "twin s p"
  shows "reply_match T (lit ''PING'' # a) s p" "reply_match T [lit ''ECHO'', m] s p"
proof -
  show "reply_match T [lit ''ECHO'', m] s p" using assms
    by (auto simp: dispatch_simps upper_simps cmd_echo_def sp_then_def sp_ret_def)
  show "reply_match T (lit ''PING'' # a) s p"
  proof (cases a rule: pairs_of.cases)
    case (1 x y zs)
    then have "registry_dispatch (registry_standard E T) V2 (lit ''PING'' # a) s = Some (wrong_args (lit ''ping''), s)"
      by (simp add: dispatch_simps upper_simps cmd_ping_def)
    then show ?thesis using error_match by (simp add: wrong_args_def upper_simps)
  qed (use assms in \<open>auto simp: dispatch_simps upper_simps cmd_ping_def sp_then_def sp_ret_def\<close>)
qed

lemma fixed_commands_match:
  assumes "twin s p" "c \<in> {''ECHO'', ''GET'', ''TYPE'', ''TTL'', ''PTTL'', ''HGET'', ''HGETALL'', ''HLEN'', ''HEXISTS'',
      ''DBSIZE'', ''RAWCOUNT'', ''COMPACT''}"
  shows "reply_match T (lit c # a) s p"
proof -
  note m = key_reads_match [OF assms(1)] field_reads_match [OF assms(1)] admin_match [OF assms(1)]
    echo_match(2) [OF assms(1)]
  show ?thesis using assms(2)
    by (elim insertE emptyE; hypsubst) (rule fixed_match, (simp add: upper_simps; fail), (simp; fail),
      (simp add: standard_defs; fail), (simp; fail), rule m)+
qed

lemma variadic_commands_match:
  assumes "twin s p"
  shows "reply_match T (lit ''DEL'' # a) s p" "reply_match T (lit ''EXISTS'' # a) s p"
    "reply_match T (lit ''HDEL'' # a) s p" "reply_match T (lit ''HMGET'' # a) s p"
    "length a \<le> 2 \<Longrightarrow> reply_match T (lit ''SET'' # a) s p"
proof -
  show "reply_match T (lit ''DEL'' # a) s p"
    by (rule arity_match, simp add: upper_simps, simp, simp add: standard_defs, rule multi_key_match(1) [OF assms])
      (auto simp: arity_matches_def)
  show "reply_match T (lit ''EXISTS'' # a) s p"
    by (rule arity_match, simp add: upper_simps, simp, simp add: standard_defs, rule multi_key_match(2) [OF assms])
      (auto simp: arity_matches_def)
  have two: "\<exists>k f fs. a = k # f # fs" if "2 \<le> length a" using that by (cases a rule: pairs_of.cases) auto
  show "reply_match T (lit ''HDEL'' # a) s p"
    by (rule arity_match, simp add: upper_simps, simp, simp add: standard_defs)
      (use two writes_match(2) [OF assms] in \<open>force simp: arity_matches_def\<close>)
  show "reply_match T (lit ''HMGET'' # a) s p"
    by (rule arity_match, simp add: upper_simps, simp, simp add: standard_defs)
      (use two multi_key_match(3) [OF assms] in \<open>force simp: arity_matches_def\<close>)
  show "reply_match T (lit ''SET'' # a) s p" if "length a \<le> 2"
    by (rule arity_match, simp add: upper_simps, simp, simp add: standard_defs)
      (use two that writes_match(1) [OF assms] in \<open>force simp: arity_matches_def\<close>)
qed

lemma hset_commands_match:
  assumes "twin s p" "a \<noteq> [] \<Longrightarrow> valid_key (hd a)" "c = ''HSET'' \<or> c = ''HMSET''"
  shows "reply_match T (lit c # a) s p"
proof -
  have up: "sp_upper (lit c) = lit c" "c \<noteq> ''QUIT''" using assms(3) by (auto simp: upper_simps)
  have reg: "registry_standard E T (lit c) = Some \<lparr>name_lower = to_ascii_lowercase (lit c), arity = - 4, handler = cmd_hset E\<rparr>"
    using assms(3) by (elim disjE; hypsubst) (simp_all add: standard_defs)
  show ?thesis
  proof (rule arity_match [OF up reg])
    assume "arity_matches (arity \<lparr>name_lower = to_ascii_lowercase (lit c), arity = - 4, handler = cmd_hset E\<rparr>) (Suc (length a))"
    then obtain k fvs where a: "a = k # fvs" "2 \<le> length fvs" by (cases a) (simp_all add: arity_matches_def)
    show "reply_match T (lit c # a) s p"
    proof (cases "even (length fvs)")
      case True
      moreover have "fvs \<noteq> []" "valid_key k" using a assms(2) by auto
      ultimately show ?thesis using writes_match(3,4) [OF assms(1), of k fvs T] assms(3) a(1) by metis
    next
      case False
      then have "\<exists>nm. registry_dispatch (registry_standard E T) V2 (lit c # a) s = Some (wrong_args nm, s)"
        using a up by (auto simp: registry_dispatch_def reg sp_upper_def arity_matches_def cmd_hset_def with_arg_def
            Let_def odd_iff_mod_2_eq_one)
      then show ?thesis using error_match up by (auto simp: wrong_args_def)
    qed
  qed
qed

lemma command_match: "twin s p \<Longrightarrow> c \<in> set shared_commands \<Longrightarrow> shared_args c a \<Longrightarrow> reply_match T (lit c # a) s p"
  unfolding shared_commands_def list.set
  by (elim insertE emptyE; hypsubst)
    (use fixed_commands_match variadic_commands_match hset_commands_match echo_match(1) in \<open>simp_all add: shared_args_def\<close>)

end

subsection \<open>Properties\<close>

text \<open>C5: Client for client the two servers are the same on strings and hashes: on a RESP2 connection, a
  string, hash, key or introspection command to prototype and production server gets byte for byte the same
  reply, and leaves the same records, version map and clocks, unless the production server answers with an error
  (wrong type or wrong arguments).  The two start from the same records, of strings and hashes only, the same
  version map and the same clocks; the prototype tracks no other type (\<open>spike_drops_other_types\<close>).  \<open>SET\<close> is
  taken without options, where the two validate expiry times differently.\<close>

theorem spike_commands_match:
  assumes "reliable_engine E view gc_on" "spike_rocks D contents" "gc_on (engine s)"
    and "view (engine s) = contents (engine p)" "string_hash_kv (contents (engine p))"
    and "versions s = versions p" "version_clock s = version_clock p" "time s = time p"
    and "c \<in> set shared_commands" "shared_args c a"
  shows "\<exists>fr s' r p'. registry_dispatch (registry_standard E T) V2 (lit c # a) s = Some (fr, s')
    \<and> sp_dispatch D (lit c # a) p = (Some (r, False), p')
    \<and> ((\<exists>t. fr = Error t)
       \<or> encode T V2 fr = sp_write_to r
         \<and> view (engine s') = contents (engine p') \<and> string_hash_kv (contents (engine p'))
         \<and> versions s' = versions p' \<and> version_clock s' = version_clock p' \<and> time s' = time p')"
proof -
  have "spike_pair E view gc_on D contents" using assms(1,2) by (rule spike_pair.intro)
  moreover have "twins view contents s p" using assms(4-8) by (simp add: twins_def)
  ultimately obtain fr s' r p' where "registry_dispatch (registry_standard E T) V2 (lit c # a) s = Some (fr, s')"
      "sp_dispatch D (lit c # a) p = (Some (r, False), p')"
      "(\<exists>t. fr = Error t) \<or> encode T V2 fr = sp_write_to r \<and> twins view contents s' p'"
    using spike_pair.command_match [of E view gc_on D contents s p c a T] assms(3,9,10)
    by (auto simp: sp_write_to_encode [of _ T] simp del: encode.simps)
  then show ?thesis unfolding twins_def by blast
qed

theorem spike_commands_match_witness:
  "\<exists>fr s' r p'. registry_dispatch (registry_standard (rocks mem_db) bits_text) V2 (lit ''HSET'' # [[107], [97], [1]])
       \<lparr>engine = \<lparr>db = [], gc = Some ()\<rparr>, versions = vm_new, version_clock = 0, time = id\<rparr> = Some (fr, s')
    \<and> sp_dispatch spike_mem (lit ''HSET'' # [[107], [97], [1]])
       \<lparr>engine = [], versions = vm_new, version_clock = 0, time = id\<rparr> = (Some (r, False), p')
    \<and> ((\<exists>t. fr = Error t)
       \<or> encode bits_text V2 fr = sp_write_to r
         \<and> map_of (db (engine s')) = map_of (engine p') \<and> string_hash_kv (map_of (engine p'))
         \<and> versions s' = versions p' \<and> version_clock s' = version_clock p' \<and> time s' = time p')"
  by (rule spike_commands_match [OF mem.engine_contract smem.spike_rocks_axioms])
    (simp_all add: string_hash_kv_def shared_commands_def shared_args_def valid_key_def)

text \<open>Requests: what a client sends as an array of bulk strings is read by the prototype's line reader as
  exactly its arguments, and by the production decoder as the same arguments, whatever bytes they hold
  and whatever follows on the connection.\<close>

theorem spike_reads_requests:
  assumes "sp_request_fits args" "length args \<le> max_array_len lim" "\<forall>a \<in> set args. length a \<le> max_bulk_len lim"
    "limits_fit lim"
  shows "sp_read_command (encode T V2 (Array (map Bulk args)) @ rest) = SpOk (Some args, rest)
    \<and> decode_command (encode T V2 (Array (map Bulk args)) @ rest) lim = (Inr (Some args), rest)"
  using sp_read_request [OF assms(1)] request_decode [OF assms(2-4)] by blast

theorem spike_reads_requests_witness:
  "sp_read_command (encode bits_text V2 (Array (map Bulk [lit ''GET'', [13, 10]])) @ [42]) = SpOk (Some [lit ''GET'', [13, 10]], [42])
    \<and> decode_command (encode bits_text V2 (Array (map Bulk [lit ''GET'', [13, 10]])) @ [42]) default_limits
        = (Inr (Some [lit ''GET'', [13, 10]]), [42])"
  by (rule spike_reads_requests)
    (simp_all add: sp_request_fits_def default_limits_def limits_fit_def lit_def)



text \<open>Deadlines of the prototype wrap around: \<open>SET key value EX n\<close> asks for a deadline of \<open>now + 1000 n\<close> modulo
  \<open>2^64\<close> milliseconds, so that 584 million years become 384 milliseconds.\<close>

lemma deadline_wraps:
  assumes "sp_parse_u64 raw = Some n"
  shows "(\<exists>d. fst (sp_set_options [lit ''EX'', raw] 0 p) = Inr d
      \<and> unat d = (unat (fst (now_ms p)) + unat n * 1000) mod 2 ^ 64)
    \<and> (n = 18446744073709552 \<longrightarrow> fst (sp_set_options [lit ''EX'', raw] 0 p) = Inr (fst (now_ms p) + 384))"
proof -
  have "fst (sp_set_options [lit ''EX'', raw] 0 p) = Inr (fst (now_ms p) + n * 1000)"
    using assms by (simp add: upper_names ascii_upper_def case_prod_beta)
  then show ?thesis
    by (simp add: unat_word_ariths mod_simps)
qed

text \<open>One short line can end a connection of the prototype: an array length beyond what a vector can hold
  panics the thread before any argument is read, where the production decoder answers with a limit error.\<close>

lemma length_panics:
  assumes "2 ^ 63 \<le> 24 * n" "n < 2 ^ 63" "max_array_len lim < n"
  shows "sp_read_command (lit ''*'' @ show_int (int n) @ CRLF @ rest) = SpPanics
    \<and> (\<exists>e. fst (decode_command (lit ''*'' @ show_int (int n) @ CRLF @ rest) lim) = Inl (LimitExceeded e))"
proof
  have "sp_read_line (42 # show_int (int n) @ CRLF @ rest) = (length (show_int (int n)) + 3, 42 # show_int (int n), rest)"
    by (rule header_read) (simp_all add: CR_def LF_def)
  then show "sp_read_command (lit ''*'' @ show_int (int n) @ CRLF @ rest) = SpPanics"
    using assms(1) sp_parse_count [OF assms(2)] by (simp add: sp_read_command_def lit_def)
  have "parse_multibulk (42 # show_int (int n) @ CRLF @ rest) lim
      = Inl (LimitExceeded (lit ''multibulk length '' @ show_int (int n) @ lit '' exceeds limit ''
          @ show_nat (max_array_len lim)))"
    using assms by (simp add: parse_multibulk_def in_i64_def on_header_at [of "int n" "[]" 42 rest, simplified])
  then show "\<exists>e. fst (decode_command (lit ''*'' @ show_int (int n) @ CRLF @ rest) lim) = Inl (LimitExceeded e)"
    by (simp add: decode_command_def lit_def)
qed

text \<open>C32: Where the prototype falls short of the production server, on a database without faults.  \<open>FLUSHDB\<close> empties
  the database but not one entry of the version map, because it collects the entries to drop from the database
  it has just emptied.  \<open>SET key value EX n\<close> takes \<open>now + 1000 n\<close> modulo \<open>2^64\<close> as its deadline, so that 584 million
  years become 384 milliseconds.  A line with an array length no vector can hold panics the connection, where
  the production decoder refuses it with a limit error.\<close>

theorem spike_departures:
  assumes "spike_rocks D contents" "sp_parse_u64 raw = Some n" "2 ^ 63 \<le> 24 * m" "m < 2 ^ 63" "max_array_len lim < m"
  shows "(\<exists>p'. sp_flushdb D p = (Some (), p') \<and> contents (engine p') = Map.empty \<and> versions p' = versions p)
    \<and> (\<exists>d. fst (sp_set_options [lit ''EX'', raw] 0 p) = Inr d
        \<and> unat d = (unat (fst (now_ms p)) + unat n * 1000) mod 2 ^ 64)
    \<and> (n = 18446744073709552 \<longrightarrow> fst (sp_set_options [lit ''EX'', raw] 0 p) = Inr (fst (now_ms p) + 384))
    \<and> sp_read_command (lit ''*'' @ show_int (int m) @ CRLF @ rest) = SpPanics
    \<and> (\<exists>e. fst (decode_command (lit ''*'' @ show_int (int m) @ CRLF @ rest) lim) = Inl (LimitExceeded e))"
  using spike_rocks.flush_effect [OF assms(1), of p] deadline_wraps [OF assms(2), of p] length_panics [OF assms(3-5)]
  by blast

theorem spike_departures_witness:
  "\<exists>p'. sp_flushdb spike_mem \<lparr>engine = [(meta_key [107], [2])], versions = [[107] \<mapsto> 5], version_clock = 5, time = (\<lambda>n. 5000)\<rparr>
        = (Some (), p') \<and> map_of (engine p') = Map.empty \<and> versions p' = [[107] \<mapsto> 5]
    \<and> fst (sp_set_options [lit ''EX'', lit ''18446744073709552''] 0
        (\<lparr>engine = [(meta_key [107], [2])], versions = [[107] \<mapsto> 5], version_clock = 5, time = (\<lambda>n. 5000)\<rparr> :: mem store))
      = Inr 389
    \<and> sp_read_command (lit ''*'' @ show_int (int 9000000000000000000) @ CRLF @ []) = SpPanics"
proof -
  let ?p = "\<lparr>engine = [(meta_key [107], [2])], versions = [[107] \<mapsto> 5], version_clock = 5, time = (\<lambda>n. 5000)\<rparr> :: mem store"
  have "trim (lit ''18446744073709552'') = lit ''18446744073709552''" by (rule trim_digits) (simp add: lit_def digit_def)
  then have "sp_parse_u64 (lit ''18446744073709552'') = Some 18446744073709552"
    by (simp add: sp_parse_u64_def u64_from_str_def unsigned_from_str_def digits_value_def lit_def digit_def Let_def)
  note d = spike_departures [OF smem.spike_rocks_axioms this, of 9000000000000000000 default_limits ?p "[]"]
  have eqs: "fst (now_ms ?p) + 384 = 389" "versions ?p = [[107] \<mapsto> 5]" by (simp_all add: now_ms_def)
  have fits: "2 ^ 63 \<le> 24 * (9000000000000000000 :: nat)" "(9000000000000000000 :: nat) < 2 ^ 63"
    "max_array_len default_limits < 9000000000000000000" by (simp_all add: default_limits_def)
  note all = d [OF fits, unfolded eqs]
  from all [THEN conjunct1] obtain p' where "sp_flushdb spike_mem ?p = (Some (), p')"
    "map_of (engine p') = Map.empty" "versions p' = [[107] \<mapsto> 5]" by (elim exE conjE)
  moreover note all [THEN conjunct2, THEN conjunct2, THEN conjunct1, THEN mp, OF refl]
    and all [THEN conjunct2, THEN conjunct2, THEN conjunct2, THEN conjunct1]
  ultimately show ?thesis by (intro exI [of _ p'] conjI)
qed

end
