(* ===== verification/Spec2Isabelle.thy ===== *)
theory Spec2Isabelle
  imports Store_Steps Store_Atomic Store_Races Version_Clock Reply_Types Resp_Api
    Metrics_Endpoint Startup Spike_Correct
begin

text \<open>
  GameStore: a Redis-compatible data node in Rust.  A client speaks RESP over TCP; the node decodes
  requests, dispatches them to command handlers, which act on a store of typed Redis values kept as
  records in an ordered key-value engine (RocksDB); a compaction filter removes records of dead
  structures.  This library models the crates under \<open>src/crates\<close> and proves that the node answers as an
  abstract Redis database does.  The prototype the node grew out of, \<open>src/spike/rust\<close>, is modelled too and
  compared with it.

  \<^bold>\<open>The parts, from the bottom.\<close>

  \<^item> \<open>GS_Prelude\<close>, \<open>F64\<close>, \<open>Resp_Text\<close>, \<open>Rust_Text\<close>: machine words, big-endian encodings, the bytewise order of
    byte strings, operations returning \<open>Result\<close> over a state; doubles as their bit patterns with Rust's
    comparisons; UTF-8, decimal integers, ASCII case and white space as in Rust's standard library.

  \<^item> \<open>Encoding\<close> (\<open>gamestore-engine/src/encoding.rs\<close>): keys and records.  Subkeys and metadata round trip,
    a prefix scan of one key's version sees nothing else, encoded scores sort in numeric order.

  \<^item> \<open>Gc\<close> (\<open>gc.rs\<close>): the version map and the predicate of the compaction filter, \<open>VersionMap\<close> as a map.

  \<^item> \<open>Engine\<close> (\<open>engine.rs\<close>, \<open>error.rs\<close>): the trait \<open>GeneralEngine\<close> as a record of operations, its contract
    as the locale \<open>reliable_engine\<close>.  \<open>Rocks\<close> (\<open>rocks.rs\<close>): \<open>RocksEngine\<close> over the \<open>rocksdb\<close> crate, which is a
    parameter with its documented behaviour as a locale; the engine satisfies the contract, and an
    in-memory database shows that the assumptions can hold.

  \<^item> \<open>Store\<close> (\<open>store.rs\<close>): every operation of \<open>Store\<close>, as a function of the engine's operations.  The state
    has the engine, the version map, the version clock and the stream of future clock readings.

  \<^item> \<open>Redis_Spec\<close>: the abstract database and its commands.  \<open>Store_Spec\<close>: how records represent it, and
    the representation invariant \<open>store_ok\<close>.  \<open>Store_Refine\<close>, \<open>Counted_Refine\<close>, \<open>Hash_Refine\<close>, \<open>Set_Refine\<close>,
    \<open>ZSet_Refine\<close>, \<open>List_Refine\<close>, \<open>Admin_Refine\<close>: every operation keeps the invariant and has the reply and
    effect of the abstract command (expiry included), over any reliable engine.  \<open>Store_Correct\<close> states
    the results per family; \<open>Store_Requests\<close> has the operations on one key as data;
    \<open>Store_Findings\<close> are the two Hash commands whose counting goes wrong on repeated fields, and a failing
    \<open>SET\<close> after which a compaction loses data.  \<open>Store_Atomic\<close>: what the updates that commit in one
    batch leave when they answer with an error, over engines whose reads and writes may fail, and that the
    next compaction then loses nothing.
    \<open>Store_Restart\<close>: after a restart with the wall clock set back, \<open>HSET\<close> can draw the version of a deleted hash
    again and bring its fields back.

  \<^item> \<open>Store_Calls\<close>: requests as sequences of single calls (a read or a batch of the engine, an access to the
    version map, a reading of a clock); every operation on one key of \<open>Store\<close> is such a sequence and makes only
    calls within its key.  \<open>Store_Isolation\<close>: requests on different keys may be interleaved call by call, and
    end with replies and a database that some execution one after the other gives.  \<open>Store_Steps\<close>: the state
    machine of requests, compactions and process restarts, each request labelled with its time and reply: every
    trace is a serial execution on the abstract database.

  \<^item> \<open>Version_Clock\<close>: \<open>next_version\<close> with threads interleaving between load, clock and compare-exchange.
    \<open>Store_Races\<close>: callers of \<open>hset\<close> interleaving between its reads and its write, and an \<open>hdel\<close> whose second
    write fails: what the store, which takes no lock, can lose.

  \<^item> \<open>Resp_Frame\<close>, \<open>Resp_Decode\<close>, \<open>Codec\<close> (\<open>gamestore-protocol/src\<close>): frames, encoder, incremental decoder,
    inline commands, the two codecs.  \<open>Resp_Incremental\<close>: the locale of parsers on a growing buffer,
    interpreted for each parser of the decoder.  \<open>Resp_Roundtrip\<close>, \<open>Resp_Correct\<close>: decoding inverts encoding, does not depend
    on fragmentation and keeps within the limits.  \<open>Resp_Api\<close>: the constructors and accessors the crate exports.

  \<^item> \<open>Registry\<close>, \<open>Commands\<close> (\<open>gamestore-datamodel/src\<close>): the registry and every handler; \<open>None\<close> is a panic.
    \<open>Commands_Correct\<close>: dispatch never panics, and commands reply as the abstract database answers.
    \<open>Reply_Types\<close>: every reply is well typed for the protocol version of its connection.

  \<^item> \<open>Server\<close> (\<open>gamestore-datanode/src/server.rs\<close>): connection verbs and the loop of a connection, as a
    function of the bytes received.  \<open>Server_Correct\<close>: requests are executed once each and in order.
    \<open>Node\<close>: accepting, connection tasks interleaving on one store (looking at the shutdown flag, taking a request,
    executing it, sending the reply), and shutdown, as a step relation; identifiers are unique, the gauge of active
    connections is exact, shutdown executes the requests in flight and drains.  \<open>Observability\<close>,
    \<open>Metrics_Endpoint\<close> (\<open>observability.rs\<close>): command metrics, slow log, gauges, and the HTTP endpoint, whose scrape
    reports the state of the engine line by line, over an exporter that behaves as documented.  \<open>Node_Config\<close> (\<open>gamestore-common/src/config.rs\<close>, \<open>main.rs\<close>): settings and
    their precedence.  \<open>Startup\<close> (\<open>main.rs\<close>, \<open>telemetry.rs\<close>, \<open>metrics.rs\<close>): from the command line to serving, and every
    way to fail before.  This theory composes the layers: bytes in, bytes out, and the effect on the database.

  \<^item> The prototype.  \<open>Spike_Store\<close> (\<open>spike/rust/src/encoding.rs\<close>, \<open>gc.rs\<close>, \<open>storage.rs\<close>): its storage layer, a panic
    being the result \<open>None\<close>; the state is that of \<open>Store\<close> with the database for the engine, and the clocks and
    version-map operations, the same code, are shared.  \<open>Spike_Resp\<close> (\<open>resp.rs\<close>): replies and the blocking
    request reader.  \<open>Spike_Commands\<close> (\<open>commands.rs\<close>, \<open>main.rs\<close>): dispatch, the connection loop, the command line.
    \<open>Spike_Equiv\<close>: the locale \<open>spike_pair\<close> of the two stores over databases with the same records; they
    share one format and run in lock step on strings and hashes.  \<open>Spike_Correct\<close>: the prototype reads requests back, answers
    pipelines completely, and replies command by command with the bytes of the production registry;
    its deadlines wrap and an absurd array length panics it.

  \<^bold>\<open>Bounds.\<close>  There is no fuel: parser recursion ends by the depth limit, the connection loop because a
  decoded request shortens the buffer, loops over scans and arguments are structural.  The
  refinement theorems need keys shorter than \<open>2^32\<close> bytes (\<open>valid_key\<close>: the layout stores the length
  in 32 bits), fewer than \<open>2^32\<close> elements in a Hash, Set or ZSet, room around a list's indexes,
  a version clock below its last value, and no field named twice in one \<open>HSET\<close> or \<open>HDEL\<close>.  An engine is reliable when its operations do not fail;
  error paths are in the definitions.

  \<^bold>\<open>Not modelled.\<close>  Sockets and the tokio runtime (a connection is the bytes it receives and sends), the inside
  of the metrics and logging crates, of \<open>rocksdb\<close> and of the TOML parser (each is a parameter, with what its
  documentation says as hypotheses), the C++ prototype under \<open>src/spike/cpp\<close>, and the accept loop of the Rust
  one.  The text form of doubles (formatting and parsing) is a parameter with the round-trip law Rust
  documents.  In the state machines of \<open>Store_Steps\<close> and \<open>Node\<close> an operation takes effect at once; interleavings
  in the middle of operations are modelled for requests on different keys (\<open>Store_Isolation\<close>), for the version
  clock and for concurrent \<open>hset\<close> on one key.  Memory that runs out is not modelled.

  \<^bold>\<open>Left open.\<close>  What a removal that fails between its two writes leaves in general (\<open>Store_Races\<close> has the case of
  \<open>hdel\<close>); interleavings on one key of read-modify-write operations other than \<open>hset\<close>; a compaction in the middle
  of an operation.
\<close>

subsection \<open>End to end\<close>

lemma set_get_verbs:
  "spells nm ''SET'' \<Longrightarrow> to_ascii_uppercase (from_utf8_lossy nm) \<notin> set CONNECTION_VERBS"
  "spells nm ''GET'' \<Longrightarrow> to_ascii_uppercase (from_utf8_lossy nm) \<notin> set CONNECTION_VERBS"
  by (simp_all add: spells_def CONNECTION_VERBS_def lit_def)

text \<open>C2: End to end: a client that pipelines \<open>SET k x\<close> and \<open>GET k\<close>, as RESP arrays, on a fresh connection is sent \<open>+OK\<close> and
  then \<open>x\<close>, whatever the key held before, however the two requests are fragmented on the way, and
  whatever the clock does in between; the database then differs from the one before at \<open>k\<close> only.\<close>

theorem set_get_over_the_wire:
  assumes "reliable_engine E view gc_on" "store_ok view s" "valid_key k" "version_clock s \<noteq> - 1"
    and "spells st ''SET''" "spells gt ''GET''"
    and "\<forall>r \<in> {[st, k, x], [gt, k]}. request_fits default_limits r"
    and "concat chunks = request_bytes T' [st, k, x] @ request_bytes T' [gt, k]"
  shows "\<exists>c s'. fold (receive E T (registry_standard E T)) chunks (conn_new i, s) = (c, s')
    \<and> outbuf c = encode T V2 frame_ok @ encode T V2 (Bulk x)
    \<and> \<not> conn.closed c \<and> store_ok view s' \<and> db_of view s' = (live_db view k s)(k \<mapsto> (RString x, 0))"
proof -
  let ?reg = "registry_standard E T" and ?c = "conn_new i"
  obtain s1 where s1: "registry_dispatch ?reg V2 [st, k, x] s = Some (frame_ok, s1)" "store_ok view s1"
      "db_of view s1 = (live_db view k s)(k \<mapsto> (RString x, 0))"
    using reliable_engine.additions_reply(1) [OF assms(1-5), of T V2 x]
    by (auto simp: replies_def spec_set_def replace_def)
  then have live: "live_db view k s1 = (live_db view k s)(k \<mapsto> (RString x, 0))"
    by (simp add: live_db_def [of view k s1] purge_def expired_def)
  obtain s2 where s2: "registry_dispatch ?reg V2 [gt, k] s1 = Some (Bulk x, s2)" "store_ok view s2"
      "db_of view s2 = live_db view k s1"
    using reliable_engine.reads_reply(1) [OF assms(1) s1(2) assms(3,6), of T V2] live
    by (auto simp: replies_def spec_get_def typed_def reply_def bulk_or_null_def)
  have "serve_all E T ?reg [[st, k, x], [gt, k]] ?c s
      = (?c\<lparr>outbuf := encode T V2 frame_ok @ encode T V2 (Bulk x)\<rparr>, s2)"
    using s1(1) s2(1) set_get_verbs assms(5,6)
    by (simp add: serve_registered conn_new_def command_codec_new_def del: encode.simps)
  moreover obtain b where "fold (receive E T ?reg) chunks (?c, s)
      = (case serve_all E T ?reg [[st, k, x], [gt, k]] ?c s of (c', s') \<Rightarrow> (c'\<lparr>inbuf := b\<rparr>, s'))"
    using fragments_served [of ?c "[[st, k, x], [gt, k]]" T' chunks E T ?reg s] assms(7,8)
      default_limits_fit pending_start [of T' "[[st, k, x], [gt, k]]" i]
    by (auto simp: conn_new_def command_codec_new_def simp del: encode.simps)
  ultimately show ?thesis using s2(2,3) live by (simp add: conn_new_def del: encode.simps)
qed

theorem set_get_over_the_wire_witness:
  "\<exists>c s'. fold (receive (rocks mem_db) bits_text (registry_standard (rocks mem_db) bits_text))
      [take 7 (request_bytes bits_text [lit ''set'', [107], [120]]),
       drop 7 (request_bytes bits_text [lit ''set'', [107], [120]]) @ request_bytes bits_text [lit ''GET'', [107]]]
      (conn_new 1, empty_store) = (c, s')
    \<and> outbuf c = [43, 79, 75, 13, 10] @ [36, 49, 13, 10, 120, 13, 10]"
proof -
  have sp: "spells (lit ''set'') ''SET''" "spells (lit ''GET'') ''GET''"
    by (simp_all add: spells_def lit_def from_utf8_lossy_ascii to_ascii_uppercase_def ascii_upper_def)
  have fits: "\<forall>r \<in> {[lit ''set'', [107], [120]], [lit ''GET'', [107]]}. request_fits default_limits r"
    by (simp add: request_fits_def default_limits_def lit_def)
  have one: "show_int 1 = [49]" by code_simp
  have out: "encode bits_text V2 frame_ok @ encode bits_text V2 (Bulk [120])
      = [43, 79, 75, 13, 10] @ [36, 49, 13, 10, 120, 13, 10]"
    by (simp add: frame_ok_def one put_int_def lit_def CRLF_def CR_def LF_def)
  have "concat [take 7 (request_bytes bits_text [lit ''set'', [107], [120]]),
       drop 7 (request_bytes bits_text [lit ''set'', [107], [120]]) @ request_bytes bits_text [lit ''GET'', [107]]]
     = request_bytes bits_text [lit ''set'', [107], [120]] @ request_bytes bits_text [lit ''GET'', [107]]"
    by (simp del: encode.simps append_assoc add: append_assoc [symmetric])
  from set_get_over_the_wire [OF on_empty sp fits this, of bits_text 1] show ?thesis
    unfolding out by blast
qed

end
